(* ===== verification/Prelude.thy ===== *)
theory Prelude
  imports Complex_Main "HOL-Library.Word"
begin

text \<open>
  The part of the development every component shares: the type synonyms for Go's machine
  integers, the panics and the result type of operations that may panic, Go's slice
  expressions and the little endian loads and stores of \<open>encoding/binary\<close>, and the theory of
  bit strings (\<open>bits_of\<close>, \<open>of_bits\<close>, \<open>bytes_bits\<close>) in which every refinement statement of the
  development is phrased.
\<close>

unbundle bit_operations_syntax

section \<open>Machine types\<close>

type_synonym u8 = "8 word"
type_synonym u16 = "16 word"
type_synonym u32 = "32 word"
type_synonym u64 = "64 word"

text \<open>
  Go's signed types are the same bit patterns; comparisons on them are the signed word
  comparisons. A conversion between \<open>int32\<close> and \<open>uint32\<close> is the identity on the pattern.
\<close>

type_synonym i32 = "32 word"
type_synonym i64 = "64 word"

text \<open>Go's \<open>int\<close> and \<open>int64\<close> arithmetic, where it can overflow: two's complement wrap-around.\<close>

definition wrap64 :: "int \<Rightarrow> int" where
  "wrap64 i = signed_take_bit 63 i"

section \<open>Panics\<close>

text \<open>
  One constructor for each panic message of \<open>serialize.go\<close>, and the run time panics: a slice
  expression or an index out of range, and a division overflow.
\<close>

datatype panic =
    PanicBitsRange
  | PanicBitsRange64
  | PanicMinMax
  | PanicIntRelativeDomain
  | PanicFixedParams
  | PanicFixedBounds
  | PanicBufferSize
  | PanicFloatParams
  | PanicPrecomputedFloat
  | PanicCompressedFloatDecode
  | PanicWriteOverflow
  | PanicReadOverflow
  | PanicNotAligned
  | PanicBufferBytes
  | PanicCopyStringDestSize
  | PanicValueOutOfRange
  | PanicValueTooWide
  | PanicNonFiniteFloat
  | PanicStringTooLong
  | PanicInvalidUTF8
  | PanicEmbeddedNul
  | PanicIntRelativeOrder
  | PanicRejectOnWrite
  | RuntimeIndex
  | RuntimeDivide

text \<open>A computation that may panic, and the sequencing of two of them.\<close>

type_synonym 'a res = "panic + 'a"

definition andThen :: "'a res \<Rightarrow> ('a \<Rightarrow> 'b res) \<Rightarrow> 'b res" where
  "andThen r f = (case r of Inl p \<Rightarrow> Inl p | Inr x \<Rightarrow> f x)"

lemma andThen_simps [simp]:
  "andThen (Inl p) f = Inl p"
  "andThen (Inr x) f = f x"
  by (simp_all add: andThen_def)

lemma andThen_Inr_iff:
  "andThen r f = Inr y \<longleftrightarrow> (\<exists>x. r = Inr x \<and> f x = Inr y)"
  by (simp add: andThen_def split: sum.splits)

lemma andThen_Inl_iff:
  "andThen r f = Inl p \<longleftrightarrow> r = Inl p \<or> (\<exists>x. r = Inr x \<and> f x = Inl p)"
  by (auto simp add: andThen_def split: sum.splits)

lemma andThen_assoc: "andThen (andThen r f) g = andThen r (\<lambda>x. andThen (f x) g)"
  by (simp add: andThen_def split: sum.splits)

lemma andThen_cong [fundef_cong]:
  "r = r' \<Longrightarrow> (\<And>x. r' = Inr x \<Longrightarrow> f x = g x) \<Longrightarrow> andThen r f = andThen r' g"
  by (simp add: andThen_def split: sum.splits)

section \<open>Bit strings\<close>

text \<open>\<open>bits_of n w\<close> is the low \<open>n\<close> bits of \<open>w\<close>, least significant first.\<close>

definition bits_of :: "nat \<Rightarrow> 'a::len word \<Rightarrow> bool list" where
  "bits_of n w = map (bit w) [0..<n]"

definition of_bits :: "bool list \<Rightarrow> 'a::len word" where
  "of_bits bs = horner_sum of_bool 2 bs"

lemma length_bits_of [simp]: "length (bits_of n w) = n"
  by (simp add: bits_of_def)

lemma nth_bits_of [simp]: "i < n \<Longrightarrow> bits_of n w ! i = bit w i"
  by (simp add: bits_of_def)

lemma bits_of_0 [simp]: "bits_of 0 w = []"
  by (simp add: bits_of_def)

lemma bits_of_zero [simp]: "bits_of n 0 = replicate n False"
  by (rule nth_equalityI) simp_all

lemma bits_of_eq_iff:
  "bits_of n v = bits_of n w \<longleftrightarrow> (\<forall>i<n. bit v i = bit w i)"
  by (auto simp: list_eq_iff_nth_eq)

lemma bits_of_append: "bits_of (m + n) w = bits_of m w @ bits_of n (drop_bit m w)"
proof (rule nth_equalityI)
  fix i assume "i < length (bits_of (m + n) w)"
  then show "bits_of (m + n) w ! i = (bits_of m w @ bits_of n (drop_bit m w)) ! i"
    by (cases "i < m") (simp_all add: nth_append bit_drop_bit_eq)
qed simp

lemma take_bits_of: "take m (bits_of n w) = bits_of (min m n) w"
  by (rule nth_equalityI) simp_all

lemma drop_bits_of: "m \<le> n \<Longrightarrow> drop m (bits_of n w) = bits_of (n - m) (drop_bit m w)"
  by (rule nth_equalityI) (simp_all add: bit_drop_bit_eq)

lemma bits_of_take_bit: "n \<le> m \<Longrightarrow> bits_of n (take_bit m w) = bits_of n w"
  by (simp add: bits_of_eq_iff bit_take_bit_iff)

lemma bits_of_ucast:
  "n \<le> LENGTH('b) \<Longrightarrow> bits_of n (ucast (w::'a::len word) :: 'b::len word) = bits_of n w"
  by (simp add: bits_of_eq_iff bit_ucast_iff)

lemma bits_of_cong:
  fixes v :: "'a::len word" and w :: "'b::len word"
  shows "(\<And>i. i < n \<Longrightarrow> bit v i = bit w i) \<Longrightarrow> bits_of n v = bits_of n w"
  by (rule nth_equalityI) simp_all

lemma bit_beyond_take_bit: "take_bit s a = a \<Longrightarrow> s \<le> i \<Longrightarrow> \<not> bit (a::'a::len word) i"
  by (metis bit_take_bit_iff not_less)

lemma bit_imp_less_width: "take_bit n a = a \<Longrightarrow> bit (a::'a::len word) j \<Longrightarrow> j < n"
  using bit_beyond_take_bit not_less by blast

text \<open>Packing a field above the \<open>s\<close> pending bits of a scratch word.\<close>

lemma bits_of_pack:
  fixes a v :: "'a::len word"
  assumes "take_bit s a = a" and "s + n \<le> LENGTH('a)"
  shows "bits_of (s + n) (a OR push_bit s v) = bits_of s a @ bits_of n v"
proof (rule nth_equalityI)
  fix i assume "i < length (bits_of (s + n) (a OR push_bit s v))"
  then have i: "i < s + n" "i < LENGTH('a)" using assms(2) by auto
  show "bits_of (s + n) (a OR push_bit s v) ! i = (bits_of s a @ bits_of n v) ! i"
    using i bit_beyond_take_bit [OF assms(1), of i]
    by (auto simp: nth_append bit_or_iff bit_push_bit_iff)
qed simp

text \<open>Width is a property of bits: \<open>take_bit n v = v\<close> says that \<open>v\<close> fits \<open>n\<close> bits.\<close>

lemma take_bit_eq_self_iff_unat: "take_bit n (v::'a::len word) = v \<longleftrightarrow> unat v < 2 ^ n"
proof -
  have "take_bit n v = v \<longleftrightarrow> unat (take_bit n v) = unat v"
    by (simp add: word_unat_eq_iff)
  also have "\<dots> \<longleftrightarrow> take_bit n (unat v) = unat v"
    by (simp add: unsigned_take_bit_eq)
  also have "\<dots> \<longleftrightarrow> unat v < 2 ^ n"
    by (simp add: take_bit_nat_eq_self_iff)
  finally show ?thesis .
qed

lemma take_bit_eq_self_iff_uint: "take_bit n (v::'a::len word) = v \<longleftrightarrow> uint v < 2 ^ n"
  by (metis mask_eq_iff take_bit_eq_mask)

lemma take_bit_width [simp]:
  "take_bit 32 (u :: u32) = u" "take_bit 64 (v :: u64) = v" "take_bit 128 (w :: 128 word) = w"
  by (rule bit_word_eqI, simp add: bit_take_bit_iff)+

lemma take_bit_eq_self_mono: "take_bit m (v::'a::len word) = v \<Longrightarrow> m \<le> n \<Longrightarrow> take_bit n v = v"
  by (metis min.absorb2 take_bit_take_bit)

lemma bits_of_inj:
  fixes v w :: "'a::len word"
  assumes "take_bit n v = v" and "take_bit n w = w" and "bits_of n v = bits_of n w"
  shows "v = w"
proof (rule bit_word_eqI)
  fix i assume "i < LENGTH('a)"
  show "bit v i = bit w i"
    using assms bit_beyond_take_bit [of n v i] bit_beyond_take_bit [of n w i]
    by (cases "i < n") (simp_all add: bits_of_eq_iff)
qed

lemma bit_of_bits: "bit (of_bits bs :: 'a::len word) i \<longleftrightarrow> i < LENGTH('a) \<and> i < length bs \<and> bs ! i"
  by (auto simp: of_bits_def bit_horner_sum_bit_word_iff)

lemma of_bits_bits_of [simp]: "of_bits (bits_of n w) = take_bit n (w::'a::len word)"
  by (rule bit_word_eqI) (auto simp: bit_of_bits bit_take_bit_iff)

lemma bits_of_of_bits:
  "length bs = n \<Longrightarrow> n \<le> LENGTH('a) \<Longrightarrow> bits_of n (of_bits bs :: 'a::len word) = bs"
  by (rule nth_equalityI) (simp_all add: bit_of_bits)

lemma take_bit_of_bits: "length bs \<le> n \<Longrightarrow> take_bit n (of_bits bs :: 'a::len word) = of_bits bs"
  by (rule bit_word_eqI) (auto simp: bit_of_bits bit_take_bit_iff)

lemma of_bits_Nil [simp]: "of_bits [] = 0"
  by (simp add: of_bits_def)

lemma ucast_of_bits:
  "length bs \<le> LENGTH('b) \<Longrightarrow> length bs \<le> LENGTH('a) \<Longrightarrow>
   ucast (of_bits bs :: 'a::len word) = (of_bits bs :: 'b::len word)"
  by (rule bit_word_eqI) (auto simp: bit_ucast_iff bit_of_bits)


section \<open>Byte strings as bit strings\<close>

definition bytes_bits :: "u8 list \<Rightarrow> bool list" where
  "bytes_bits bs = concat (map (bits_of 8) bs)"

lemma bytes_bits_simps [simp]:
  "bytes_bits [] = []"
  "bytes_bits (b # bs) = bits_of 8 b @ bytes_bits bs"
  "bytes_bits (xs @ ys) = bytes_bits xs @ bytes_bits ys"
  by (simp_all add: bytes_bits_def)

lemma length_bytes_bits [simp]: "length (bytes_bits bs) = 8 * length bs"
  by (induction bs) simp_all

lemma nth_bytes_bits:
  "i < 8 * length bs \<Longrightarrow> bytes_bits bs ! i = bit (bs ! (i div 8)) (i mod 8)"
proof (induction bs arbitrary: i)
  case Nil
  then show ?case by simp
next
  case (Cons b bs)
  show ?case
  proof (cases "i < 8")
    case True
    then show ?thesis by (simp add: nth_append)
  next
    case False
    then obtain j where "i = 8 + j" by (metis le_add_diff_inverse not_less)
    with Cons show ?thesis by (simp add: nth_append)
  qed
qed

lemma take_bytes_bits: "take (8 * k) (bytes_bits bs) = bytes_bits (take k bs)"
proof (induction bs arbitrary: k)
  case (Cons b bs)
  then show ?case by (cases k) simp_all
qed simp

lemma drop_bytes_bits: "drop (8 * k) (bytes_bits bs) = bytes_bits (drop k bs)"
proof (induction bs arbitrary: k)
  case (Cons b bs)
  then show ?case by (cases k) simp_all
qed simp

lemma bits_of_8_inj: "bits_of 8 (a :: u8) = bits_of 8 b \<Longrightarrow> a = b"
  by (rule bits_of_inj [of 8]) (simp_all add: take_bit_word_eq_self)

lemma bytes_bits_inj: "bytes_bits xs = bytes_bits ys \<Longrightarrow> xs = ys"
proof (induction xs arbitrary: ys)
  case Nil
  then have "length (bytes_bits ys) = 0" by simp
  then show ?case by simp
next
  case (Cons x xs)
  from Cons.prems have "length (bytes_bits ys) = 8 + 8 * length xs" by (metis length_bytes_bits length_Cons mult_Suc_right)
  then obtain y zs where ys: "ys = y # zs" by (cases ys) auto
  from Cons.prems ys have "bits_of 8 x = bits_of 8 y" and "bytes_bits xs = bytes_bits zs"
    by simp_all
  with Cons.IH ys show ?case by (auto dest: bits_of_8_inj)
qed

lemma bytes_bits_replicate_0 [simp]: "bytes_bits (replicate n 0) = replicate (8 * n) False"
  by (induction n) (simp_all add: replicate_add [symmetric])

text \<open>The zero bits an align takes from a bit position to the next byte boundary.\<close>

definition align_len :: "nat \<Rightarrow> nat" where
  "align_len pos = (8 - pos mod 8) mod 8"

lemma align_len_cases: "align_len pos = (if pos mod 8 = 0 then 0 else 8 - pos mod 8)"
  by (simp add: align_len_def)

lemma align_sum: "pos + align_len pos = 8 * ((pos + 7) div 8)"
proof -
  define q r where "q = pos div 8" and "r = pos mod 8"
  have pos: "pos = 8 * q + r" and r: "r < 8" unfolding q_def r_def by simp_all
  have "(pos + 7) div 8 = q + (r + 7) div 8" unfolding pos by (simp add: add.assoc)
  moreover have "(r + 7) div 8 = (if r = 0 then 0 else 1)" using r by (simp add: div_nat_eqI)
  ultimately show ?thesis using pos r unfolding align_len_cases r_def [symmetric] by simp
qed

lemma align_len_aligned [simp]: "(pos + align_len pos) mod 8 = 0"
  unfolding align_sum by simp

lemma align_room:
  assumes "8 dvd N" and "pos \<le> N"
  shows "pos + align_len pos \<le> (N::nat)"
proof -
  obtain k where k: "N = 8 * k" using assms(1) by (rule dvdE)
  have "(pos + 7) div 8 \<le> (8 * k + 7) div 8" using assms(2) k by (intro div_le_mono) simp
  then show ?thesis unfolding align_sum k by simp
qed

text \<open>
  The bytes a stream hands on: when the stored words hold \<open>bs\<close> and zeros after it, the first
  \<open>(length bs + 7) div 8\<close> bytes hold \<open>bs\<close> and its padding.
\<close>

lemma bytes_bits_prefix:
  assumes "bytes_bits (take (8 * m) d) = bs @ replicate (64 * m - length bs) False"
    and "length bs \<le> 64 * m" and "8 * m \<le> length d"
  shows "bytes_bits (take ((length bs + 7) div 8) d) = bs @ replicate (align_len (length bs)) False"
proof -
  define n where "n = (length bs + 7) div 8"
  have n: "8 * n = length bs + align_len (length bs)" "n \<le> 8 * m"
    using align_sum [of "length bs"] align_room [of "64 * m" "length bs"] assms(2) by (simp_all add: n_def)
  have "take n d = take n (take (8 * m) d)" using n(2) by (simp add: min_def)
  then have "bytes_bits (take n d) = take (8 * n) (bytes_bits (take (8 * m) d))"
    by (simp add: take_bytes_bits)
  also have "\<dots> = bs @ replicate (align_len (length bs)) False"
    using n unfolding assms(1) by (simp add: min_def)
  finally show ?thesis unfolding n_def .
qed

section \<open>Go slices and little endian words\<close>

text \<open>
  The slice expressions \<open>xs[i:]\<close> and \<open>xs[i:j]\<close>, with the run time panic when an index is out
  of range. (The upper bound of a Go slice expression is the capacity; every use in the modelled
  code keeps within the length, so the length is the bound here.)
\<close>

definition slice_from :: "'a list \<Rightarrow> int \<Rightarrow> 'a list res" where
  "slice_from xs i = (if i < 0 \<or> int (length xs) < i then Inl RuntimeIndex
                      else Inr (drop (nat i) xs))"

definition slice_range :: "'a list \<Rightarrow> int \<Rightarrow> int \<Rightarrow> 'a list res" where
  "slice_range xs i j = (if i < 0 \<or> j < i \<or> int (length xs) < j then Inl RuntimeIndex
                         else Inr (take (nat (j - i)) (drop (nat i) xs)))"

text \<open>\<open>binary.LittleEndian\<close>: the loads panic on a slice that is too short, and so does the store.\<close>

definition LE_Uint64 :: "u8 list \<Rightarrow> u64 res" where
  "LE_Uint64 b = (if length b < 8 then Inl RuntimeIndex else Inr
     (ucast (b ! 0) OR push_bit 8 (ucast (b ! 1)) OR push_bit 16 (ucast (b ! 2))
      OR push_bit 24 (ucast (b ! 3)) OR push_bit 32 (ucast (b ! 4)) OR push_bit 40 (ucast (b ! 5))
      OR push_bit 48 (ucast (b ! 6)) OR push_bit 56 (ucast (b ! 7))))"

definition LE_Uint32 :: "u8 list \<Rightarrow> u32 res" where
  "LE_Uint32 b = (if length b < 4 then Inl RuntimeIndex else Inr
     (ucast (b ! 0) OR push_bit 8 (ucast (b ! 1)) OR push_bit 16 (ucast (b ! 2))
      OR push_bit 24 (ucast (b ! 3))))"

definition LE_bytes64 :: "u64 \<Rightarrow> u8 list" where
  "LE_bytes64 v = [ucast v, ucast (drop_bit 8 v), ucast (drop_bit 16 v), ucast (drop_bit 24 v),
     ucast (drop_bit 32 v), ucast (drop_bit 40 v), ucast (drop_bit 48 v), ucast (drop_bit 56 v)]"

definition LE_PutUint64 :: "u8 list \<Rightarrow> u64 \<Rightarrow> u8 list res" where
  "LE_PutUint64 b v = (if length b < 8 then Inl RuntimeIndex else Inr (LE_bytes64 v @ drop 8 b))"

text \<open>The statement \<open>binary.LittleEndian.PutUint64(data[i:], v)\<close>: the store goes through the slice.\<close>

definition put_word :: "u8 list \<Rightarrow> nat \<Rightarrow> u64 \<Rightarrow> u8 list res" where
  "put_word xs i v =
     andThen (slice_from xs (int i)) (\<lambda>sl.
     andThen (LE_PutUint64 sl v) (\<lambda>sl'. Inr (take i xs @ sl')))"

text \<open>The statement \<open>copy(data[i:], src)\<close>: as many bytes as both sides have.\<close>

definition copy_at :: "u8 list \<Rightarrow> nat \<Rightarrow> u8 list \<Rightarrow> u8 list res" where
  "copy_at xs i src =
     andThen (slice_from xs (int i)) (\<lambda>sl.
       let n = min (length sl) (length src) in Inr (take i xs @ take n src @ drop n sl))"

lemma length_LE_bytes64 [simp]: "length (LE_bytes64 v) = 8"
  by (simp add: LE_bytes64_def)

lemma bytes_bits_LE_bytes64: "bytes_bits (LE_bytes64 v) = bits_of 64 v"
proof -
  have s: "bits_of (8 + n) w = bits_of 8 w @ bits_of n (drop_bit 8 w)" for n and w :: u64
    by (rule bits_of_append)
  have "bits_of 64 v = bits_of (8+(8+(8+(8+(8+(8+(8+8))))))) v" by simp
  also have "\<dots> = bytes_bits (LE_bytes64 v)"
    by (simp only: s drop_bit_drop_bit)
       (simp add: LE_bytes64_def bits_of_ucast)
  finally show ?thesis by simp
qed

lemma put_word_eq:
  "i + 8 \<le> length xs \<Longrightarrow> put_word xs i v = Inr (take i xs @ LE_bytes64 v @ drop (i + 8) xs)"
  by (simp add: put_word_def slice_from_def LE_PutUint64_def add.commute)

lemma put_word_panic: "length xs < i + 8 \<Longrightarrow> put_word xs i v = Inl RuntimeIndex"
  by (auto simp add: put_word_def slice_from_def LE_PutUint64_def)

lemma copy_at_eq:
  "i + length src \<le> length xs \<Longrightarrow>
   copy_at xs i src = Inr (take i xs @ src @ drop (i + length src) xs)"
  by (auto simp add: copy_at_def slice_from_def Let_def min_def add.commute)

lemma take_bit_ucast_u8: "take_bit 8 (ucast (b::u8) :: 'a::len word) = ucast b"
  by (rule bit_word_eqI) (auto simp: bit_take_bit_iff bit_ucast_iff dest: bit_imp_le_length)

text \<open>One byte below a word that is already assembled.\<close>

lemma bits_of_byte_step:
  assumes "8 + n \<le> LENGTH('a)"
  shows "bits_of (8 + n) (ucast (b::u8) OR push_bit 8 (r::'a::len word)) = bits_of 8 b @ bits_of n r"
  using bits_of_pack [OF take_bit_ucast_u8 assms] assms by (simp add: bits_of_ucast)

lemma list8_cases:
  assumes "8 \<le> length b"
  obtains b0 b1 b2 b3 b4 b5 b6 b7 r where "b = [b0, b1, b2, b3, b4, b5, b6, b7] @ r"
proof -
  define t where "t = take 8 b"
  have "length t = 8" using assms by (simp add: t_def)
  then obtain b0 b1 b2 b3 b4 b5 b6 b7 where "t = [b0, b1, b2, b3, b4, b5, b6, b7]"
    by (auto simp: numeral_eq_Suc length_Suc_conv)
  then have "b = [b0, b1, b2, b3, b4, b5, b6, b7] @ drop 8 b" unfolding t_def by (metis append_take_drop_id)
  then show ?thesis by (rule that)
qed

lemma list4_cases:
  assumes "4 \<le> length b"
  obtains b0 b1 b2 b3 r where "b = [b0, b1, b2, b3] @ r"
proof -
  define t where "t = take 4 b"
  have "length t = 4" using assms by (simp add: t_def)
  then obtain b0 b1 b2 b3 where "t = [b0, b1, b2, b3]"
    by (auto simp: numeral_eq_Suc length_Suc_conv)
  then have "b = [b0, b1, b2, b3] @ drop 4 b" unfolding t_def by (metis append_take_drop_id)
  then show ?thesis by (rule that)
qed

lemma LE_Uint64_bits:
  assumes "LE_Uint64 b = Inr w"
  shows "bits_of 64 w = bytes_bits (take 8 b)"
proof -
  from assms have len: "8 \<le> length b" by (auto simp: LE_Uint64_def split: if_splits)
  then obtain b0 b1 b2 b3 b4 b5 b6 b7 r where b: "b = [b0, b1, b2, b3, b4, b5, b6, b7] @ r"
    by (rule list8_cases)
  have w: "w = ucast b0 OR push_bit 8 (ucast b1 OR push_bit 8 (ucast b2 OR push_bit 8 (ucast b3
      OR push_bit 8 (ucast b4 OR push_bit 8 (ucast b5 OR push_bit 8 (ucast b6
      OR push_bit 8 (ucast b7 OR push_bit 8 0)))))))"
    using assms by (simp add: LE_Uint64_def b push_bit_or or.assoc)
  have "bits_of (8+(8+(8+(8+(8+(8+(8+(8+0)))))))) w = bytes_bits [b0, b1, b2, b3, b4, b5, b6, b7]"
    unfolding w by (subst bits_of_byte_step, simp)+ simp
  then show ?thesis by (simp add: b)
qed

lemma LE_Uint32_bits:
  assumes "LE_Uint32 b = Inr w"
  shows "bits_of 32 w = bytes_bits (take 4 b)"
proof -
  from assms have len: "4 \<le> length b" by (auto simp: LE_Uint32_def split: if_splits)
  then obtain b0 b1 b2 b3 r where b: "b = [b0, b1, b2, b3] @ r"
    by (rule list4_cases)
  have w: "w = ucast b0 OR push_bit 8 (ucast b1 OR push_bit 8 (ucast b2 OR push_bit 8 (ucast b3
      OR push_bit 8 0)))"
    using assms by (simp add: LE_Uint32_def b push_bit_or or.assoc)
  have "bits_of (8+(8+(8+(8+0)))) w = bytes_bits [b0, b1, b2, b3]"
    unfolding w by (subst bits_of_byte_step, simp)+ simp
  then show ?thesis by (simp add: b)
qed

lemma bits_of_full_inj: "bits_of LENGTH('a) v = bits_of LENGTH('a) w \<Longrightarrow> v = (w::'a::len word)"
  by (rule bits_of_inj [of "LENGTH('a)"]) (simp_all add: take_bit_word_eq_self)

lemma LE_Uint64_eq: "8 \<le> length b \<Longrightarrow> LE_Uint64 b = Inr (of_bits (bytes_bits (take 8 b)))"
proof -
  assume "8 \<le> length b"
  then obtain w where w: "LE_Uint64 b = Inr w" by (simp add: LE_Uint64_def)
  have "bits_of LENGTH(64) w = bits_of LENGTH(64) (of_bits (bytes_bits (take 8 b)) :: u64)"
    using LE_Uint64_bits [OF w] \<open>8 \<le> length b\<close> by (simp add: bits_of_of_bits min_absorb2)
  then show ?thesis using w by (metis bits_of_full_inj)
qed

lemma LE_Uint32_eq: "4 \<le> length b \<Longrightarrow> LE_Uint32 b = Inr (of_bits (bytes_bits (take 4 b)))"
proof -
  assume "4 \<le> length b"
  then obtain w where w: "LE_Uint32 b = Inr w" by (simp add: LE_Uint32_def)
  have "bits_of LENGTH(32) w = bits_of LENGTH(32) (of_bits (bytes_bits (take 4 b)) :: u32)"
    using LE_Uint32_bits [OF w] \<open>4 \<le> length b\<close> by (simp add: bits_of_of_bits min_absorb2)
  then show ?thesis using w by (metis bits_of_full_inj)
qed

end
