(* ===== verification/Packing.thy ===== *)
theory Packing
  imports Prelude
begin

text \<open>
  The little endian qword packing that \<open>BitWriter\<close> (bitpacker.go) and \<open>WriteStream\<close>
  (write_stream.go) share, and the interface both provide to their clients. \<open>packed\<close> reads the
  bits a writer holds off its memory: the flushed qwords, then the pending scratch bits. The
  locale \<open>bit_sink\<close> is the contract of "write \<open>n\<close> bits": what it appends, and what it keeps.
  Its clients are the byte loops of \<open>writeBytes\<close> and \<open>writeBytesStream\<close>.
\<close>

definition packed :: "u8 list \<Rightarrow> nat \<Rightarrow> nat \<Rightarrow> u64 \<Rightarrow> bool list" where
  "packed data w sb scratch = take (64 * w) (bytes_bits data) @ bits_of sb scratch"

lemma length_packed:
  "8 * w \<le> length data \<Longrightarrow> length (packed data w sb scratch) = 64 * w + sb"
  by (simp add: packed_def min_def)

lemma take_words_bytes: "take (64 * w) (bytes_bits data) = bytes_bits (take (8 * w) data)"
  using take_bytes_bits [of "8 * w" data] by simp

text \<open>A field that stays inside the scratch word.\<close>

lemma packed_stay:
  assumes "take_bit sb scratch = scratch" and "sb + n \<le> 64"
  shows "packed data w (sb + n) (scratch OR push_bit sb v) = packed data w sb scratch @ bits_of n v"
  using assms by (simp add: packed_def bits_of_pack)

lemma take_bit_stay:
  assumes "take_bit sb scratch = scratch" and "take_bit n v = v"
  shows "take_bit (sb + n) (scratch OR push_bit sb v :: u64) = scratch OR push_bit sb v"
proof (rule bit_word_eqI)
  fix i
  show "bit (take_bit (sb + n) (scratch OR push_bit sb v)) i = bit (scratch OR push_bit sb v) i"
    using bit_imp_less_width [OF assms(1), of i] bit_imp_less_width [OF assms(2), of "i - sb"]
    by (auto simp: bit_take_bit_iff bit_or_iff bit_push_bit_iff less_diff_conv2)
qed

text \<open>A field that fills the scratch: one qword is stored and the rest carries over.\<close>

lemma packed_spill:
  fixes scratch v :: u64
  assumes scratch: "take_bit sb scratch = scratch" and sb: "sb < 64" and n: "64 \<le> sb + n"
    and fits: "8 * w + 8 \<le> length data"
  defines "d \<equiv> take (8 * w) data @ LE_bytes64 (scratch OR push_bit sb v) @ drop (8 * w + 8) data"
  shows "packed d (Suc w) (sb + n - 64) (drop_bit (64 - sb) v) = packed data w sb scratch @ bits_of n v"
proof -
  have "bits_of n v = bits_of ((64 - sb) + (sb + n - 64)) v"
    using sb n by simp
  also have "\<dots> = bits_of (64 - sb) v @ bits_of (sb + n - 64) (drop_bit (64 - sb) v)"
    by (rule bits_of_append)
  finally have split: "bits_of n v = \<dots>" .
  have "bits_of 64 (scratch OR push_bit sb v) = bits_of sb scratch @ bits_of (64 - sb) v"
    using bits_of_pack [OF scratch, of "64 - sb" v] sb by simp
  moreover have "take (64 * Suc w) (bytes_bits d)
      = bytes_bits (take (8 * w) data) @ bits_of 64 (scratch OR push_bit sb v)"
    using fits unfolding d_def take_words_bytes by (simp add: bytes_bits_LE_bytes64 min_absorb2)
  ultimately show ?thesis
    unfolding packed_def split take_words_bytes [symmetric] by simp
qed

lemma take_bit_spill:
  assumes "take_bit n v = v" and "sb < 64" and "64 \<le> sb + n"
  shows "take_bit (sb + n - 64) (drop_bit (64 - sb) v :: u64) = drop_bit (64 - sb) v"
proof (rule bit_word_eqI)
  fix i
  show "bit (take_bit (sb + n - 64) (drop_bit (64 - sb) v)) i = bit (drop_bit (64 - sb) v) i"
    using bit_imp_less_width [OF assms(1), of "64 - sb + i"] assms(2,3)
    by (auto simp: bit_take_bit_iff bit_drop_bit_eq)
qed

text \<open>A run of whole bytes copied at a qword boundary.\<close>

lemma packed_copy:
  assumes "length src = 8 * k" and "8 * w + 8 * k \<le> length data"
  shows "packed (take (8 * w) data @ src @ drop (8 * w + 8 * k) data) (w + k) 0 0
       = packed data w 0 s @ bytes_bits src"
  using assms unfolding packed_def take_words_bytes
  by (simp add: distrib_left min_absorb2)

text \<open>The flush stores the pending bits as one more qword; its high bits are zero.\<close>

lemma packed_flush:
  assumes "take_bit sb scratch = scratch" and "sb \<le> 64" and "8 * w + 8 \<le> length data"
  shows "bytes_bits (take (8 * w) data @ LE_bytes64 scratch)
       = packed data w sb scratch @ replicate (64 - sb) False"
proof -
  have "bits_of 64 scratch = bits_of (sb + (64 - sb)) scratch" using assms(2) by simp
  also have "\<dots> = bits_of sb scratch @ bits_of (64 - sb) (drop_bit sb scratch)" by (rule bits_of_append)
  also have "drop_bit sb scratch = 0"
    by (rule bit_word_eqI) (use assms(1) in \<open>auto simp: bit_drop_bit_eq dest: bit_imp_less_width\<close>)
  finally show ?thesis
    unfolding packed_def take_words_bytes by (simp add: bytes_bits_LE_bytes64)
qed

text \<open>A qword the pending bits fill lies inside the buffer; counters at a word boundary.\<close>

lemma word_room: "64 \<le> b mod 64 + n \<Longrightarrow> b + n \<le> 8 * L \<Longrightarrow> 8 * (b div 64) + 8 \<le> (L::nat)"
  using div_mult_mod_eq [of b 64] by linarith

lemma counters_stay:
  assumes "(b::nat) mod 64 + n < 64"
  shows "(b + n) div 64 = b div 64" and "(b + n) mod 64 = b mod 64 + n"
proof -
  have "b + n = 64 * (b div 64) + (b mod 64 + n)" using div_mult_mod_eq [of b 64] by linarith
  then show "(b + n) div 64 = b div 64" and "(b + n) mod 64 = b mod 64 + n"
    using assms by (metis div_mult_self4 div_less add.commute add_0 zero_neq_numeral,
                    metis mod_mult_self4 mod_less add.commute)
qed

lemma counters_spill:
  assumes "64 \<le> (b::nat) mod 64 + n" and "n \<le> 64"
  shows "(b + n) div 64 = Suc (b div 64)" and "(b + n) mod 64 = b mod 64 + n - 64"
proof -
  define r where "r = b mod 64 + n - 64"
  have "r < 64" using assms mod_less_divisor [of 64 b] unfolding r_def by linarith
  have "b + n = r + 64 * Suc (b div 64)"
    using assms(1) div_mult_mod_eq [of b 64] unfolding r_def mult_Suc_right by linarith
  then show "(b + n) div 64 = Suc (b div 64)" and "(b + n) mod 64 = b mod 64 + n - 64"
    using \<open>r < 64\<close> unfolding r_def [symmetric] by (simp_all only: div_mult_self2 mod_mult_self2 div_less mod_less)
qed

text \<open>The number of qwords the flush leaves stored, and the padding in the last one.\<close>

lemma flush_words:
  "(b + 63) div 64 = (if b mod 64 = 0 then b div 64 else Suc (b div 64 :: nat))"
proof -
  have "b + 63 = 64 * (b div 64) + (b mod 64 + 63)" using div_mult_mod_eq [of b 64] by linarith
  then have "(b + 63) div 64 = b div 64 + (b mod 64 + 63) div 64"
    by (metis div_mult_self4 zero_neq_numeral)
  moreover have "(b mod 64 + 63) div 64 = (if b mod 64 = 0 then 0 else 1)"
    by (simp add: div_nat_eqI)
  ultimately show ?thesis by simp
qed

lemma flush_pad: "b mod 64 \<noteq> 0 \<Longrightarrow> 64 * Suc (b div 64) - b = 64 - (b mod 64 :: nat)"
  using div_mult_mod_eq [of b 64] mod_less_divisor [of 64 b] unfolding mult_Suc_right by linarith

lemma flush_room:
  assumes "(b::nat) mod 64 \<noteq> 0" and "b \<le> 8 * L" and "L mod 8 = 0"
  shows "8 * (b div 64) + 8 \<le> L"
proof -
  obtain k where "L = 8 * k" using assms(3) by auto
  moreover have "b \<noteq> k * 64" using assms(1) by auto
  then have "b < k * 64" using assms(2) \<open>L = 8 * k\<close> by linarith
  then have "b div 64 < k" by (simp add: div_less_iff_less_mult)
  ultimately show ?thesis by linarith
qed

section \<open>The interface of a writer of bits\<close>

text \<open>The loop that writes one byte after another, as \<open>for\<close> over the bytes.\<close>

primrec foldM :: "('s \<Rightarrow> 'a \<Rightarrow> 's res) \<Rightarrow> 's \<Rightarrow> 'a list \<Rightarrow> 's res" where
  "foldM f s [] = Inr s"
| "foldM f s (x # xs) = andThen (f s x) (\<lambda>s'. foldM f s' xs)"

locale bit_sink =
  fixes put :: "'s \<Rightarrow> nat \<Rightarrow> u64 \<Rightarrow> 's res"
    and inv :: "'s \<Rightarrow> bool"
    and out :: "'s \<Rightarrow> bool list"
    and cap :: "'s \<Rightarrow> nat"
    and width :: nat
  assumes width8: "8 \<le> width"
    and put_law: "inv s \<Longrightarrow> n \<le> width \<Longrightarrow> take_bit n v = v \<Longrightarrow> length (out s) + n \<le> cap s \<Longrightarrow>
      \<exists>s'. put s n v = Inr s' \<and> inv s' \<and> out s' = out s @ bits_of n v \<and> cap s' = cap s"
begin

lemma put_byte:
  assumes "inv s" and "length (out s) + 8 \<le> cap s"
  shows "\<exists>s'. put s 8 (ucast (b::u8)) = Inr s' \<and> inv s' \<and> out s' = out s @ bits_of 8 b \<and> cap s' = cap s"
  using put_law [OF assms(1) width8 take_bit_ucast_u8 assms(2)] by (simp add: bits_of_ucast)

lemma put_bytes:
  assumes "inv s" and "length (out s) + 8 * length bs \<le> cap s"
  shows "\<exists>s'. foldM (\<lambda>s b. put s 8 (ucast (b::u8))) s bs = Inr s' \<and> inv s'
          \<and> out s' = out s @ bytes_bits bs \<and> cap s' = cap s"
  using assms
proof (induction bs arbitrary: s)
  case Nil
  then show ?case by simp
next
  case (Cons b bs)
  then obtain s1 where s1: "put s 8 (ucast b) = Inr s1" "inv s1" "out s1 = out s @ bits_of 8 b" "cap s1 = cap s"
    using put_byte [of s b] by auto
  with Cons.prems Cons.IH [of s1] show ?case by auto
qed

end


section \<open>The interface of a reader of bits\<close>

text \<open>
  The other side of the wire: \<open>bit_source\<close> is the contract of "read \<open>n\<close> bits". Its client is
  the reading of a list of fields, which returns what a sink was given.
\<close>

text \<open>Reading one field after another, given their widths.\<close>

primrec getM :: "('s \<Rightarrow> nat \<Rightarrow> ('w \<times> 's) res) \<Rightarrow> 's \<Rightarrow> nat list \<Rightarrow> ('w list \<times> 's) res" where
  "getM get s [] = Inr ([], s)"
| "getM get s (n # ns) =
     andThen (get s n) (\<lambda>(v, s). andThen (getM get s ns) (\<lambda>(vs, s). Inr (v # vs, s)))"

locale bit_source =
  fixes get :: "'s \<Rightarrow> nat \<Rightarrow> (('w::len) word \<times> 's) res"
    and inv :: "'s \<Rightarrow> bool"
    and rest :: "'s \<Rightarrow> bool list"
    and width :: nat
  assumes width_le: "width \<le> LENGTH('w)"
    and get_law: "inv s \<Longrightarrow> n \<le> width \<Longrightarrow> n \<le> length (rest s) \<Longrightarrow>
      \<exists>s'. get s n = Inr (of_bits (take n (rest s)), s') \<and> inv s' \<and> rest s' = drop n (rest s)"
begin

lemma get_bits:
  assumes "inv s" and "n \<le> width" and "take_bit n v = v" and "rest s = bits_of n v @ tail"
  shows "\<exists>s'. get s n = Inr (v, s') \<and> inv s' \<and> rest s' = tail"
  using get_law [OF assms(1,2)] assms(3,4) by simp

lemma get_fields:
  assumes "inv s" and "\<forall>(v, n) \<in> set fs. n \<le> width \<and> take_bit n v = v"
    and "rest s = concat (map (\<lambda>(v, n). bits_of n v) fs) @ tail"
  shows "\<exists>s'. getM get s (map snd fs) = Inr (map fst fs, s') \<and> inv s' \<and> rest s' = tail"
  using assms
proof (induction fs arbitrary: s)
  case Nil
  then show ?case by simp
next
  case (Cons f fs)
  obtain v n where f: "f = (v, n)" by (cases f)
  with Cons.prems obtain s1 where s1: "get s n = Inr (v, s1)" "inv s1"
    "rest s1 = concat (map (\<lambda>(v, n). bits_of n v) fs) @ tail"
    using get_bits [of s n v] by auto
  with Cons.prems Cons.IH [of s1] f show ?case by auto
qed

end

end
