(* ===== verification/Bit_Writer.thy ===== *)
theory Bit_Writer
  imports Packing
begin

text \<open>
  \<open>BitWriter\<close> (bitpacker.go): the record, every operation, the invariant \<open>bw_inv\<close> every operation
  keeps, and the refinement of the packed memory to the plain list of bits written (\<open>bw_bits\<close>).
  Counters are natural numbers: a bit count is eight times a slice length at most, far below
  the range of \<open>int64\<close>, and no operation subtracts below zero.
\<close>

record bit_writer =
  bw_data :: "u8 list"
  bw_scratch :: u64
  bw_numBits :: nat
  bw_bitsWritten :: nat
  bw_wordIndex :: nat
  bw_scratchBits :: nat

definition BitWriter_Reset :: "u8 list \<Rightarrow> bit_writer res" where
  "BitWriter_Reset buffer =
     (if length buffer mod 8 \<noteq> 0 then Inl PanicBufferBytes
      else Inr \<lparr>bw_data = buffer, bw_scratch = 0, bw_numBits = length buffer * 8,
                bw_bitsWritten = 0, bw_wordIndex = 0, bw_scratchBits = 0\<rparr>)"

definition NewBitWriter :: "u8 list \<Rightarrow> bit_writer res" where
  "NewBitWriter buffer = BitWriter_Reset buffer"

definition BitWriter_writeBits :: "bit_writer \<Rightarrow> u32 \<Rightarrow> nat \<Rightarrow> bit_writer res" where
  "BitWriter_writeBits w val bits =
    (let value = val AND ucast (push_bit bits (1::u64) - 1);
         scratch = bw_scratch w OR push_bit (bw_scratchBits w) (ucast value);
         newScratchBits = bw_scratchBits w + bits
     in if 64 \<le> newScratchBits then
          andThen (put_word (bw_data w) (bw_wordIndex w * 8) scratch) (\<lambda>d.
            Inr (w\<lparr>bw_data := d,
                   bw_wordIndex := bw_wordIndex w + 1,
                   bw_scratch := drop_bit (64 - bw_scratchBits w) (ucast value),
                   bw_scratchBits := newScratchBits - 64,
                   bw_bitsWritten := bw_bitsWritten w + bits\<rparr>))
        else
          Inr (w\<lparr>bw_scratch := scratch,
                 bw_scratchBits := newScratchBits,
                 bw_bitsWritten := bw_bitsWritten w + bits\<rparr>))"

definition BitWriter_WriteBits :: "bit_writer \<Rightarrow> u32 \<Rightarrow> int \<Rightarrow> bit_writer res" where
  "BitWriter_WriteBits w value bits =
    (if bits < 1 \<or> 32 < bits then Inl PanicBitsRange
     else if drop_bit (nat (32 - bits)) (NOT 0) < value then Inl PanicValueTooWide
     else if bw_numBits w < bw_bitsWritten w + nat bits then Inl PanicWriteOverflow
     else BitWriter_writeBits w value (nat bits))"

definition BitWriter_WriteAlign :: "bit_writer \<Rightarrow> bit_writer res" where
  "BitWriter_WriteAlign w =
    (let remainderBits = bw_bitsWritten w mod 8
     in if remainderBits \<noteq> 0 then BitWriter_WriteBits w 0 (8 - int remainderBits) else Inr w)"

text \<open>\<open>writeBytes\<close>: head bytes up to a qword boundary, a straight copy, then the tail bytes.\<close>

definition BitWriter_writeBytes :: "bit_writer \<Rightarrow> u8 list \<Rightarrow> bit_writer res" where
  "BitWriter_writeBytes w data =
    (if bw_bitsWritten w mod 8 \<noteq> 0 then Inl PanicNotAligned
     else if bw_numBits w < bw_bitsWritten w + length data * 8 then Inl PanicWriteOverflow
     else
       let n = length data;
           headBytes = min ((8 - bw_bitsWritten w mod 64 div 8) mod 8) n
       in andThen (foldM (\<lambda>w b. BitWriter_writeBits w (ucast b) 8) w (take headBytes data)) (\<lambda>w.
          if headBytes = n then Inr w
          else
            let numWords = (n - headBytes) div 8
            in andThen
                 (if 0 < numWords then
                    andThen (copy_at (bw_data w) (bw_wordIndex w * 8)
                               (take (numWords * 8) (drop headBytes data))) (\<lambda>d.
                      Inr (w\<lparr>bw_data := d,
                             bw_bitsWritten := bw_bitsWritten w + numWords * 64,
                             bw_wordIndex := bw_wordIndex w + numWords\<rparr>))
                  else Inr w) (\<lambda>w.
               foldM (\<lambda>w b. BitWriter_writeBits w (ucast b) 8) w
                 (drop (headBytes + numWords * 8) data))))"

definition BitWriter_WriteBytes :: "bit_writer \<Rightarrow> u8 list \<Rightarrow> bit_writer res" where
  "BitWriter_WriteBytes w data = BitWriter_writeBytes w data"

definition BitWriter_FlushBits :: "bit_writer \<Rightarrow> bit_writer res" where
  "BitWriter_FlushBits w =
    (if bw_scratchBits w \<noteq> 0 then
       andThen (put_word (bw_data w) (bw_wordIndex w * 8) (bw_scratch w)) (\<lambda>d.
         Inr (w\<lparr>bw_data := d, bw_scratch := 0, bw_scratchBits := 0,
                bw_wordIndex := bw_wordIndex w + 1\<rparr>))
     else Inr w)"

definition BitWriter_AlignBits :: "bit_writer \<Rightarrow> nat" where
  "BitWriter_AlignBits w = (8 - bw_bitsWritten w mod 8) mod 8"

definition BitWriter_BitsWritten :: "bit_writer \<Rightarrow> nat" where
  "BitWriter_BitsWritten w = bw_bitsWritten w"

definition BitWriter_BitsAvailable :: "bit_writer \<Rightarrow> int" where
  "BitWriter_BitsAvailable w = int (bw_numBits w) - int (bw_bitsWritten w)"

definition BitWriter_BytesWritten :: "bit_writer \<Rightarrow> nat" where
  "BitWriter_BytesWritten w = (bw_bitsWritten w + 7) div 8"

definition BitWriter_Data :: "bit_writer \<Rightarrow> u8 list res" where
  "BitWriter_Data w = slice_range (bw_data w) 0 (int (BitWriter_BytesWritten w))"

section \<open>Invariant and abstraction\<close>

text \<open>
  \<open>bw_inv buf w\<close>: the writer \<open>w\<close> was reset onto the buffer \<open>buf\<close>; the scratch holds exactly the
  pending bits, and memory past the flushed qwords is still what the buffer held.
\<close>

definition bw_inv :: "u8 list \<Rightarrow> bit_writer \<Rightarrow> bool" where
  "bw_inv buf w \<longleftrightarrow>
     length buf mod 8 = 0 \<and> length (bw_data w) = length buf \<and>
     bw_numBits w = 8 * length buf \<and> bw_bitsWritten w \<le> bw_numBits w \<and>
     bw_wordIndex w = bw_bitsWritten w div 64 \<and> bw_scratchBits w = bw_bitsWritten w mod 64 \<and>
     take_bit (bw_scratchBits w) (bw_scratch w) = bw_scratch w \<and>
     drop (8 * bw_wordIndex w) (bw_data w) = drop (8 * bw_wordIndex w) buf"

definition bw_bits :: "bit_writer \<Rightarrow> bool list" where
  "bw_bits w = packed (bw_data w) (bw_wordIndex w) (bw_scratchBits w) (bw_scratch w)"


lemma and_mask_u32: "n \<le> 32 \<Longrightarrow> (v::u32) AND ucast ((2::u64) ^ n - 1) = take_bit n v"
proof (rule bit_word_eqI)
  fix i assume "n \<le> 32" and "i < LENGTH(32)"
  have "(2::u64) ^ n - 1 = mask n" by (simp add: mask_eq_exp_minus_1)
  then show "bit (v AND ucast ((2::u64) ^ n - 1)) i = bit (take_bit n v) i"
    using \<open>i < LENGTH(32)\<close> by (auto simp: bit_and_iff bit_ucast_iff bit_mask_iff bit_take_bit_iff)
qed

lemma take_bit_ucast_eq:
  "take_bit n (v::'a::len word) = v \<Longrightarrow> take_bit n (ucast v :: 'b::len word) = ucast v"
  by (rule bit_word_eqI) (auto simp: bit_take_bit_iff bit_ucast_iff dest: bit_imp_less_width)

lemma bw_invD:
  assumes "bw_inv buf w"
  shows "length buf mod 8 = 0" and "length (bw_data w) = length buf"
    and "bw_numBits w = 8 * length buf" and "bw_bitsWritten w \<le> bw_numBits w"
    and "bw_wordIndex w = bw_bitsWritten w div 64" and "bw_scratchBits w = bw_bitsWritten w mod 64"
    and "take_bit (bw_scratchBits w) (bw_scratch w) = bw_scratch w"
    and "drop (8 * bw_wordIndex w) (bw_data w) = drop (8 * bw_wordIndex w) buf"
  using assms unfolding bw_inv_def by blast+

lemma length_bw_bits: "bw_inv buf w \<Longrightarrow> length (bw_bits w) = bw_bitsWritten w"
  by (auto simp add: bw_inv_def bw_bits_def length_packed)

lemma bw_inv_word_fits:
  "bw_inv buf w \<Longrightarrow> 64 \<le> bw_bitsWritten w mod 64 + n \<Longrightarrow> bw_bitsWritten w + n \<le> bw_numBits w \<Longrightarrow>
   8 * bw_wordIndex w + 8 \<le> length (bw_data w)"
  using word_room [of "bw_bitsWritten w" n "length buf"] by (simp add: bw_inv_def)

text \<open>The hot path: it cannot panic when the field fits, and it appends the field's bits.\<close>

lemma writeBits_ok:
  assumes inv: "bw_inv buf w" and n: "n \<le> 32" and v: "take_bit n v = v"
    and fits: "bw_bitsWritten w + n \<le> bw_numBits w"
  shows "\<exists>w'. BitWriter_writeBits w v n = Inr w' \<and> bw_inv buf w' \<and> bw_bits w' = bw_bits w @ bits_of n v
           \<and> bw_numBits w' = bw_numBits w \<and> bw_bitsWritten w' = bw_bitsWritten w + n"
proof (cases "64 \<le> bw_scratchBits w + n")
  case False
  note c = counters_stay [of "bw_bitsWritten w" n]
  have sc: "take_bit (bw_scratchBits w) (bw_scratch w) = bw_scratch w"
    by (rule bw_invD [OF inv])
  define w' where "w' = w\<lparr>bw_scratch := bw_scratch w OR push_bit (bw_scratchBits w) (ucast v),
      bw_scratchBits := bw_scratchBits w + n, bw_bitsWritten := bw_bitsWritten w + n\<rparr>"
  have "BitWriter_writeBits w v n = Inr w'"
    using False n v by (simp add: BitWriter_writeBits_def w'_def and_mask_u32 Let_def)
  moreover have "bw_inv buf w'"
    using inv False fits c take_bit_stay [OF sc take_bit_ucast_eq [OF v]]
    by (auto simp add: bw_inv_def w'_def)
  moreover have "bw_bits w' = bw_bits w @ bits_of n v"
    using packed_stay [OF sc, of n "bw_data w" "bw_wordIndex w" "ucast v"] False n
    by (simp add: bw_bits_def w'_def bits_of_ucast)
  ultimately show ?thesis by (auto simp: w'_def)
next
  case True
  note c = counters_spill [of "bw_bitsWritten w" n]
  have sc: "take_bit (bw_scratchBits w) (bw_scratch w) = bw_scratch w" and sb: "bw_scratchBits w < 64"
    and cnt: "bw_scratchBits w = bw_bitsWritten w mod 64"
    using bw_invD [OF inv] by simp_all
  have room: "8 * bw_wordIndex w + 8 \<le> length (bw_data w)"
    using bw_inv_word_fits [OF inv _ fits] True cnt by simp
  define d where "d = take (8 * bw_wordIndex w) (bw_data w)
      @ LE_bytes64 (bw_scratch w OR push_bit (bw_scratchBits w) (ucast v)) @ drop (8 * bw_wordIndex w + 8) (bw_data w)"
  define w' where "w' = w\<lparr>bw_data := d, bw_wordIndex := bw_wordIndex w + 1,
      bw_scratch := drop_bit (64 - bw_scratchBits w) (ucast v),
      bw_scratchBits := bw_scratchBits w + n - 64, bw_bitsWritten := bw_bitsWritten w + n\<rparr>"
  have "BitWriter_writeBits w v n = Inr w'"
    using True n v put_word_eq [OF room]
    by (simp add: BitWriter_writeBits_def w'_def d_def and_mask_u32 Let_def mult.commute)
  moreover have "drop (8 * bw_wordIndex w + 8) (bw_data w) = drop (8 * bw_wordIndex w + 8) buf"
    using inv unfolding bw_inv_def by (metis add.commute drop_drop)
  then have "bw_inv buf w'"
    using inv True fits c n room take_bit_spill [OF take_bit_ucast_eq [OF v] sb True]
    by (simp add: bw_inv_def w'_def d_def min_absorb2 add.commute)
  moreover have "bw_bits w' = bw_bits w @ bits_of n v"
    using packed_spill [OF sc sb True room, of "ucast v"] n
    by (simp add: bw_bits_def w'_def d_def bits_of_ucast)
  ultimately show ?thesis by (auto simp: w'_def)
qed


section \<open>Every operation keeps the invariant and appends its bits\<close>

interpretation bw: bit_sink "\<lambda>w n v. BitWriter_writeBits w (ucast v) n" "bw_inv buf" bw_bits bw_numBits 32
  for buf
proof unfold_locales
  show "(8::nat) \<le> 32" by simp
next
  fix w n and v :: u64
  assume "bw_inv buf w" and n: "n \<le> 32" and v: "take_bit n v = v"
    and "length (bw_bits w) + n \<le> bw_numBits w"
  then have *: "bw_inv buf w" "bw_bitsWritten w + n \<le> bw_numBits w" by (simp_all add: length_bw_bits)
  show "\<exists>w'. BitWriter_writeBits w (ucast v) n = Inr w' \<and> bw_inv buf w'
          \<and> bw_bits w' = bw_bits w @ bits_of n v \<and> bw_numBits w' = bw_numBits w"
    using writeBits_ok [OF *(1) n take_bit_ucast_eq [OF v] *(2)] n by (auto simp: bits_of_ucast)
qed

lemma NewBitWriter_ok:
  "length buf mod 8 = 0 \<Longrightarrow>
   \<exists>w. NewBitWriter buf = Inr w \<and> bw_inv buf w \<and> bw_bits w = [] \<and> bw_numBits w = 8 * length buf"
  by (simp add: NewBitWriter_def BitWriter_Reset_def bw_inv_def bw_bits_def packed_def)

lemma not_too_wide_iff:
  assumes "n \<le> LENGTH('a)"
  shows "\<not> drop_bit (LENGTH('a) - n) (NOT 0) < (v::'a::len word) \<longleftrightarrow> take_bit n v = v"
proof -
  have "drop_bit (LENGTH('a) - n) (NOT 0 :: 'a word) = mask n"
    by (rule bit_word_eqI) (use assms in \<open>auto simp: bit_drop_bit_eq bit_not_iff bit_mask_iff\<close>)
  moreover have "uint (mask n :: 'a word) = 2 ^ n - 1"
    using assms unfolding uint_mask_eq by (simp add: mask_eq_exp_minus_1 min_absorb2)
  ultimately show ?thesis
    by (auto simp: not_less word_le_def take_bit_eq_self_iff_uint)
qed

lemma WriteBits_ok:
  assumes "bw_inv buf w" and "1 \<le> bits" and "bits \<le> 32" and "take_bit (nat bits) v = v"
    and "bw_bitsWritten w + nat bits \<le> bw_numBits w"
  shows "\<exists>w'. BitWriter_WriteBits w v bits = Inr w' \<and> bw_inv buf w'
          \<and> bw_bits w' = bw_bits w @ bits_of (nat bits) v \<and> bw_numBits w' = bw_numBits w"
proof -
  have "nat (32 - bits) = LENGTH(32) - nat bits" using assms by simp
  then have "BitWriter_WriteBits w v bits = BitWriter_writeBits w v (nat bits)"
    using assms not_too_wide_iff [of "nat bits" v] by (simp add: BitWriter_WriteBits_def)
  moreover have "nat bits \<le> 32" using assms(3) by simp
  ultimately show ?thesis
    using writeBits_ok [OF assms(1) _ assms(4,5)] by auto
qed

lemma WriteAlign_ok:
  assumes "bw_inv buf w"
  shows "\<exists>w'. BitWriter_WriteAlign w = Inr w' \<and> bw_inv buf w'
          \<and> bw_bits w' = bw_bits w @ replicate (align_len (bw_bitsWritten w)) False
          \<and> bw_numBits w' = bw_numBits w"
proof (cases "bw_bitsWritten w mod 8 = 0")
  case True
  then show ?thesis using assms by (simp add: BitWriter_WriteAlign_def align_len_def)
next
  case False
  let ?n = "8 - int (bw_bitsWritten w mod 8)"
  have n: "nat ?n = align_len (bw_bitsWritten w)" "1 \<le> ?n" "?n \<le> 32"
    using False by (auto simp: align_len_cases nat_diff_distrib' nat_int)
  have "bw_bitsWritten w + nat ?n \<le> bw_numBits w"
    unfolding n using bw_invD [OF assms] by (intro align_room) auto
  from WriteBits_ok [OF assms n(2,3) _ this, of 0] show ?thesis
    using False n(1) by (simp add: BitWriter_WriteAlign_def Let_def)
qed


lemma bw_bits_aligned:
  assumes "bw_inv buf w" and "bw_bitsWritten w mod 64 = 0"
  shows "bw_bits w = packed (bw_data w) (bw_wordIndex w) 0 s"
  using bw_invD [OF assms(1)] assms(2) by (simp add: bw_bits_def packed_def)

text \<open>The middle of \<open>writeBytes\<close>: a straight copy at a qword boundary.\<close>

lemma copy_middle_ok:
  assumes inv: "bw_inv buf w" and aligned: "bw_bitsWritten w mod 64 = 0"
    and len: "length src = 8 * k" and fits: "bw_bitsWritten w + 64 * k \<le> bw_numBits w"
  shows "\<exists>d. copy_at (bw_data w) (bw_wordIndex w * 8) src = Inr d \<and>
     (let w' = w\<lparr>bw_data := d, bw_bitsWritten := bw_bitsWritten w + k * 64,
                 bw_wordIndex := bw_wordIndex w + k\<rparr>
      in bw_inv buf w' \<and> bw_bits w' = bw_bits w @ bytes_bits src \<and> bw_numBits w' = bw_numBits w)"
proof -
  note I = bw_invD [OF inv]
  let ?i = "8 * bw_wordIndex w"
  define d where "d = take ?i (bw_data w) @ src @ drop (?i + 8 * k) (bw_data w)"
  have b: "bw_bitsWritten w = 64 * bw_wordIndex w" using aligned I(5) div_mult_mod_eq [of "bw_bitsWritten w" 64] by linarith
  then have room: "?i + 8 * k \<le> length (bw_data w)" using fits I by simp
  have sc: "bw_scratch w = 0" "bw_scratchBits w = 0" using I(6,7) aligned by simp_all
  have "drop (?i + 8 * k) (bw_data w) = drop (?i + 8 * k) buf"
    using I(8) by (metis add.commute drop_drop)
  then have "bw_inv buf (w\<lparr>bw_data := d, bw_bitsWritten := bw_bitsWritten w + k * 64,
                 bw_wordIndex := bw_wordIndex w + k\<rparr>)"
    using I(1-6) fits len room sc
    by (simp add: bw_inv_def d_def min_absorb2 distrib_left add.commute)
  moreover have "packed d (bw_wordIndex w + k) 0 0 = bw_bits w @ bytes_bits src"
    using packed_copy [OF len room, of 0] sc unfolding d_def bw_bits_def by simp
  moreover have "copy_at (bw_data w) (bw_wordIndex w * 8) src = Inr d"
    using copy_at_eq [of ?i src "bw_data w"] len room unfolding d_def by (simp add: mult.commute)
  ultimately show ?thesis
    using sc by (simp add: bw_bits_def)
qed


text \<open>The byte loops of \<open>writeBytes\<close> are clients of the sink interface.\<close>

lemma byte_loop_ok:
  assumes "bw_inv buf w" and "bw_bitsWritten w + 8 * length bs \<le> bw_numBits w"
  shows "\<exists>w'. foldM (\<lambda>w b. BitWriter_writeBits w (ucast b) 8) w bs = Inr w' \<and> bw_inv buf w'
          \<and> bw_bits w' = bw_bits w @ bytes_bits bs \<and> bw_numBits w' = bw_numBits w
          \<and> bw_bitsWritten w' = bw_bitsWritten w + 8 * length bs"
proof -
  have u: "ucast (ucast (b::u8) :: u64) = (ucast b :: u32)" for b
    by (rule bit_word_eqI) (auto simp: bit_ucast_iff)
  obtain w' where w': "foldM (\<lambda>w b. BitWriter_writeBits w (ucast (ucast b :: u64)) 8) w bs = Inr w'"
    "bw_inv buf w'" "bw_bits w' = bw_bits w @ bytes_bits bs" "bw_numBits w' = bw_numBits w"
    using bw.put_bytes [OF assms(1), of bs] assms by (auto simp: length_bw_bits)
  then have "bw_bitsWritten w' = bw_bitsWritten w + 8 * length bs"
    using length_bw_bits [OF w'(2)] length_bw_bits [OF assms(1)] by simp
  with w' show ?thesis unfolding u by blast
qed

text \<open>The head of \<open>writeBytes\<close> stops at the end of the data or at a qword boundary.\<close>

lemma head_boundary:
  assumes "(b::nat) mod 8 = 0" and "(8 - b mod 64 div 8) mod 8 = h"
  shows "(b + 8 * h) mod 64 = 0"
proof -
  obtain q where b: "b = 8 * q" using assms(1) by auto
  have "b mod 64 = 8 * (q mod 8)" unfolding b by (simp add: mult_mod_right)
  then have h: "h = (8 - q mod 8) mod 8" using assms(2) by simp
  have "(q + h) mod 8 = 0" unfolding h align_len_def [symmetric] by (rule align_len_aligned)
  moreover have "(8 * q + 8 * h) mod 64 = 8 * ((q + h) mod 8)"
    by (simp add: mult_mod_right distrib_left)
  ultimately show ?thesis unfolding b by simp
qed

lemma WriteBytes_ok:
  assumes inv: "bw_inv buf w" and aligned: "bw_bitsWritten w mod 8 = 0"
    and fits: "bw_bitsWritten w + 8 * length bs \<le> bw_numBits w"
  shows "\<exists>w'. BitWriter_WriteBytes w bs = Inr w' \<and> bw_inv buf w'
          \<and> bw_bits w' = bw_bits w @ bytes_bits bs \<and> bw_numBits w' = bw_numBits w"
proof -
  let ?loop = "foldM (\<lambda>w b. BitWriter_writeBits w (ucast (b::u8)) 8)"
  define n where "n = length bs"
  define h where "h = min ((8 - bw_bitsWritten w mod 64 div 8) mod 8) n"
  define k where "k = (n - h) div 8"
  have h: "h \<le> n" unfolding h_def by simp
  then have hf: "bw_bitsWritten w + 8 * length (take h bs) \<le> bw_numBits w"
    using fits by (simp add: n_def min_def)
  obtain w1 where w1: "?loop w (take h bs) = Inr w1" "bw_inv buf w1"
    "bw_bits w1 = bw_bits w @ bytes_bits (take h bs)" "bw_numBits w1 = bw_numBits w"
    "bw_bitsWritten w1 = bw_bitsWritten w + 8 * h"
    using byte_loop_ok [OF inv hf] h by (auto simp: n_def)
  have op: "BitWriter_WriteBytes w bs = (if h = n then Inr w1 else
      andThen (if 0 < k then
          andThen (copy_at (bw_data w1) (bw_wordIndex w1 * 8) (take (k * 8) (drop h bs))) (\<lambda>d.
            Inr (w1\<lparr>bw_data := d, bw_bitsWritten := bw_bitsWritten w1 + k * 64,
                    bw_wordIndex := bw_wordIndex w1 + k\<rparr>))
        else Inr w1) (\<lambda>w. ?loop w (drop (h + k * 8) bs)))"
    using aligned fits w1(1)
    by (simp add: BitWriter_WriteBytes_def BitWriter_writeBytes_def Let_def
        n_def [symmetric] h_def [symmetric] k_def [symmetric] mult.commute)
  show ?thesis
  proof (cases "h = n")
    case True
    then show ?thesis using op w1 by (simp add: n_def)
  next
    case False
    then have "h = (8 - bw_bitsWritten w mod 64 div 8) mod 8" unfolding h_def by simp
    then have al: "bw_bitsWritten w1 mod 64 = 0"
      using head_boundary [OF aligned] w1(5) by simp
    have k: "8 * k \<le> n - h" unfolding k_def by simp
    define mid where "mid = take (k * 8) (drop h bs)"
    have mid: "length mid = 8 * k" using k unfolding mid_def n_def by simp
    have "bw_bitsWritten w1 + 64 * k \<le> bw_numBits w1"
      using w1(4,5) fits k h unfolding n_def by linarith
    from copy_middle_ok [OF w1(2) al mid this]
    obtain d where d: "copy_at (bw_data w1) (bw_wordIndex w1 * 8) mid = Inr d" and
      *: "bw_inv buf (w1\<lparr>bw_data := d, bw_bitsWritten := bw_bitsWritten w1 + k * 64,
            bw_wordIndex := bw_wordIndex w1 + k\<rparr>)"
        "bw_bits (w1\<lparr>bw_data := d, bw_bitsWritten := bw_bitsWritten w1 + k * 64,
            bw_wordIndex := bw_wordIndex w1 + k\<rparr>) = bw_bits w1 @ bytes_bits mid"
      unfolding Let_def by blast
    obtain w2 where w2: "(if 0 < k then
          andThen (copy_at (bw_data w1) (bw_wordIndex w1 * 8) (take (k * 8) (drop h bs))) (\<lambda>d.
            Inr (w1\<lparr>bw_data := d, bw_bitsWritten := bw_bitsWritten w1 + k * 64,
                    bw_wordIndex := bw_wordIndex w1 + k\<rparr>))
        else Inr w1) = Inr w2" "bw_inv buf w2" "bw_bits w2 = bw_bits w1 @ bytes_bits mid"
        "bw_numBits w2 = bw_numBits w1" "bw_bitsWritten w2 = bw_bitsWritten w1 + 64 * k"
      using d * w1(2) by (cases "0 < k") (auto simp: mid_def)
    have "bw_bitsWritten w2 + 8 * length (drop (h + k * 8) bs) \<le> bw_numBits w2"
      using w2(4,5) w1(4,5) fits k h unfolding n_def by (simp add: n_def)
    from byte_loop_ok [OF w2(2) this] obtain w3 where w3:
      "?loop w2 (drop (h + k * 8) bs) = Inr w3" "bw_inv buf w3"
      "bw_bits w3 = bw_bits w2 @ bytes_bits (drop (h + k * 8) bs)" "bw_numBits w3 = bw_numBits w2"
      by blast
    have "bs = take h bs @ mid @ drop (h + k * 8) bs"
      unfolding mid_def by (metis add.commute append_take_drop_id drop_drop)
    then have "bytes_bits bs = bytes_bits (take h bs) @ bytes_bits mid @ bytes_bits (drop (h + k * 8) bs)"
      by (metis bytes_bits_simps(3))
    then show ?thesis
      using op False w2 w3 w1 by simp
  qed
qed


section \<open>The flush and the bytes handed on\<close>

lemma FlushBits_ok:
  assumes inv: "bw_inv buf w"
  defines "m \<equiv> (bw_bitsWritten w + 63) div 64"
  shows "\<exists>w'. BitWriter_FlushBits w = Inr w' \<and> length (bw_data w') = length buf
          \<and> bw_bitsWritten w' = bw_bitsWritten w \<and> 8 * m \<le> length buf
          \<and> bytes_bits (take (8 * m) (bw_data w')) = bw_bits w @ replicate (64 * m - bw_bitsWritten w) False
          \<and> drop (8 * m) (bw_data w') = drop (8 * m) buf"
proof (cases "bw_scratchBits w = 0")
  case True
  note I = bw_invD [OF inv]
  have b: "bw_bitsWritten w = 64 * bw_wordIndex w" and m: "m = bw_wordIndex w"
    using True I(5,6) div_mult_mod_eq [of "bw_bitsWritten w" 64] by (simp_all add: m_def flush_words)
  have "8 * m \<le> length buf" using I(3,4) b m by simp
  moreover have "bw_bits w = bytes_bits (take (8 * m) (bw_data w))"
    using True m by (simp add: bw_bits_def packed_def take_words_bytes)
  ultimately show ?thesis
    using True I(2,8) b m by (simp add: BitWriter_FlushBits_def)
next
  case False
  note I = bw_invD [OF inv]
  have m: "m = Suc (bw_wordIndex w)" and room: "8 * bw_wordIndex w + 8 \<le> length (bw_data w)"
    and pad: "64 * m - bw_bitsWritten w = 64 - bw_scratchBits w"
    using False I(1-6) flush_room [of "bw_bitsWritten w" "length buf"] flush_pad [of "bw_bitsWritten w"]
    by (simp_all add: m_def flush_words)
  define d where "d = take (8 * bw_wordIndex w) (bw_data w) @ LE_bytes64 (bw_scratch w)
      @ drop (8 * bw_wordIndex w + 8) (bw_data w)"
  have "BitWriter_FlushBits w = Inr (w\<lparr>bw_data := d, bw_scratch := 0, bw_scratchBits := 0,
                bw_wordIndex := bw_wordIndex w + 1\<rparr>)"
    using False put_word_eq [OF room] by (simp add: BitWriter_FlushBits_def d_def mult.commute)
  moreover have "take (8 * m) d = take (8 * bw_wordIndex w) (bw_data w) @ LE_bytes64 (bw_scratch w)"
    using room m by (simp add: d_def min_absorb2)
  moreover have "drop (8 * bw_wordIndex w + 8) (bw_data w) = drop (8 * bw_wordIndex w + 8) buf"
    using I(8) by (metis add.commute drop_drop)
  then have "drop (8 * m) d = drop (8 * m) buf"
    using room m by (simp add: d_def min_absorb2 add.commute)
  ultimately show ?thesis
    using packed_flush [OF I(7) _ room] I(2,6) room m pad by (simp add: bw_bits_def d_def)
qed

lemma Data_ok:
  assumes inv: "bw_inv buf w" and flush: "BitWriter_FlushBits w = Inr w'"
  shows "\<exists>bs. BitWriter_Data w' = Inr bs \<and> length bs = BitWriter_BytesWritten w
          \<and> bytes_bits bs = bw_bits w @ replicate (align_len (bw_bitsWritten w)) False"
proof -
  define m where "m = (bw_bitsWritten w + 63) div 64"
  have F: "length (bw_data w') = length buf" "bw_bitsWritten w' = bw_bitsWritten w" "8 * m \<le> length buf"
    "bytes_bits (take (8 * m) (bw_data w')) = bw_bits w @ replicate (64 * m - bw_bitsWritten w) False"
    using FlushBits_ok [OF inv] flush unfolding m_def by auto
  have "bw_bitsWritten w \<le> 64 * m"
    using div_mult_mod_eq [of "bw_bitsWritten w + 63" 64] mod_less_divisor [of 64 "bw_bitsWritten w + 63"]
    unfolding m_def by linarith
  moreover have n: "BitWriter_BytesWritten w \<le> length (bw_data w')"
    using bw_invD(3,4) [OF inv] unfolding F(1) BitWriter_BytesWritten_def by simp
  ultimately show ?thesis
    using bytes_bits_prefix [of m "bw_data w'" "bw_bits w"] F
    by (simp add: BitWriter_Data_def slice_range_def BitWriter_BytesWritten_def length_bw_bits [OF inv])
qed

section \<open>The memory is determined by the bits\<close>

lemma bw_state_eq:
  assumes 1: "bw_inv buf w" and 2: "bw_inv buf w'" and bits: "bw_bits w = bw_bits w'"
  shows "w = w'"
proof -
  note I = bw_invD [OF 1] and J = bw_invD [OF 2]
  have b: "bw_bitsWritten w = bw_bitsWritten w'"
    using bits length_bw_bits [OF 1] length_bw_bits [OF 2] by simp
  then have wi: "bw_wordIndex w = bw_wordIndex w'" "bw_scratchBits w = bw_scratchBits w'"
    using I(5,6) J(5,6) by simp_all
  have fit: "8 * bw_wordIndex w \<le> length buf" using I(3-5) by simp
  have "bytes_bits (take (8 * bw_wordIndex w) (bw_data w)) = bytes_bits (take (8 * bw_wordIndex w) (bw_data w'))"
    and sc: "bits_of (bw_scratchBits w) (bw_scratch w) = bits_of (bw_scratchBits w) (bw_scratch w')"
    using bits wi fit I(2) J(2) by (simp_all add: bw_bits_def packed_def take_words_bytes)
  then have "take (8 * bw_wordIndex w) (bw_data w) = take (8 * bw_wordIndex w) (bw_data w')"
    by (simp add: bytes_bits_inj)
  then have "bw_data w = bw_data w'" using I(8) J(8) wi by (metis append_take_drop_id)
  moreover have "bw_scratch w = bw_scratch w'"
    using bits_of_inj [OF I(7) _ sc] J(7) wi by simp
  ultimately show ?thesis using b wi I(3) J(3) by simp
qed

end
