(* ===== verification/Bit_Reader.thy ===== *)
theory Bit_Reader
  imports Packing
begin

text \<open>
  \<open>BitReader\<close> (bitpacker.go): the record, every operation, the invariant \<open>br_inv\<close>, and the
  refinement of the window loads to the bit string of the data (\<open>br_rest\<close>, the bits not yet
  read). A Go slice is given as its bytes and the bytes of its backing array past its length
  (the slack that \<open>cap\<close> shows), so that the loads which reach past the data are modelled.
\<close>

definition windowBytes :: nat where [simp]: "windowBytes = 8"
definition window64Bytes :: nat where [simp]: "window64Bytes = 12"

record bit_reader =
  br_data :: "u8 list"
  br_padded :: "u8 list"
  br_numBits :: nat
  br_bitsRead :: nat
  br_tailBase :: nat
  br_tail :: "u8 list"

text \<open>The zero value: an exhausted reader with a zeroed tail array.\<close>

definition zero_BitReader :: bit_reader where
  "zero_BitReader = \<lparr>br_data = [], br_padded = [], br_numBits = 0, br_bitsRead = 0,
     br_tailBase = 0, br_tail = replicate (window64Bytes + windowBytes + 4) 0\<rparr>"

definition BitReader_fillTail :: "bit_reader \<Rightarrow> bit_reader" where
  "BitReader_fillTail r =
    (let base = nat (max (int (length (br_data r)) - int window64Bytes) 0);
         src = drop base (br_data r);
         n = min (length (br_tail r)) (length src)
     in r\<lparr>br_tailBase := base,
          br_tail := take n src @ replicate (length (br_tail r) - n) 0\<rparr>)"

definition BitReader_Reset :: "bit_reader \<Rightarrow> u8 list \<Rightarrow> u8 list \<Rightarrow> bit_reader" where
  "BitReader_Reset r data slack =
    (let r = r\<lparr>br_data := data, br_padded := data @ slack,
               br_numBits := length data * 8, br_bitsRead := 0\<rparr>
     in if length (data @ slack) - length data < window64Bytes then BitReader_fillTail r else r)"

definition NewBitReader :: "u8 list \<Rightarrow> u8 list \<Rightarrow> bit_reader" where
  "NewBitReader data slack = BitReader_Reset zero_BitReader data slack"

definition BitReader_readBits :: "bit_reader \<Rightarrow> nat \<Rightarrow> (u32 \<times> bit_reader) res" where
  "BitReader_readBits r bits =
    (let byteIndex = int (drop_bit 3 (br_bitsRead r));
         (src, byteIndex) =
           (if int (length (br_padded r)) < byteIndex + int windowBytes
            then (br_tail r, byteIndex - int (br_tailBase r)) else (br_padded r, byteIndex))
     in andThen (slice_from src byteIndex) (\<lambda>sl.
        andThen (LE_Uint64 sl) (\<lambda>window.
          Inr (ucast (drop_bit (br_bitsRead r AND 7) window) AND ucast (push_bit bits (1::u64) - 1),
               r\<lparr>br_bitsRead := br_bitsRead r + bits\<rparr>))))"

definition BitReader_tryReadBits :: "bit_reader \<Rightarrow> nat \<Rightarrow> (u32 \<times> bool \<times> bit_reader) res" where
  "BitReader_tryReadBits r bits =
    (if br_numBits r < br_bitsRead r + bits then Inr (0, False, r)
     else andThen (BitReader_readBits r bits) (\<lambda>(v, r). Inr (v, True, r)))"

definition BitReader_readBits64 :: "bit_reader \<Rightarrow> nat \<Rightarrow> (u64 \<times> bit_reader) res" where
  "BitReader_readBits64 r bits =
    (let byteIndex = int (drop_bit 3 (br_bitsRead r));
         (src, byteIndex) =
           (if int (length (br_padded r)) < byteIndex + int window64Bytes
            then (br_tail r, byteIndex - int (br_tailBase r)) else (br_padded r, byteIndex));
         shift = br_bitsRead r AND 7
     in andThen (slice_from src byteIndex) (\<lambda>sl.
        andThen (LE_Uint64 sl) (\<lambda>lo.
        andThen (slice_from src (byteIndex + int windowBytes)) (\<lambda>sl.
        andThen (LE_Uint32 sl) (\<lambda>hi.
          let window = drop_bit shift lo OR push_bit (64 - shift) (ucast hi)
          in Inr (window AND drop_bit (64 - bits) (NOT 0),
                  r\<lparr>br_bitsRead := br_bitsRead r + bits\<rparr>))))))"

text \<open>
  The argument is the caller's, so the addition is Go's: it wraps around at 64 bits.
\<close>

definition BitReader_WouldReadPastEnd :: "bit_reader \<Rightarrow> int \<Rightarrow> bool" where
  "BitReader_WouldReadPastEnd r bits \<longleftrightarrow>
     int (br_numBits r) < wrap64 (int (br_bitsRead r) + bits)"

definition BitReader_ReadBits :: "bit_reader \<Rightarrow> int \<Rightarrow> (u32 \<times> bit_reader) res" where
  "BitReader_ReadBits r bits =
    (if bits < 1 \<or> 32 < bits then Inl PanicBitsRange
     else if br_numBits r < br_bitsRead r + nat bits then Inl PanicReadOverflow
     else BitReader_readBits r (nat bits))"

definition BitReader_ReadAlign :: "bit_reader \<Rightarrow> (bool \<times> bit_reader) res" where
  "BitReader_ReadAlign r =
    (let remainderBits = br_bitsRead r mod 8
     in if remainderBits \<noteq> 0 then
          andThen (BitReader_ReadBits r (8 - int remainderBits)) (\<lambda>(val, r).
            if val \<noteq> 0 then Inr (False, r) else Inr (True, r))
        else Inr (True, r))"

definition BitReader_readSlice :: "bit_reader \<Rightarrow> nat \<Rightarrow> (u8 list \<times> bit_reader) res" where
  "BitReader_readSlice r n =
    (let offset = int (drop_bit 3 (br_bitsRead r))
     in andThen (slice_range (br_data r) offset (offset + int n)) (\<lambda>sl.
          Inr (sl, r\<lparr>br_bitsRead := br_bitsRead r + n * 8\<rparr>)))"

text \<open>\<open>ReadBytes\<close> fills a destination of \<open>n\<close> bytes; the result is what the destination then holds.\<close>

definition BitReader_ReadBytes :: "bit_reader \<Rightarrow> nat \<Rightarrow> (u8 list \<times> bit_reader) res" where
  "BitReader_ReadBytes r n =
    (if br_bitsRead r mod 8 \<noteq> 0 then Inl PanicNotAligned
     else if br_numBits r < br_bitsRead r + n * 8 then Inl PanicReadOverflow
     else BitReader_readSlice r n)"

definition BitReader_AlignBits :: "bit_reader \<Rightarrow> nat" where
  "BitReader_AlignBits r = (8 - br_bitsRead r mod 8) mod 8"

definition BitReader_BitsRead :: "bit_reader \<Rightarrow> nat" where
  "BitReader_BitsRead r = br_bitsRead r"

definition BitReader_BitsRemaining :: "bit_reader \<Rightarrow> int" where
  "BitReader_BitsRemaining r = int (br_numBits r) - int (br_bitsRead r)"

section \<open>Invariant and abstraction\<close>

definition br_inv :: "bit_reader \<Rightarrow> bool" where
  "br_inv r \<longleftrightarrow>
     length (br_tail r) = 24 \<and>
     length (br_data r) \<le> length (br_padded r) \<and>
     take (length (br_data r)) (br_padded r) = br_data r \<and>
     br_numBits r = 8 * length (br_data r) \<and>
     br_bitsRead r \<le> br_numBits r \<and>
     (length (br_padded r) < length (br_data r) + 12 \<longrightarrow>
        br_tailBase r = length (br_data r) - 12 \<and>
        take (length (br_data r) - br_tailBase r) (br_tail r) = drop (br_tailBase r) (br_data r))"

definition br_rest :: "bit_reader \<Rightarrow> bool list" where
  "br_rest r = drop (br_bitsRead r) (bytes_bits (br_data r))"

lemma br_invD:
  assumes "br_inv r"
  shows "length (br_tail r) = 24" and "length (br_data r) \<le> length (br_padded r)"
    and "take (length (br_data r)) (br_padded r) = br_data r"
    and "br_numBits r = 8 * length (br_data r)" and "br_bitsRead r \<le> br_numBits r"
    and "length (br_padded r) < length (br_data r) + 12 \<Longrightarrow> br_tailBase r = length (br_data r) - 12"
    and "length (br_padded r) < length (br_data r) + 12 \<Longrightarrow>
        take (length (br_data r) - br_tailBase r) (br_tail r) = drop (br_tailBase r) (br_data r)"
  using assms unfolding br_inv_def by blast+

lemma length_br_rest: "br_inv r \<Longrightarrow> length (br_rest r) = br_numBits r - br_bitsRead r"
  by (simp add: br_rest_def br_inv_def)

lemma nat_max_diff: "nat (max (int L - 12) 0) = L - 12"
  by linarith

lemma br_inv_Reset:
  assumes "length (br_tail r) = 24"
  shows "br_inv (BitReader_Reset r data slack)"
proof (cases "length slack < 12")
  case True
  have "min 24 (length data - (length data - 12)) = length data - (length data - 12)"
    by (rule min_absorb2) arith
  then show ?thesis
    using True assms
    by (simp add: br_inv_def BitReader_Reset_def BitReader_fillTail_def Let_def nat_max_diff)
next
  case False
  then show ?thesis using assms by (simp add: br_inv_def BitReader_Reset_def)
qed

lemma br_inv_New: "br_inv (NewBitReader data slack)"
  by (simp add: NewBitReader_def br_inv_Reset zero_BitReader_def)

lemma NewBitReader_simps [simp]:
  "br_data (NewBitReader data slack) = data" "br_bitsRead (NewBitReader data slack) = 0"
  "br_numBits (NewBitReader data slack) = 8 * length data"
  by (simp_all add: NewBitReader_def BitReader_Reset_def BitReader_fillTail_def Let_def)

text \<open>
  The window source: in range, long enough, and equal to the data as far as the data reaches.
\<close>

lemma window_ok:
  assumes inv: "br_inv r" and reach: "reach \<le> 12"
  defines "i \<equiv> br_bitsRead r div 8"
  shows "\<exists>src j. (if int (length (br_padded r)) < int i + int reach
             then (br_tail r, int i - int (br_tailBase r)) else (br_padded r, int i)) = (src, int j)
          \<and> j + reach \<le> length src
          \<and> (\<forall>k. 8 * i + k < 8 * length (br_data r) \<and> k < 8 * reach \<longrightarrow>
                 bytes_bits src ! (8 * j + k) = bytes_bits (br_data r) ! (8 * i + k))"
proof (cases "length (br_padded r) < i + reach")
  case True
  note I = br_invD [OF inv]
  have i: "i \<le> length (br_data r)" using I(4,5) unfolding i_def by simp
  then have short: "length (br_padded r) < length (br_data r) + 12" using True reach by simp
  note T = I(6,7) [OF short]
  define L where "L = length (br_data r)"
  have base: "br_tailBase r \<le> i" "i - br_tailBase r \<le> 12"
    using T(1) True reach I(2) i by linarith+
  have "bytes_bits (br_tail r) ! (8 * (i - br_tailBase r) + k) = bytes_bits (br_data r) ! (8 * i + k)"
    if k: "8 * i + k < 8 * L" for k
  proof -
    let ?m = "8 * (i - br_tailBase r) + k"
    have m: "?m < 8 * (L - br_tailBase r)" "8 * br_tailBase r + ?m = 8 * i + k"
      using base(1) k by (simp_all add: diff_mult_distrib2)
    have "bytes_bits (br_tail r) ! ?m = take (8 * (L - br_tailBase r)) (bytes_bits (br_tail r)) ! ?m"
      using m(1) by simp
    also have "\<dots> = drop (8 * br_tailBase r) (bytes_bits (br_data r)) ! ?m"
      using T(2) unfolding take_bytes_bits drop_bytes_bits L_def by simp
    also have "\<dots> = bytes_bits (br_data r) ! (8 * br_tailBase r + ?m)"
      by (rule nth_drop) (use base(1) i in simp)
    also note m(2)
    finally show ?thesis .
  qed
  then show ?thesis
    using True base I(1) reach by (intro exI [of _ "br_tail r"] exI [of _ "i - br_tailBase r"])
      (auto simp: L_def of_nat_diff)
next
  case False
  note I = br_invD [OF inv]
  have "bytes_bits (br_padded r) ! (8 * i + k) = bytes_bits (br_data r) ! (8 * i + k)"
    if k: "8 * i + k < 8 * length (br_data r)" for k
  proof -
    have "bytes_bits (br_padded r) ! (8 * i + k)
        = take (8 * length (br_data r)) (bytes_bits (br_padded r)) ! (8 * i + k)"
      using k by simp
    then show ?thesis unfolding take_bytes_bits I(3) .
  qed
  then show ?thesis using False by (intro exI [of _ "br_padded r"] exI [of _ i]) auto
qed


section \<open>The hot paths read exactly the next bits\<close>

lemma drop_bit_3_nat: "drop_bit 3 (n::nat) = n div 8"
  by (simp add: drop_bit_eq_div)

lemma and_7_nat: "(n::nat) AND 7 = n mod 8"
proof -
  have "n AND 7 = n AND mask 3" by (simp add: mask_eq_exp_minus_1)
  then show ?thesis by (simp add: take_bit_eq_mask [symmetric] take_bit_eq_mod)
qed

lemma nth_br_rest: "br_inv r \<Longrightarrow> br_bitsRead r + j < br_numBits r \<Longrightarrow>
    br_rest r ! j = bytes_bits (br_data r) ! (br_bitsRead r + j)"
  by (simp add: br_rest_def br_inv_def)

lemma bit_loaded_word:
  assumes "8 \<le> length b" and "k < 64"
  shows "bit (of_bits (bytes_bits (take 8 b)) :: u64) k \<longleftrightarrow> bytes_bits b ! k"
proof -
  have "bytes_bits (take 8 b) ! k = take (8 * 8) (bytes_bits b) ! k"
    by (simp only: take_bytes_bits)
  then show ?thesis using assms by (simp add: bit_of_bits)
qed

lemma bit_loaded_dword:
  assumes "4 \<le> length b" and "k < 32"
  shows "bit (of_bits (bytes_bits (take 4 b)) :: u32) k \<longleftrightarrow> bytes_bits b ! k"
proof -
  have "bytes_bits (take 4 b) ! k = take (8 * 4) (bytes_bits b) ! k"
    by (simp only: take_bytes_bits)
  then show ?thesis using assms by (simp add: bit_of_bits)
qed

lemma readBits_eq:
  assumes inv: "br_inv r" and n: "n \<le> 32" and fits: "br_bitsRead r + n \<le> br_numBits r"
  shows "BitReader_readBits r n = Inr (of_bits (take n (br_rest r)), r\<lparr>br_bitsRead := br_bitsRead r + n\<rparr>)"
proof -
  define i s where "i = br_bitsRead r div 8" and "s = br_bitsRead r mod 8"
  obtain src j where src: "(if int (length (br_padded r)) < int i + int 8
             then (br_tail r, int i - int (br_tailBase r)) else (br_padded r, int i)) = (src, int j)"
    and len: "j + 8 \<le> length src"
    and eq: "\<And>k. 8 * i + k < 8 * length (br_data r) \<Longrightarrow> k < 8 * 8 \<Longrightarrow>
                 bytes_bits src ! (8 * j + k) = bytes_bits (br_data r) ! (8 * i + k)"
    using window_ok [OF inv, of 8] unfolding i_def by auto
  define window :: u64 where "window = of_bits (bytes_bits (take 8 (drop j src)))"
  have load: "LE_Uint64 (drop j src) = Inr window"
    unfolding window_def using len by (intro LE_Uint64_eq) simp
  have op: "BitReader_readBits r n = Inr (ucast (drop_bit s window) AND ucast ((2::u64) ^ n - 1),
      r\<lparr>br_bitsRead := br_bitsRead r + n\<rparr>)"
    using src len load unfolding BitReader_readBits_def
    by (simp add: drop_bit_3_nat and_7_nat i_def [symmetric] s_def [symmetric] slice_from_def)
  have pos: "br_bitsRead r = 8 * i + s" "s < 8" unfolding i_def s_def by simp_all
  have "ucast (drop_bit s window) AND ucast ((2::u64) ^ n - 1) = (of_bits (take n (br_rest r)) :: u32)"
  proof (rule bit_word_eqI)
    fix k assume "k < LENGTH(32)"
    have "bit window (s + k) \<longleftrightarrow> br_rest r ! k" if "k < n"
    proof -
      have "bit window (s + k) \<longleftrightarrow> bytes_bits (drop j src) ! (s + k)"
        unfolding window_def using len pos(2) that n by (intro bit_loaded_word) auto
      also have "\<dots> \<longleftrightarrow> bytes_bits src ! (8 * j + (s + k))"
        unfolding drop_bytes_bits [symmetric] using len by simp
      also have "\<dots> \<longleftrightarrow> br_rest r ! k"
        using eq [of "s + k"] nth_br_rest [OF inv, of k] pos n that fits br_invD(4) [OF inv]
        by (simp add: add.assoc)
      finally show ?thesis .
    qed
    moreover have "length (br_rest r) \<ge> n" using fits length_br_rest [OF inv] by simp
    ultimately show "bit (ucast (drop_bit s window) AND ucast ((2::u64) ^ n - 1) :: u32) k
        = bit (of_bits (take n (br_rest r)) :: u32) k"
      using \<open>k < LENGTH(32)\<close> n
      by (simp add: bit_and_iff bit_ucast_iff bit_drop_bit_eq bit_of_bits mask_eq_exp_minus_1 [symmetric] bit_mask_iff)
         (auto)
  qed
  with op show ?thesis by simp
qed

lemma readBits64_eq:
  assumes inv: "br_inv r" and n: "n \<le> 64" and fits: "br_bitsRead r + n \<le> br_numBits r"
  shows "BitReader_readBits64 r n = Inr (of_bits (take n (br_rest r)), r\<lparr>br_bitsRead := br_bitsRead r + n\<rparr>)"
proof -
  define i s where "i = br_bitsRead r div 8" and "s = br_bitsRead r mod 8"
  obtain src j where src: "(if int (length (br_padded r)) < int i + int 12
             then (br_tail r, int i - int (br_tailBase r)) else (br_padded r, int i)) = (src, int j)"
    and len: "j + 12 \<le> length src"
    and eq: "\<And>k. 8 * i + k < 8 * length (br_data r) \<Longrightarrow> k < 8 * 12 \<Longrightarrow>
                 bytes_bits src ! (8 * j + k) = bytes_bits (br_data r) ! (8 * i + k)"
    using window_ok [OF inv, of 12] unfolding i_def by auto
  define lo :: u64 where "lo = of_bits (bytes_bits (take 8 (drop j src)))"
  define hi :: u32 where "hi = of_bits (bytes_bits (take 4 (drop (j + 8) src)))"
  have load: "LE_Uint64 (drop j src) = Inr lo" "LE_Uint32 (drop (j + 8) src) = Inr hi"
    unfolding lo_def hi_def using len by (auto intro!: LE_Uint64_eq LE_Uint32_eq)
  define m where "m = 64 - s"
  define window :: u64 where "window = drop_bit s lo OR push_bit m (ucast hi)"
  have j8: "nat (int j + 8) = j + 8" by simp
  have op: "BitReader_readBits64 r n = Inr (window AND drop_bit (64 - n) (NOT 0),
      r\<lparr>br_bitsRead := br_bitsRead r + n\<rparr>)"
    using src len load unfolding BitReader_readBits64_def window_def m_def
    by (simp add: drop_bit_3_nat and_7_nat i_def [symmetric] s_def [symmetric] slice_from_def j8 Let_def)
  have pos: "br_bitsRead r = 8 * i + s" "s < 8" unfolding i_def s_def by simp_all
  have "window AND drop_bit (64 - n) (NOT 0) = (of_bits (take n (br_rest r)) :: u64)"
  proof (rule bit_word_eqI)
    fix k assume "k < LENGTH(64)"
    have "bit window k \<longleftrightarrow> br_rest r ! k" if "k < n"
    proof -
      have "bit window k \<longleftrightarrow> bytes_bits src ! (8 * j + (s + k))"
      proof (cases "s + k < 64")
        case True
        moreover have "\<not> m \<le> k" using True pos(2) unfolding m_def by simp
        ultimately show ?thesis
          using bit_loaded_word [of "drop j src" "s + k"] len unfolding window_def lo_def
          by (simp add: bit_or_iff bit_drop_bit_eq bit_push_bit_iff drop_bytes_bits [symmetric])
      next
        case False
        then have k: "m \<le> k" "k - m < 32" "8 * (j + 8) + (k - m) = 8 * j + (s + k)"
          using pos(2) \<open>k < LENGTH(64)\<close> unfolding m_def by auto
        have "\<not> bit lo (s + k)" using False bit_imp_le_length [of lo "s + k"] by auto
        then have "bit window k \<longleftrightarrow> bit hi (k - m)"
          using k(1,2) \<open>k < LENGTH(64)\<close> unfolding window_def
          by (simp add: bit_or_iff bit_drop_bit_eq bit_push_bit_iff bit_ucast_iff)
        also have "\<dots> \<longleftrightarrow> bytes_bits (drop (j + 8) src) ! (k - m)"
          unfolding hi_def using len k(2) by (intro bit_loaded_dword) auto
        also have "\<dots> \<longleftrightarrow> bytes_bits src ! (8 * (j + 8) + (k - m))"
          unfolding drop_bytes_bits [symmetric] using len by (subst nth_drop) auto
        finally show ?thesis unfolding k(3) .
      qed
      also have "\<dots> \<longleftrightarrow> br_rest r ! k"
        using eq [of "s + k"] nth_br_rest [OF inv, of k] pos n that fits br_invD(4) [OF inv]
        by (simp add: add.assoc)
      finally show ?thesis .
    qed
    moreover have "length (br_rest r) \<ge> n" using fits length_br_rest [OF inv] by simp
    moreover have "bit (drop_bit (64 - n) (NOT 0 :: u64)) k \<longleftrightarrow> k < n"
      using n \<open>k < LENGTH(64)\<close> by (auto simp: bit_drop_bit_eq bit_not_iff bit_mask_iff)
    ultimately show "bit (window AND drop_bit (64 - n) (NOT 0)) k = bit (of_bits (take n (br_rest r)) :: u64) k"
      using \<open>k < LENGTH(64)\<close> by (auto simp add: bit_and_iff bit_of_bits)
  qed
  with op show ?thesis by simp
qed


lemma br_inv_advance:
  "br_inv r \<Longrightarrow> br_bitsRead r + n \<le> br_numBits r \<Longrightarrow> br_inv (r\<lparr>br_bitsRead := br_bitsRead r + n\<rparr>)"
  by (auto simp add: br_inv_def)

lemma br_rest_advance: "br_rest (r\<lparr>br_bitsRead := br_bitsRead r + n\<rparr>) = drop n (br_rest r)"
  by (simp add: br_rest_def add.commute)

interpretation br32: bit_source BitReader_readBits br_inv br_rest 32
proof unfold_locales
  fix r n
  assume "br_inv r" and "n \<le> 32" and "n \<le> length (br_rest r)"
  then show "\<exists>r'. BitReader_readBits r n = Inr (of_bits (take n (br_rest r)), r') \<and> br_inv r' \<and> br_rest r' = drop n (br_rest r)"
    using readBits_eq [of r n] br_inv_advance [of r n] br_invD(5) [of r]
    by (simp add: br_rest_advance length_br_rest)
qed simp

interpretation br64: bit_source BitReader_readBits64 br_inv br_rest 64
proof unfold_locales
  fix r n
  assume "br_inv r" and "n \<le> 64" and "n \<le> length (br_rest r)"
  then show "\<exists>r'. BitReader_readBits64 r n = Inr (of_bits (take n (br_rest r)), r') \<and> br_inv r' \<and> br_rest r' = drop n (br_rest r)"
    using readBits64_eq [of r n] br_inv_advance [of r n] br_invD(5) [of r]
    by (simp add: br_rest_advance length_br_rest)
qed simp

lemma ReadBits_eq:
  assumes "br_inv r"
  shows "BitReader_ReadBits r bits =
    (if bits < 1 \<or> 32 < bits then Inl PanicBitsRange
     else if br_numBits r < br_bitsRead r + nat bits then Inl PanicReadOverflow
     else Inr (of_bits (take (nat bits) (br_rest r)), r\<lparr>br_bitsRead := br_bitsRead r + nat bits\<rparr>))"
  using readBits_eq [OF assms, of "nat bits"] by (auto simp: BitReader_ReadBits_def)

lemma br_data_whole_bytes: "br_inv r \<Longrightarrow> br_bitsRead r + align_len (br_bitsRead r) \<le> br_numBits r"
  using br_invD(4,5) [of r] by (intro align_room) auto

lemma of_bits_eq_0_iff:
  "length bs \<le> LENGTH('a) \<Longrightarrow> (of_bits bs :: 'a::len word) = 0 \<longleftrightarrow> bs = replicate (length bs) False"
proof
  assume len: "length bs \<le> LENGTH('a)" and "(of_bits bs :: 'a word) = 0"
  then have "bits_of (length bs) (of_bits bs :: 'a word) = bits_of (length bs) (0 :: 'a word)" by simp
  with len show "bs = replicate (length bs) False" by (simp add: bits_of_of_bits)
next
  assume "bs = replicate (length bs) False"
  then have *: "\<not> bs ! i" if "i < length bs" for i using that by (metis nth_replicate)
  show "(of_bits bs :: 'a word) = 0" by (rule bit_word_eqI) (auto simp: bit_of_bits *)
qed

lemma ReadAlign_eq:
  assumes "br_inv r"
  defines "n \<equiv> align_len (br_bitsRead r)"
  shows "BitReader_ReadAlign r =
    Inr (take n (br_rest r) = replicate n False, r\<lparr>br_bitsRead := br_bitsRead r + n\<rparr>)"
proof (cases "br_bitsRead r mod 8 = 0")
  case True
  then show ?thesis by (simp add: BitReader_ReadAlign_def n_def align_len_def)
next
  case False
  have room: "br_bitsRead r + n \<le> br_numBits r"
    unfolding n_def by (rule br_data_whole_bytes [OF assms(1)])
  have k: "nat (8 - int (br_bitsRead r mod 8)) = n" "n \<le> 8" "0 < n"
    using False unfolding n_def align_len_cases by simp_all
  have len: "length (take n (br_rest r)) = n"
    using room length_br_rest [OF assms(1)] by simp
  have "BitReader_ReadBits r (8 - int (br_bitsRead r mod 8))
      = Inr (of_bits (take n (br_rest r)), r\<lparr>br_bitsRead := br_bitsRead r + n\<rparr>)"
    using k room by (simp add: ReadBits_eq [OF assms(1)])
  moreover have "(of_bits (take n (br_rest r)) :: u32) = 0 \<longleftrightarrow> take n (br_rest r) = replicate n False"
    using of_bits_eq_0_iff [of "take n (br_rest r)", where 'a = 32] len k(2) by simp
  ultimately show ?thesis
    using False by (simp add: BitReader_ReadAlign_def Let_def)
qed

lemma readSlice_eq:
  assumes "br_inv r" and "br_bitsRead r mod 8 = 0" and "br_bitsRead r + n * 8 \<le> br_numBits r"
  shows "\<exists>bs. BitReader_readSlice r n = Inr (bs, r\<lparr>br_bitsRead := br_bitsRead r + n * 8\<rparr>)
          \<and> length bs = n \<and> bytes_bits bs = take (8 * n) (br_rest r)"
proof -
  define i where "i = br_bitsRead r div 8"
  have b: "br_bitsRead r = 8 * i" using assms(2) unfolding i_def by auto
  have fit: "i + n \<le> length (br_data r)" using assms(3) b br_invD(4) [OF assms(1)] by simp
  let ?bs = "take n (drop i (br_data r))"
  have "BitReader_readSlice r n = Inr (?bs, r\<lparr>br_bitsRead := br_bitsRead r + n * 8\<rparr>)"
    using fit by (simp add: BitReader_readSlice_def slice_range_def drop_bit_3_nat i_def)
  moreover have "bytes_bits ?bs = take (8 * n) (br_rest r)"
    by (simp add: br_rest_def b take_bytes_bits [symmetric] drop_bytes_bits [symmetric])
  ultimately show ?thesis using fit by auto
qed

end
