(* ===== verification/Bitpacker.thy ===== *)
theory Bitpacker
  imports Bit_Writer Bit_Reader
begin

text \<open>
  The properties of bitpacker.go: the two halves put together. The reader returns what the
  writer was given; the fast paths of both (the straight copy of \<open>WriteBytes\<close>, the loads that
  reach past the data into the backing array) are equivalent to the plain ones.
\<close>

section \<open>Fields through both halves\<close>

definition field_ok :: "u32 \<times> int \<Rightarrow> bool" where
  "field_ok f \<longleftrightarrow> 1 \<le> snd f \<and> snd f \<le> 32 \<and> uint (fst f) < 2 ^ nat (snd f)"

definition field_bits :: "(u32 \<times> int) list \<Rightarrow> bool list" where
  "field_bits fs = concat (map (\<lambda>(v, n). bits_of (nat n) v) fs)"

lemma field_okD:
  "field_ok (v, n) \<Longrightarrow> 1 \<le> n" "field_ok (v, n) \<Longrightarrow> n \<le> 32" "field_ok (v, n) \<Longrightarrow> take_bit (nat n) v = v"
  by (simp_all add: field_ok_def take_bit_eq_self_iff_uint)

lemma field_bits_simps [simp]:
  "field_bits [] = []" "field_bits ((v, n) # fs) = bits_of (nat n) v @ field_bits fs"
  by (simp_all add: field_bits_def)

lemma WriteBits_fields:
  assumes "bw_inv buf w" and "\<forall>f \<in> set fs. field_ok f" and "bw_bitsWritten w + length (field_bits fs) \<le> bw_numBits w"
  shows "\<exists>w'. foldM (\<lambda>w (v, n). BitWriter_WriteBits w v n) w fs = Inr w' \<and> bw_inv buf w'
    \<and> bw_bits w' = bw_bits w @ field_bits fs \<and> bw_numBits w' = bw_numBits w"
  using assms
proof (induction fs arbitrary: w)
  case (Cons f fs)
  obtain v n where f: "f = (v, n)" by (cases f)
  note ok = field_okD [of v n]
  obtain w1 where w1: "BitWriter_WriteBits w v n = Inr w1" "bw_inv buf w1"
      "bw_bits w1 = bw_bits w @ bits_of (nat n) v" "bw_numBits w1 = bw_numBits w"
    using WriteBits_ok [OF Cons.prems(1), of n v] Cons.prems(2,3) ok by (auto simp: f)
  have "bw_bitsWritten w1 = bw_bitsWritten w + nat n"
    using w1(3) length_bw_bits [OF w1(2)] length_bw_bits [OF Cons.prems(1)] by simp
  with Cons.prems(2,3) w1(4) have "\<forall>f \<in> set fs. field_ok f" "bw_bitsWritten w1 + length (field_bits fs) \<le> bw_numBits w1"
    by (simp_all add: f)
  from Cons.IH [OF w1(2) this] show ?case using w1 by (auto simp: f)
qed simp

lemma getM_ReadBits:
  assumes "br_inv r" and "\<forall>f \<in> set fs. field_ok f" and "br_rest r = field_bits fs @ tail"
  shows "\<exists>r'. getM (\<lambda>r n. BitReader_ReadBits r (int n)) r (map (nat \<circ> snd) fs) = Inr (map fst fs, r')
    \<and> br_inv r' \<and> br_rest r' = tail"
  using assms
proof (induction fs arbitrary: r)
  case (Cons f fs)
  obtain v n where f: "f = (v, n)" by (cases f)
  have ok: "1 \<le> n" "n \<le> 32" "take_bit (nat n) v = v" using Cons.prems(2) field_okD [of v n] by (simp_all add: f)
  define r1 where "r1 = r\<lparr>br_bitsRead := br_bitsRead r + nat n\<rparr>"
  have fits: "br_bitsRead r + nat n \<le> br_numBits r"
    using Cons.prems(3) length_br_rest [OF Cons.prems(1)] ok by (simp add: f)
  have "BitReader_ReadBits r (int (nat n)) = Inr (v, r1)"
    using ok fits Cons.prems(3) by (simp add: ReadBits_eq [OF Cons.prems(1)] r1_def f)
  moreover have "br_inv r1" unfolding r1_def by (rule br_inv_advance [OF Cons.prems(1) fits])
  moreover have "br_rest r1 = field_bits fs @ tail" using Cons.prems(3) by (simp add: r1_def br_rest_advance f)
  ultimately show ?case using Cons.IH [of r1] Cons.prems(2) by (auto simp: f)
qed simp

section \<open>Properties\<close>

text \<open>
  C26. \<open>BitWriter.WriteBits\<close> on every argument: it returns exactly when the bit count is 1 to 32,
  the value fits it and the buffer has the room, and then the writer holds the old bits followed
  by the value's; otherwise it panics, with the first of the three checks that fails.
\<close>

theorem BitWriter_WriteBits_spec:
  assumes "bw_inv buf w"
  shows "case BitWriter_WriteBits w v bits of
      Inr w' \<Rightarrow> field_ok (v, bits) \<and> bw_bitsWritten w + nat bits \<le> bw_numBits w
        \<and> bw_inv buf w' \<and> bw_bits w' = bw_bits w @ bits_of (nat bits) v
    | Inl p \<Rightarrow> \<not> (field_ok (v, bits) \<and> bw_bitsWritten w + nat bits \<le> bw_numBits w)
        \<and> p = (if bits < 1 \<or> 32 < bits then PanicBitsRange
               else if 2 ^ nat bits \<le> uint v then PanicValueTooWide else PanicWriteOverflow)"
proof (cases "1 \<le> bits \<and> bits \<le> 32")
  case True
  have "nat (32 - bits) = LENGTH(32) - nat bits" using True by (simp add: nat_diff_distrib')
  moreover have k: "nat bits \<le> LENGTH(32)" using True by auto
  ultimately have wide: "drop_bit (nat (32 - bits)) (NOT 0) < v \<longleftrightarrow> 2 ^ nat bits \<le> uint v"
    using not_too_wide_iff [of "nat bits" v] k by (auto simp: take_bit_eq_self_iff_uint not_le not_less)
  show ?thesis
  proof (cases "uint v < 2 ^ nat bits \<and> bw_bitsWritten w + nat bits \<le> bw_numBits w")
    case ok: True
    then have "take_bit (nat bits) v = v" by (simp add: take_bit_eq_self_iff_uint)
    then show ?thesis using WriteBits_ok [OF assms, of bits v] True ok by (auto simp: field_ok_def)
  next
    case False
    then show ?thesis using True wide by (auto simp: BitWriter_WriteBits_def field_ok_def not_le)
  qed
next
  case False
  then show ?thesis by (auto simp: BitWriter_WriteBits_def field_ok_def)
qed

text \<open>
  C24. \<open>BitWriter.WriteBytes\<close> (head bytes, straight copy at a qword boundary, tail bytes) leaves
  exactly the state, memory included, that writing the bytes one at a time with \<open>WriteBits\<close> leaves.
\<close>

theorem BitWriter_WriteBytes_byte_by_byte:
  assumes inv: "bw_inv buf w" and aligned: "bw_bitsWritten w mod 8 = 0"
    and fits: "bw_bitsWritten w + 8 * length bs \<le> bw_numBits w"
  shows "BitWriter_WriteBytes w bs = foldM (\<lambda>w (v, n). BitWriter_WriteBits w v n) w (map (\<lambda>b. (ucast b, 8)) bs)"
proof -
  obtain w1 where w1: "BitWriter_WriteBytes w bs = Inr w1" "bw_inv buf w1" "bw_bits w1 = bw_bits w @ bytes_bits bs"
    using WriteBytes_ok [OF inv aligned fits] by blast
  have byte: "field_ok (ucast (b :: u8), 8)" for b
    using take_bit_ucast_u8 [of b, where 'a = 32] by (simp add: field_ok_def take_bit_eq_self_iff_uint)
  have bits: "field_bits (map (\<lambda>b. (ucast b, 8)) bs) = bytes_bits bs"
    by (induction bs) (simp_all add: bits_of_ucast)
  obtain w2 where "foldM (\<lambda>w (v, n). BitWriter_WriteBits w v n) w (map (\<lambda>b. (ucast b, 8)) bs) = Inr w2"
    "bw_inv buf w2" "bw_bits w2 = bw_bits w @ bytes_bits bs"
    using WriteBits_fields [OF inv, of "map (\<lambda>b. (ucast b, 8)) bs"] byte fits unfolding bits by auto
  with w1 show ?thesis using bw_state_eq [of buf w1 w2] by simp
qed

text \<open>
  C27. Whatever \<open>BitReader.ReadBits\<close> is asked, it returns exactly when the bit count is 1 to 32 and
  that many bits are left; the value is the next bits of the data, least significant first, and
  the reader has moved past exactly them. Otherwise it panics, and hands on no value.
\<close>

theorem BitReader_ReadBits_spec:
  assumes "br_inv r"
  shows "case BitReader_ReadBits r bits of
      Inr (v, r') \<Rightarrow> 1 \<le> bits \<and> bits \<le> 32 \<and> br_inv r'
        \<and> br_rest r = bits_of (nat bits) v @ br_rest r' \<and> uint v < 2 ^ nat bits
    | Inl p \<Rightarrow> \<not> (1 \<le> bits \<and> bits \<le> 32 \<and> nat bits \<le> length (br_rest r))
        \<and> p = (if bits < 1 \<or> 32 < bits then PanicBitsRange else PanicReadOverflow)"
proof (cases "1 \<le> bits \<and> bits \<le> 32 \<and> nat bits \<le> length (br_rest r)")
  case True
  define n where "n = nat bits"
  have n: "n \<le> length (br_rest r)" "n \<le> 32" "br_bitsRead r + n \<le> br_numBits r"
    using True length_br_rest [OF assms] br_invD(5) [OF assms] by (auto simp: n_def)
  have "take_bit n (of_bits (take n (br_rest r)) :: u32) = of_bits (take n (br_rest r))"
    by (rule take_bit_of_bits) simp
  moreover have "bits_of n (of_bits (take n (br_rest r)) :: u32) = take n (br_rest r)"
    using n bits_of_of_bits [of "take n (br_rest r)", where 'a = 32] by simp
  ultimately show ?thesis
    using True n br_inv_advance [OF assms n(3)]
    by (simp add: ReadBits_eq [OF assms] br_rest_advance take_bit_eq_self_iff_uint flip: n_def)
next
  case False
  then show ?thesis
    using length_br_rest [OF assms] br_invD(5) [OF assms] by (auto simp: ReadBits_eq [OF assms])
qed

text \<open>Writing a list of fields into a buffer, from \<open>NewBitWriter\<close> to \<open>Data\<close>.\<close>

definition pack_fields :: "u8 list \<Rightarrow> (u32 \<times> int) list \<Rightarrow> u8 list res" where
  "pack_fields buf fs =
    andThen (NewBitWriter buf) (\<lambda>w.
    andThen (foldM (\<lambda>w (v, n). BitWriter_WriteBits w v n) w fs) (\<lambda>w.
    andThen (BitWriter_FlushBits w) BitWriter_Data))"

text \<open>
  C23. The bit packer's round trip: any list of fields that fit their widths and together the
  buffer is written without a panic, and a reader over the bytes handed on returns the same
  values field by field, whatever lies past those bytes in memory.
\<close>

theorem bitpacker_round_trip:
  assumes "length buf mod 8 = 0" and "\<forall>f \<in> set fs. field_ok f" and "length (field_bits fs) \<le> 8 * length buf"
  shows "\<exists>bs. pack_fields buf fs = Inr bs \<and> length bs = (length (field_bits fs) + 7) div 8
    \<and> (\<forall>slack. \<exists>r. getM (\<lambda>r n. BitReader_ReadBits r (int n)) (NewBitReader bs slack) (map (nat \<circ> snd) fs)
         = Inr (map fst fs, r))"
proof -
  obtain w where w: "NewBitWriter buf = Inr w" "bw_inv buf w" "bw_bits w = []" "bw_numBits w = 8 * length buf"
    using NewBitWriter_ok [OF assms(1)] by blast
  then have "bw_bitsWritten w = 0" using length_bw_bits by force
  with w assms(3) obtain w1 where w1: "foldM (\<lambda>w (v, n). BitWriter_WriteBits w v n) w fs = Inr w1" "bw_inv buf w1"
      "bw_bits w1 = field_bits fs"
    using WriteBits_fields [OF w(2) assms(2)] by auto
  obtain w2 where w2: "BitWriter_FlushBits w1 = Inr w2" using FlushBits_ok [OF w1(2)] by blast
  obtain bs where bs: "BitWriter_Data w2 = Inr bs" "length bs = BitWriter_BytesWritten w1"
      "bytes_bits bs = field_bits fs @ replicate (align_len (bw_bitsWritten w1)) False"
    using Data_ok [OF w1(2) w2] w1(3) by auto
  have "br_rest (NewBitReader bs slack) = field_bits fs @ replicate (align_len (bw_bitsWritten w1)) False" for slack
    by (simp add: br_rest_def bs(3))
  then have "\<exists>r. getM (\<lambda>r n. BitReader_ReadBits r (int n)) (NewBitReader bs slack) (map (nat \<circ> snd) fs) = Inr (map fst fs, r)"
    for slack using getM_ReadBits [OF br_inv_New assms(2)] by blast
  moreover have "bw_bitsWritten w1 = length (field_bits fs)" using length_bw_bits [OF w1(2)] w1(3) by simp
  ultimately show ?thesis
    using w(1) w1(1) w2 bs(1,2) by (simp add: pack_fields_def BitWriter_BytesWritten_def)
qed

text \<open>Two readers at the same place of the same data differ at most in how they load it.\<close>

definition same_place :: "bit_reader \<Rightarrow> bit_reader \<Rightarrow> bool" where
  "same_place r r' \<longleftrightarrow> br_inv r \<and> br_inv r' \<and> br_data r = br_data r' \<and> br_bitsRead r = br_bitsRead r'"

lemma same_place_ReadBits:
  assumes "same_place r r'"
  shows "(\<exists>p. BitReader_ReadBits r bits = Inl p \<and> BitReader_ReadBits r' bits = Inl p)
    \<or> (\<exists>v s s'. BitReader_ReadBits r bits = Inr (v, s) \<and> BitReader_ReadBits r' bits = Inr (v, s') \<and> same_place s s')"
proof -
  have i: "br_inv r" "br_inv r'" and e: "br_bitsRead r' = br_bitsRead r" "br_data r' = br_data r" "br_rest r' = br_rest r"
    using assms by (simp_all add: same_place_def br_rest_def)
  have n: "br_numBits r' = br_numBits r" using br_invD(4) i e(2) by simp
  show ?thesis
    unfolding ReadBits_eq [OF i(1)] ReadBits_eq [OF i(2)] e n
    using i e n br_inv_advance [of r "nat bits"] br_inv_advance [of r' "nat bits"]
    by (auto simp: same_place_def not_less)
qed

lemma same_place_getM:
  "same_place r r' \<Longrightarrow> map_sum id fst (getM (\<lambda>r n. BitReader_ReadBits r (int n)) r ns)
     = map_sum id fst (getM (\<lambda>r n. BitReader_ReadBits r (int n)) r' ns)"
proof (induction ns arbitrary: r r')
  case (Cons n ns)
  let ?get = "getM (\<lambda>r n. BitReader_ReadBits r (int n))"
  from same_place_ReadBits [OF Cons.prems, of "int n"] consider
      (panic) p where "BitReader_ReadBits r (int n) = Inl p" "BitReader_ReadBits r' (int n) = Inl p"
    | (read) v s s' where "BitReader_ReadBits r (int n) = Inr (v, s)" "BitReader_ReadBits r' (int n) = Inr (v, s')" "same_place s s'"
    by blast
  then show ?case
  proof cases
    case read
    show ?thesis using Cons.IH [OF read(3)] read(1,2)
      by (cases "?get s ns"; cases "?get s' ns") (auto split: prod.splits)
  qed simp
qed simp

text \<open>
  C25. What a reader returns is a function of the slice it was given: the bytes of the backing
  array past the slice, which the window loads do read, never change a value or an outcome.
\<close>

theorem BitReader_ignores_slack:
  "map_sum id fst (getM (\<lambda>r n. BitReader_ReadBits r (int n)) (NewBitReader data slack) ns)
     = map_sum id fst (getM (\<lambda>r n. BitReader_ReadBits r (int n)) (NewBitReader data slack') ns)"
  by (rule same_place_getM) (simp add: same_place_def br_inv_New)

text \<open>
  C39. \<open>WouldReadPastEnd\<close> answers whether \<open>bits\<close> more bits are left, as long as the sum it forms
  stays in \<open>int64\<close>; past that the sum wraps and it answers no, whatever is left.
\<close>

theorem BitReader_WouldReadPastEnd_spec:
  assumes "br_inv r" and "int (br_bitsRead r) < 2 ^ 63" and "0 \<le> bits" and "bits < 2 ^ 63"
  shows "BitReader_WouldReadPastEnd r bits \<longleftrightarrow> length (br_rest r) < nat bits \<and> int (br_bitsRead r) + bits < 2 ^ 63"
proof (cases "int (br_bitsRead r) + bits < 2 ^ 63")
  case True
  then have "wrap64 (int (br_bitsRead r) + bits) = int (br_bitsRead r) + bits"
    using assms(3) unfolding wrap64_def by (intro signed_take_bit_int_eq_self) simp_all
  then show ?thesis
    using True assms(3) length_br_rest [OF assms(1)] br_invD(5) [OF assms(1)]
    by (auto simp: BitReader_WouldReadPastEnd_def)
next
  case False
  let ?i = "int (br_bitsRead r) + bits"
  have "wrap64 ?i = wrap64 (?i - 2 ^ 64)"
    unfolding wrap64_def signed_take_bit_eq_iff_take_bit_eq by (simp add: take_bit_eq_mod)
  also have "\<dots> = ?i - 2 ^ 64"
    unfolding wrap64_def using False assms(2,4) by (intro signed_take_bit_int_eq_self) simp_all
  finally have "wrap64 ?i < 0" using assms(2,4) by simp
  then show ?thesis using False by (simp add: BitReader_WouldReadPastEnd_def)
qed

section \<open>Witnesses\<close>

definition sample_writer :: bit_writer where
  "sample_writer = \<lparr>bw_data = replicate 8 0, bw_scratch = 5, bw_numBits = 64, bw_bitsWritten = 3, bw_wordIndex = 0, bw_scratchBits = 3\<rparr>"

lemma sample_writer_inv: "bw_inv (replicate 8 0) sample_writer"
  by (simp add: bw_inv_def sample_writer_def take_bit_eq_mod)

definition zero_writer :: "nat \<Rightarrow> bit_writer" where
  "zero_writer n = \<lparr>bw_data = replicate (8 * n) 0, bw_scratch = 0, bw_numBits = 64 * n, bw_bitsWritten = 0, bw_wordIndex = 0, bw_scratchBits = 0\<rparr>"

lemma zero_writer_inv: "bw_inv (replicate (8 * n) 0) (zero_writer n)"
  by (simp add: bw_inv_def zero_writer_def)

theorem BitWriter_WriteBits_spec_witness:
  "\<exists>w'. BitWriter_WriteBits sample_writer 9 4 = Inr w' \<and> bw_bits w' = bw_bits sample_writer @ bits_of 4 (9 :: u32)"
  using BitWriter_WriteBits_spec [OF sample_writer_inv, of 9 4]
  by (simp add: field_ok_def sample_writer_def split: sum.splits)

theorem BitWriter_WriteBytes_byte_by_byte_witness:
  "BitWriter_WriteBytes (zero_writer 2) [1, 2, 3, 4, 5, 6, 7, 8, 9, 10]
    = foldM (\<lambda>w (v, n). BitWriter_WriteBits w v n) (zero_writer 2) (map (\<lambda>b. (ucast b, 8)) [1 :: u8, 2, 3, 4, 5, 6, 7, 8, 9, 10])"
  using BitWriter_WriteBytes_byte_by_byte [OF zero_writer_inv, of 2 "[1, 2, 3, 4, 5, 6, 7, 8, 9, 10]"]
  by (simp add: zero_writer_def)

theorem BitReader_ReadBits_spec_witness:
  "case BitReader_ReadBits (NewBitReader [0xA5, 3] []) 4 of
      Inr (v, r') \<Rightarrow> br_rest (NewBitReader [0xA5, 3] []) = bits_of 4 v @ br_rest r'
    | Inl p \<Rightarrow> False"
  using BitReader_ReadBits_spec [OF br_inv_New [of "[0xA5, 3]" "[]"], of 4]
  by (auto split: sum.splits simp: br_rest_def)

theorem bitpacker_round_trip_witness:
  "\<exists>bs. pack_fields (replicate 8 0) [(5, 3), (1000, 10), (1, 1)] = Inr bs \<and> length bs = 2"
  using bitpacker_round_trip [of "replicate 8 0" "[(5, 3), (1000, 10), (1, 1)]"]
  by (auto simp: field_ok_def)

theorem BitReader_WouldReadPastEnd_spec_witness:
  "\<not> BitReader_WouldReadPastEnd (NewBitReader [7] [] \<lparr>br_bitsRead := 1\<rparr>) (2 ^ 63 - 1)
   \<and> BitReader_WouldReadPastEnd (NewBitReader [7] [] \<lparr>br_bitsRead := 1\<rparr>) 8"
proof -
  have "br_inv (NewBitReader [7] [] \<lparr>br_bitsRead := br_bitsRead (NewBitReader [7] []) + 1\<rparr>)"
    by (rule br_inv_advance [OF br_inv_New]) simp
  then have "br_inv (NewBitReader [7] [] \<lparr>br_bitsRead := 1\<rparr>)" by simp
  note spec = BitReader_WouldReadPastEnd_spec [OF this]
  show ?thesis using spec [of "2 ^ 63 - 1"] spec [of 8] by (simp add: br_rest_def)
qed

end
