(* ===== verification/Go_Text.thy ===== *)
theory Go_Text
  imports Prelude
begin

text \<open>
  What the library uses of Go's standard library on text and on bit lengths: a Go string is its
  bytes, \<open>strings.IndexByte\<close>, \<open>unicode/utf8\<close>'s \<open>Valid\<close> (Unicode table 3-7, one character at a
  time), and \<open>math/bits\<close>' \<open>Len\<close>. The lemmas say where a well-formed string may be cut.
\<close>

section \<open>strings.IndexByte\<close>

fun IndexByte_from :: "nat \<Rightarrow> u8 list \<Rightarrow> u8 \<Rightarrow> int" where
  "IndexByte_from i [] c = -1"
| "IndexByte_from i (b # bs) c = (if b = c then int i else IndexByte_from (Suc i) bs c)"

definition IndexByte :: "u8 list \<Rightarrow> u8 \<Rightarrow> int" where
  "IndexByte s c = IndexByte_from 0 s c"

lemma IndexByte_from_absent: "c \<notin> set s \<Longrightarrow> IndexByte_from i s c = -1"
  by (induction s arbitrary: i) auto

lemma IndexByte_from_present:
  "c \<in> set s \<Longrightarrow> \<exists>j. IndexByte_from i s c = int (i + j) \<and> j < length s \<and> s ! j = c \<and> c \<notin> set (take j s)"
proof (induction s arbitrary: i)
  case Nil
  then show ?case by simp
next
  case (Cons b bs)
  show ?case
  proof (cases "b = c")
    case True
    then show ?thesis by (intro exI [of _ 0]) simp
  next
    case False
    with Cons obtain j where "IndexByte_from (Suc i) bs c = int (Suc i + j)" "j < length bs"
      "bs ! j = c" "c \<notin> set (take j bs)" by fastforce
    with False show ?thesis by (intro exI [of _ "Suc j"]) auto
  qed
qed

lemma IndexByte_neg_iff: "IndexByte s c < 0 \<longleftrightarrow> c \<notin> set s"
  using IndexByte_from_absent [of c s 0] IndexByte_from_present [of c s 0]
  by (cases "c \<in> set s") (auto simp: IndexByte_def)

lemma IndexByte_present:
  "c \<in> set s \<Longrightarrow> \<exists>j. IndexByte s c = int j \<and> j < length s \<and> s ! j = c \<and> c \<notin> set (take j s)"
  using IndexByte_from_present [of c s 0] by (simp add: IndexByte_def)

section \<open>unicode/utf8.Valid\<close>

definition utf8_cont :: "u8 \<Rightarrow> bool" where
  "utf8_cont b \<longleftrightarrow> 0x80 \<le> b \<and> b \<le> 0xBF"

text \<open>
  The length of the well-formed character a byte string starts with, 0 when there is none:
  the rows of table 3-7, with the narrowed ranges of the second byte after \<open>E0\<close>, \<open>ED\<close>, \<open>F0\<close>
  and \<open>F4\<close>.
\<close>

definition utf8_second :: "u8 \<Rightarrow> u8 \<Rightarrow> bool" where
  "utf8_second b0 b1 \<longleftrightarrow>
    (if b0 = 0xE0 then 0xA0 \<le> b1 \<and> b1 \<le> 0xBF
     else if b0 = 0xED then 0x80 \<le> b1 \<and> b1 \<le> 0x9F
     else if b0 = 0xF0 then 0x90 \<le> b1 \<and> b1 \<le> 0xBF
     else if b0 = 0xF4 then 0x80 \<le> b1 \<and> b1 \<le> 0x8F
     else utf8_cont b1)"

definition utf8_size :: "u8 \<Rightarrow> nat" where
  "utf8_size b0 = (if b0 \<le> 0x7F then 1
     else if 0xC2 \<le> b0 \<and> b0 \<le> 0xDF then 2
     else if 0xE0 \<le> b0 \<and> b0 \<le> 0xEF then 3
     else if 0xF0 \<le> b0 \<and> b0 \<le> 0xF4 then 4
     else 0)"

definition utf8_char :: "u8 list \<Rightarrow> nat" where
  "utf8_char s = (case s of [] \<Rightarrow> 0 | b0 # r \<Rightarrow>
     let n = utf8_size b0
     in if n = 0 \<or> length s < n then 0
        else if n = 1 then 1
        else if utf8_second b0 (s ! 1) \<and> list_all utf8_cont (take (n - 2) (drop 2 s)) then n
        else 0)"

function utf8_valid :: "u8 list \<Rightarrow> bool" where
  "utf8_valid s =
    (if s = [] then True
     else if utf8_char s = 0 then False
     else utf8_valid (drop (utf8_char s) s))"
  by pat_completeness auto
termination
  by (relation "measure length") auto

declare utf8_valid.simps [simp del]

lemma utf8_valid_Nil [simp]: "utf8_valid []"
  by (simp add: utf8_valid.simps)

lemma utf8_valid_step:
  "s \<noteq> [] \<Longrightarrow> utf8_valid s \<longleftrightarrow> 0 < utf8_char s \<and> utf8_valid (drop (utf8_char s) s)"
  by (subst utf8_valid.simps) simp

lemma utf8_second_cont: "utf8_second b0 b1 \<Longrightarrow> utf8_cont b1"
  by (auto simp: utf8_second_def utf8_cont_def word_le_nat_alt split: if_splits)

lemma utf8_char_le: "utf8_char s \<le> length s"
  by (cases s) (auto simp: utf8_char_def Let_def)

text \<open>Inside a character every byte but the first is a continuation byte.\<close>

lemma utf8_char_inside:
  assumes "0 < j" and "j < utf8_char s"
  shows "utf8_cont (s ! j)"
proof -
  obtain b0 r where s: "s = b0 # r" using assms by (cases s) (auto simp: utf8_char_def)
  define n where "n = utf8_size b0"
  have c: "utf8_char s = n" "n \<le> length s" "utf8_second b0 (s ! 1)"
    "list_all utf8_cont (take (n - 2) (drop 2 s))"
    using assms unfolding s utf8_char_def n_def by (auto simp: Let_def split: if_splits)
  show ?thesis
  proof (cases "j = 1")
    case True
    then show ?thesis using utf8_second_cont [OF c(3)] by simp
  next
    case False
    then obtain k where k: "j = Suc (Suc k)"
      using assms(1) by (metis One_nat_def not0_implies_Suc not_gr_zero)
    then have "k < length (take (n - 2) (drop 2 s))" and "s ! j = take (n - 2) (drop 2 s) ! k"
      using assms c(1,2) by auto
    then show ?thesis using c(4) by (metis list_all_length)
  qed
qed

text \<open>The character a string starts with does not depend on what follows it.\<close>

lemma utf8_char_take:
  assumes "0 < utf8_char s" and "utf8_char s \<le> m"
  shows "utf8_char (take m s) = utf8_char s"
proof -
  obtain b0 r where s: "s = b0 # r" using assms by (cases s) (auto simp: utf8_char_def)
  define n where "n = utf8_size b0"
  have n: "utf8_char s = n" "n \<le> length s" "0 < n"
    using assms unfolding s utf8_char_def n_def by (auto simp: Let_def split: if_splits)
  then obtain m' where m: "m = Suc m'" using assms(2) by (cases m) auto
  have l: "n \<le> length (take m s)" using n assms(2) by simp
  have "take m s ! 1 = s ! 1" if "1 < n" using that n(1) assms(2) by simp
  moreover have "take (n - 2) (drop 2 (take m s)) = take (n - 2) (drop 2 s)"
    using n(1) assms(2) by (simp add: drop_take min_def)
  ultimately show ?thesis
    using n l assms(1) unfolding utf8_char_def s m take_Suc_Cons
    by (simp add: n_def [symmetric] Let_def split: if_splits)
qed

text \<open>A well-formed string cut where the first byte left out starts a character is well-formed.\<close>

lemma utf8_valid_take:
  "utf8_valid s \<Longrightarrow> m < length s \<Longrightarrow> \<not> utf8_cont (s ! m) \<Longrightarrow> utf8_valid (take m s)"
proof (induction s arbitrary: m rule: utf8_valid.induct)
  case (1 s)
  show ?case
  proof (cases "m = 0")
    case True
    then show ?thesis by simp
  next
    case False
    define c where "c = utf8_char s"
    have ne: "s \<noteq> []" using "1.prems" by auto
    then have c: "0 < c" "utf8_valid (drop c s)"
      using "1.prems"(1) utf8_valid_step unfolding c_def by blast+
    have cm: "c \<le> m"
    proof (rule ccontr)
      assume "\<not> c \<le> m"
      then show False
        using utf8_char_inside [of m s] "1.prems"(3) False by (auto simp: c_def)
    qed
    have "utf8_valid (take (m - c) (drop c s))"
      using "1.IH" [of "m - c"] ne c cm "1.prems" by (simp add: c_def)
    moreover have "utf8_char (take m s) = c"
      using utf8_char_take [of s m] c(1) cm by (simp add: c_def)
    moreover have "drop c (take m s) = take (m - c) (drop c s)"
      by (simp add: drop_take)
    ultimately show ?thesis
      using ne False c(1) by (subst utf8_valid_step) auto
  qed
qed

section \<open>math/bits.Len\<close>

fun nat_len :: "nat \<Rightarrow> nat" where
  "nat_len n = (if n = 0 then 0 else Suc (nat_len (n div 2)))"

declare nat_len.simps [simp del]

lemma nat_len_0 [simp]: "nat_len 0 = 0"
  by (simp add: nat_len.simps)

lemma nat_len_le_iff: "nat_len n \<le> k \<longleftrightarrow> n < 2 ^ k"
proof (induction n arbitrary: k rule: nat_len.induct)
  case (1 n)
  show ?case
  proof (cases "n = 0")
    case True
    then show ?thesis by simp
  next
    case False
    show ?thesis
    proof (cases k)
      case 0
      then show ?thesis using False by (simp add: nat_len.simps [of n])
    next
      case (Suc j)
      then have "nat_len n \<le> k \<longleftrightarrow> n div 2 < 2 ^ j"
        using False "1.IH" by (simp add: nat_len.simps [of n])
      also have "\<dots> \<longleftrightarrow> n < 2 ^ k"
        unfolding Suc by (simp add: div_less_iff_less_mult mult.commute)
      finally show ?thesis .
    qed
  qed
qed

definition Len :: "'a::len word \<Rightarrow> nat" where
  "Len x = nat_len (unat x)"

lemma Len_le_iff: "Len x \<le> k \<longleftrightarrow> unat x < 2 ^ k"
  by (simp add: Len_def nat_len_le_iff)

lemma Len_fits: "take_bit (Len x) x = x"
  using Len_le_iff [of x "Len x"] by (simp add: take_bit_eq_self_iff_unat)

lemma Len_le_length: "Len (x :: 'a::len word) \<le> LENGTH('a)"
  by (simp add: Len_le_iff)

lemma fits_of_le:
  fixes x y :: "'a::len word"
  assumes "x \<le> y"
  shows "take_bit (Len y) x = x"
  using Len_fits [of y] assms by (simp add: take_bit_eq_self_iff_unat word_le_nat_alt)

lemma Len_eq_0_iff: "Len x = 0 \<longleftrightarrow> x = 0"
  using Len_le_iff [of x 0] by (simp add: unat_eq_0)

end
