(* ===== verification/Wide_Int.thy ===== *)
theory Wide_Int
  imports Go_Text "HOL-Library.Signed_Division"
begin

text \<open>
  int128.go: \<open>Uint128\<close> and \<open>Int128\<close>, pairs of 64 bit lanes, with every operation of the file. The
  contract of the component is that a pair behaves as a native 128 bit integer: \<open>u128\<close> reads a
  pair as a \<open>128 word\<close>, and each operation refines the operation of that type.
\<close>

datatype uint128 = Uint128 (Lo: u64) (Hi: u64)
datatype int128 = Int128 (ILo: u64) (IHi: u64)

section \<open>The functions of math/bits the lanes use\<close>

text \<open>Sum and carry out, difference and borrow out, the high and low half of a product.\<close>

definition bits_Add64 :: "u64 \<Rightarrow> u64 \<Rightarrow> u64 \<Rightarrow> u64 \<times> u64" where
  "bits_Add64 x y carry =
     (let s = unat x + unat y + unat carry in (word_of_nat s, word_of_nat (s div 2 ^ 64)))"

definition bits_Sub64 :: "u64 \<Rightarrow> u64 \<Rightarrow> u64 \<Rightarrow> u64 \<times> u64" where
  "bits_Sub64 x y borrow =
     (x - y - borrow, if unat x < unat y + unat borrow then 1 else 0)"

definition bits_Mul64 :: "u64 \<Rightarrow> u64 \<Rightarrow> u64 \<times> u64" where
  "bits_Mul64 x y =
     (let p = unat x * unat y in (word_of_nat (p div 2 ^ 64), word_of_nat p))"

text \<open>\<open>Div64\<close> panics unless the quotient of \<open>hi:lo\<close> by \<open>y\<close> fits a lane.\<close>

definition bits_Div64 :: "u64 \<Rightarrow> u64 \<Rightarrow> u64 \<Rightarrow> (u64 \<times> u64) res" where
  "bits_Div64 hi lo y =
     (if y \<le> hi then Inl RuntimeDivide
      else let n = unat hi * 2 ^ 64 + unat lo
           in Inr (word_of_nat (n div unat y), word_of_nat (n mod unat y)))"

section \<open>Uint128\<close>

definition Uint128From64 :: "u64 \<Rightarrow> uint128" where
  "Uint128From64 x = Uint128 x 0"

definition Uint128_Uint64 :: "uint128 \<Rightarrow> u64" where
  "Uint128_Uint64 x = Lo x"

definition Uint128_Int128 :: "uint128 \<Rightarrow> int128" where
  "Uint128_Int128 x = Int128 (Lo x) (Hi x)"

definition Uint128_IsZero :: "uint128 \<Rightarrow> bool" where
  "Uint128_IsZero x \<longleftrightarrow> x = Uint128 0 0"

definition Uint128_Len :: "uint128 \<Rightarrow> nat" where
  "Uint128_Len x = (if Hi x \<noteq> 0 then 64 + Len (Hi x) else Len (Lo x))"

definition Uint128_Cmp :: "uint128 \<Rightarrow> uint128 \<Rightarrow> int" where
  "Uint128_Cmp x y =
    (if Hi x \<noteq> Hi y then (if Hi x < Hi y then -1 else 1)
     else if Lo x \<noteq> Lo y then (if Lo x < Lo y then -1 else 1)
     else 0)"

definition Uint128_Add :: "uint128 \<Rightarrow> uint128 \<Rightarrow> uint128" where
  "Uint128_Add x y =
    (let (lo, carry) = bits_Add64 (Lo x) (Lo y) 0;
         (hi, _) = bits_Add64 (Hi x) (Hi y) carry
     in Uint128 lo hi)"

definition Uint128_Sub :: "uint128 \<Rightarrow> uint128 \<Rightarrow> uint128" where
  "Uint128_Sub x y =
    (let (lo, borrow) = bits_Sub64 (Lo x) (Lo y) 0;
         (hi, _) = bits_Sub64 (Hi x) (Hi y) borrow
     in Uint128 lo hi)"

definition Uint128_Mul :: "uint128 \<Rightarrow> uint128 \<Rightarrow> uint128" where
  "Uint128_Mul x y =
    (let (hi, lo) = bits_Mul64 (Lo x) (Lo y)
     in Uint128 lo (hi + (Lo x * Hi y + Hi x * Lo y)))"

definition Uint128_Not :: "uint128 \<Rightarrow> uint128" where
  "Uint128_Not x = Uint128 (NOT (Lo x)) (NOT (Hi x))"

definition Uint128_And :: "uint128 \<Rightarrow> uint128 \<Rightarrow> uint128" where
  "Uint128_And x y = Uint128 (Lo x AND Lo y) (Hi x AND Hi y)"

definition Uint128_Or :: "uint128 \<Rightarrow> uint128 \<Rightarrow> uint128" where
  "Uint128_Or x y = Uint128 (Lo x OR Lo y) (Hi x OR Hi y)"

definition Uint128_Xor :: "uint128 \<Rightarrow> uint128 \<Rightarrow> uint128" where
  "Uint128_Xor x y = Uint128 (Lo x XOR Lo y) (Hi x XOR Hi y)"

definition Uint128_Lsh :: "uint128 \<Rightarrow> nat \<Rightarrow> uint128" where
  "Uint128_Lsh x n =
    (if n = 0 then x
     else if n < 64 then Uint128 (push_bit n (Lo x)) (push_bit n (Hi x) OR drop_bit (64 - n) (Lo x))
     else if n < 128 then Uint128 0 (push_bit (n - 64) (Lo x))
     else Uint128 0 0)"

definition Uint128_Rsh :: "uint128 \<Rightarrow> nat \<Rightarrow> uint128" where
  "Uint128_Rsh x n =
    (if n = 0 then x
     else if n < 64 then Uint128 (drop_bit n (Lo x) OR push_bit (64 - n) (Hi x)) (drop_bit n (Hi x))
     else if n < 128 then Uint128 (drop_bit (n - 64) (Hi x)) 0
     else Uint128 0 0)"

definition Uint128_Neg :: "uint128 \<Rightarrow> uint128" where
  "Uint128_Neg x = Uint128_Sub (Uint128 0 0) x"

text \<open>The shift subtract loop of \<open>DivMod\<close>, for the bit indices below \<open>i\<close>, highest first.\<close>

primrec DivMod_loop :: "uint128 \<Rightarrow> uint128 \<Rightarrow> nat \<Rightarrow> uint128 \<times> uint128 \<Rightarrow> uint128 \<times> uint128" where
  "DivMod_loop x y 0 qr = qr"
| "DivMod_loop x y (Suc i) qr =
    (let (quotient, remainder) = qr;
         shifted = Uint128_Lsh remainder 1;
         remainder = Uint128 (Lo shifted OR (Lo (Uint128_Rsh x i) AND 1)) (Hi shifted)
     in if 0 \<le> Uint128_Cmp remainder y
        then DivMod_loop x y i (Uint128_Or quotient (Uint128_Lsh (Uint128 1 0) i), Uint128_Sub remainder y)
        else DivMod_loop x y i (quotient, remainder))"

definition Uint128_DivMod :: "uint128 \<Rightarrow> uint128 \<Rightarrow> (uint128 \<times> uint128) res" where
  "Uint128_DivMod x y =
    (if Uint128_IsZero y then Inr (Uint128 0 0, Uint128 0 0)
     else if Hi x = 0 \<and> Hi y = 0 then Inr (Uint128 (Lo x div Lo y) 0, Uint128 (Lo x mod Lo y) 0)
     else if Hi y = 0 \<and> Hi x < Lo y then
       andThen (bits_Div64 (Hi x) (Lo x) (Lo y)) (\<lambda>(q, r). Inr (Uint128 q 0, Uint128 r 0))
     else Inr (DivMod_loop x y (Uint128_Len x) (Uint128 0 0, Uint128 0 0)))"

definition Uint128_Div :: "uint128 \<Rightarrow> uint128 \<Rightarrow> uint128 res" where
  "Uint128_Div x y = andThen (Uint128_DivMod x y) (\<lambda>(q, _). Inr q)"

definition Uint128_Mod :: "uint128 \<Rightarrow> uint128 \<Rightarrow> uint128 res" where
  "Uint128_Mod x y = andThen (Uint128_DivMod x y) (\<lambda>(_, r). Inr r)"

section \<open>Int128\<close>

definition Int128From64 :: "i64 \<Rightarrow> int128" where
  "Int128From64 x = Int128 x (if x <s 0 then NOT 0 else 0)"

definition Int128_Int64 :: "int128 \<Rightarrow> i64" where
  "Int128_Int64 x = ILo x"

definition Int128_Uint128 :: "int128 \<Rightarrow> uint128" where
  "Int128_Uint128 x = Uint128 (ILo x) (IHi x)"

definition Int128_IsNegative :: "int128 \<Rightarrow> bool" where
  "Int128_IsNegative x \<longleftrightarrow> drop_bit 63 (IHi x) \<noteq> 0"

definition Int128_Cmp :: "int128 \<Rightarrow> int128 \<Rightarrow> int" where
  "Int128_Cmp x y =
    (if IHi x \<noteq> IHi y then (if IHi x <s IHi y then -1 else 1)
     else if ILo x \<noteq> ILo y then (if ILo x < ILo y then -1 else 1)
     else 0)"

definition Int128_Add :: "int128 \<Rightarrow> int128 \<Rightarrow> int128" where
  "Int128_Add x y = Uint128_Int128 (Uint128_Add (Int128_Uint128 x) (Int128_Uint128 y))"

definition Int128_Sub :: "int128 \<Rightarrow> int128 \<Rightarrow> int128" where
  "Int128_Sub x y = Uint128_Int128 (Uint128_Sub (Int128_Uint128 x) (Int128_Uint128 y))"

definition Int128_Mul :: "int128 \<Rightarrow> int128 \<Rightarrow> int128" where
  "Int128_Mul x y = Uint128_Int128 (Uint128_Mul (Int128_Uint128 x) (Int128_Uint128 y))"

definition Int128_DivMod :: "int128 \<Rightarrow> int128 \<Rightarrow> (int128 \<times> int128) res" where
  "Int128_DivMod x y =
    (let dividendMagnitude = (if Int128_IsNegative x then Uint128_Neg (Int128_Uint128 x) else Int128_Uint128 x);
         divisorMagnitude = (if Int128_IsNegative y then Uint128_Neg (Int128_Uint128 y) else Int128_Uint128 y)
     in andThen (Uint128_DivMod dividendMagnitude divisorMagnitude) (\<lambda>(q, r).
          Inr (Uint128_Int128 (if Int128_IsNegative x \<noteq> Int128_IsNegative y then Uint128_Neg q else q),
               Uint128_Int128 (if Int128_IsNegative x then Uint128_Neg r else r))))"

definition Int128_Div :: "int128 \<Rightarrow> int128 \<Rightarrow> int128 res" where
  "Int128_Div x y = andThen (Int128_DivMod x y) (\<lambda>(q, _). Inr q)"

definition Int128_Mod :: "int128 \<Rightarrow> int128 \<Rightarrow> int128 res" where
  "Int128_Mod x y = andThen (Int128_DivMod x y) (\<lambda>(_, r). Inr r)"

definition Int128_Neg :: "int128 \<Rightarrow> int128" where
  "Int128_Neg x = Uint128_Int128 (Uint128_Neg (Int128_Uint128 x))"

definition Int128_Not :: "int128 \<Rightarrow> int128" where
  "Int128_Not x = Uint128_Int128 (Uint128_Not (Int128_Uint128 x))"

definition Int128_And :: "int128 \<Rightarrow> int128 \<Rightarrow> int128" where
  "Int128_And x y = Uint128_Int128 (Uint128_And (Int128_Uint128 x) (Int128_Uint128 y))"

definition Int128_Or :: "int128 \<Rightarrow> int128 \<Rightarrow> int128" where
  "Int128_Or x y = Uint128_Int128 (Uint128_Or (Int128_Uint128 x) (Int128_Uint128 y))"

definition Int128_Xor :: "int128 \<Rightarrow> int128 \<Rightarrow> int128" where
  "Int128_Xor x y = Uint128_Int128 (Uint128_Xor (Int128_Uint128 x) (Int128_Uint128 y))"

definition Int128_Lsh :: "int128 \<Rightarrow> nat \<Rightarrow> int128" where
  "Int128_Lsh x n = Uint128_Int128 (Uint128_Lsh (Int128_Uint128 x) n)"

definition Int128_Rsh :: "int128 \<Rightarrow> nat \<Rightarrow> int128" where
  "Int128_Rsh x n =
    (if 128 \<le> n then (if Int128_IsNegative x then Int128From64 (-1) else Int128 0 0)
     else
       let result = Uint128_Rsh (Int128_Uint128 x) n
       in Uint128_Int128
            (if Int128_IsNegative x \<and> 0 < n
             then Uint128_Or result (Uint128_Lsh (Uint128_Not (Uint128 0 0)) (128 - n)) else result))"


section \<open>The pair as a native 128 bit integer\<close>

definition u128 :: "uint128 \<Rightarrow> 128 word" where
  "u128 x = ucast (Lo x) OR push_bit 64 (ucast (Hi x))"

definition i128 :: "int128 \<Rightarrow> 128 word" where
  "i128 x = u128 (Int128_Uint128 x)"

lemma bit_u128: "bit (u128 x) i \<longleftrightarrow> (if i < 64 then bit (Lo x) i else bit (Hi x) (i - 64))"
proof (cases "i < 64")
  case True
  then show ?thesis by (simp add: u128_def bit_or_iff bit_ucast_iff bit_push_bit_iff)
next
  case False
  then have "\<not> bit (Lo x) i" and "bit (Hi x) (i - 64) \<Longrightarrow> i < 128"
    using bit_imp_le_length [of "Lo x" i] bit_imp_le_length [of "Hi x" "i - 64"] by auto
  then show ?thesis using False
    by (auto simp add: u128_def bit_or_iff bit_ucast_iff bit_push_bit_iff)
qed

lemma u128_inj: "u128 x = u128 y \<Longrightarrow> x = y"
proof -
  assume eq: "u128 x = u128 y"
  have "Lo x = Lo y"
  proof (rule bit_word_eqI)
    fix i assume "i < LENGTH(64)"
    then show "bit (Lo x) i = bit (Lo y) i" using arg_cong [OF eq, of "\<lambda>w. bit w i"] by (simp add: bit_u128)
  qed
  moreover have "Hi x = Hi y"
  proof (rule bit_word_eqI)
    fix i assume "i < LENGTH(64)"
    show "bit (Hi x) i = bit (Hi y) i" using arg_cong [OF eq, of "\<lambda>w. bit w (i + 64)"] by (simp add: bit_u128)
  qed
  ultimately show ?thesis by (cases x, cases y) simp
qed

lemma u128_eq_iff [simp]: "u128 x = u128 y \<longleftrightarrow> x = y"
  using u128_inj by blast

lemma uint_ucast_128: "uint (ucast (w::u64) :: 128 word) = uint w"
  by (simp add: uint_up_ucast is_up)

lemma uint_u128: "uint (u128 x) = uint (Lo x) + 2 ^ 64 * uint (Hi x)"
proof -
  have disj: "(ucast (Lo x) :: 128 word) AND push_bit 64 (ucast (Hi x)) = 0"
    by (rule bit_word_eqI) (auto simp: bit_and_iff bit_ucast_iff bit_push_bit_iff dest: bit_imp_le_length)
  have hi: "uint (push_bit 64 (ucast (Hi x) :: 128 word)) = 2 ^ 64 * uint (Hi x)"
  proof -
    have "2 ^ 64 * uint (Hi x) < 2 ^ 128" using uint_bounded [of "Hi x"] by simp
    then show ?thesis
      unfolding unsigned_push_bit_eq
      by (simp add: push_bit_eq_mult take_bit_int_eq_self uint_ucast_128 mult.commute)
  qed
  have "u128 x = ucast (Lo x) + push_bit 64 (ucast (Hi x))"
    unfolding u128_def by (rule disjunctive_add_eq_or [OF disj, symmetric])
  moreover have "uint (ucast (Lo x) :: 128 word) + uint (push_bit 64 (ucast (Hi x) :: 128 word)) < 2 ^ 128"
    using uint_bounded [of "Lo x"] uint_bounded [of "Hi x"] unfolding hi by (simp add: uint_ucast_128)
  ultimately show ?thesis
    using hi by (simp add: uint_word_ariths uint_ucast_128)
qed

lemma uint_u128_Uint128: "uint (u128 (Uint128 lo hi)) = uint lo + 2 ^ 64 * uint hi"
  by (simp add: uint_u128)

text \<open>Two lanes with a carry between them: the arithmetic all the ring operations share.\<close>

lemma lanes:
  assumes "uint lo = n mod 2 ^ 64" and "uint hi = (m + n div 2 ^ 64) mod 2 ^ 64"
  shows "uint (u128 (Uint128 lo hi)) = (n + 2 ^ 64 * m) mod 2 ^ 128"
proof -
  have B: "(2::int) ^ 128 = 2 ^ 64 * 2 ^ 64" by simp
  have "(n + 2 ^ 64 * m) mod 2 ^ 128
      = 2 ^ 64 * ((n + 2 ^ 64 * m) div 2 ^ 64 mod 2 ^ 64) + (n + 2 ^ 64 * m) mod 2 ^ 64"
    unfolding B by (rule zmod_zmult2_eq) simp
  then show ?thesis unfolding uint_u128_Uint128 assms by (simp add: add.commute)
qed

lemma unat_word_of_nat128: "n < 2 ^ 128 \<Longrightarrow> unat (word_of_nat n :: 128 word) = n"
  by (simp add: unsigned_of_nat take_bit_nat_eq_self_iff)

lemma unat_word_of_nat64: "n < 2 ^ 64 \<Longrightarrow> unat (word_of_nat n :: u64) = n"
  by (simp add: unsigned_of_nat take_bit_nat_eq_self_iff)

lemma uint_word_of_nat64: "uint (word_of_nat n :: u64) = int n mod 2 ^ 64"
  by (simp add: unsigned_of_nat take_bit_eq_mod zmod_int)

lemma uint_0_le_1: "uint (0 :: u64) \<le> 1"
  by simp

lemma bits_Add64_lanes:
  assumes "bits_Add64 x y c = (s, k)" and "uint c \<le> 1"
  shows "uint s = (uint x + uint y + uint c) mod 2 ^ 64"
    and "uint k = (uint x + uint y + uint c) div 2 ^ 64" and "uint k \<le> 1"
proof -
  have n: "int (unat x + unat y + unat c) = uint x + uint y + uint c" by simp
  have "uint x + uint y + uint c < 2 * 2 ^ 64"
    using uint_bounded [of x] uint_bounded [of y] assms(2) by simp
  then have k: "(uint x + uint y + uint c) div 2 ^ 64 \<le> 1" "0 \<le> (uint x + uint y + uint c) div 2 ^ 64"
    using zdiv_mono1 [of "uint x + uint y + uint c" "2 * 2 ^ 64 - 1" "2 ^ 64"]
    by (simp_all add: pos_imp_zdiv_nonneg_iff)
  show "uint s = (uint x + uint y + uint c) mod 2 ^ 64"
    using assms(1) by (auto simp: bits_Add64_def Let_def uint_word_ariths mod_simps)
  show "uint k = (uint x + uint y + uint c) div 2 ^ 64"
    using assms(1) n k by (auto simp: bits_Add64_def Let_def uint_word_of_nat64 zdiv_int)
  with k show "uint k \<le> 1" by simp
qed

lemma borrow_div:
  fixes d B :: int
  assumes "- B \<le> d" and "d < B"
  shows "d div B = (if d < 0 then -1 else 0)"
proof (cases "d < 0")
  case True
  have "d div B = -1" by (rule int_div_pos_eq [of d B "-1" "d + B"]) (use assms True in simp_all)
  then show ?thesis using True by simp
next
  case False
  then have "d div B = 0" using assms by (intro div_pos_pos_trivial) simp_all
  then show ?thesis using False by simp
qed

lemma bits_Sub64_lanes:
  assumes "bits_Sub64 x y b = (d, k)" and "uint b \<le> 1"
  shows "uint d = (uint x - uint y - uint b) mod 2 ^ 64"
    and "- uint k = (uint x - uint y - uint b) div 2 ^ 64" and "uint k \<le> 1"
proof -
  show "uint d = (uint x - uint y - uint b) mod 2 ^ 64"
    using assms(1) by (auto simp: bits_Sub64_def uint_word_ariths mod_simps)
  have b: "uint x < 2 ^ 64" "uint y < 2 ^ 64" "0 \<le> uint x" "0 \<le> uint y" "0 \<le> uint b"
    using uint_bounded [of x] uint_bounded [of y] by simp_all
  have "unat x < unat y + unat b \<longleftrightarrow> int (unat x) < int (unat y + unat b)" by (rule of_nat_less_iff [symmetric])
  then have lt: "unat x < unat y + unat b \<longleftrightarrow> uint x - uint y - uint b < 0" by simp linarith
  have "(uint x - uint y - uint b) div 2 ^ 64 = (if uint x - uint y - uint b < 0 then -1 else 0)"
    by (rule borrow_div) (use b assms(2) in linarith)+
  then show "- uint k = (uint x - uint y - uint b) div 2 ^ 64"
    using assms(1) unfolding lt [symmetric] by (auto simp: bits_Sub64_def)
  show "uint k \<le> 1" using assms(1) by (auto simp: bits_Sub64_def)
qed

lemma u128_Add: "u128 (Uint128_Add x y) = u128 x + u128 y"
proof -
  obtain lo c where lo: "bits_Add64 (Lo x) (Lo y) 0 = (lo, c)" by fastforce
  obtain hi k where hi: "bits_Add64 (Hi x) (Hi y) c = (hi, k)" by fastforce
  note l = bits_Add64_lanes [OF lo] and h = bits_Add64_lanes(1) [OF hi]
  have "uint (u128 (Uint128 lo hi))
      = ((uint (Lo x) + uint (Lo y)) + 2 ^ 64 * (uint (Hi x) + uint (Hi y))) mod 2 ^ 128"
    by (rule lanes) (use l h in simp_all)
  moreover have "Uint128_Add x y = Uint128 lo hi" by (simp add: Uint128_Add_def lo hi)
  ultimately have "uint (u128 (Uint128_Add x y)) = uint (u128 x + u128 y)"
    by (simp add: uint_word_ariths uint_u128 algebra_simps)
  then show ?thesis by (simp only: word_uint_eq_iff)
qed

lemma u128_Sub: "u128 (Uint128_Sub x y) = u128 x - u128 y"
proof -
  obtain lo b where lo: "bits_Sub64 (Lo x) (Lo y) 0 = (lo, b)" by fastforce
  obtain hi k where hi: "bits_Sub64 (Hi x) (Hi y) b = (hi, k)" by fastforce
  note l = bits_Sub64_lanes [OF lo]
  have h: "uint hi = (uint (Hi x) - uint (Hi y) + - uint b) mod 2 ^ 64"
    using bits_Sub64_lanes(1) [OF hi] l(3) [OF uint_0_le_1] by simp
  have "uint (u128 (Uint128 lo hi))
      = ((uint (Lo x) - uint (Lo y)) + 2 ^ 64 * (uint (Hi x) - uint (Hi y))) mod 2 ^ 128"
    by (rule lanes) (use l(1) h [unfolded l(2) [OF uint_0_le_1]] in simp_all)
  moreover have "Uint128_Sub x y = Uint128 lo hi" by (simp add: Uint128_Sub_def lo hi)
  ultimately have "uint (u128 (Uint128_Sub x y)) = uint (u128 x - u128 y)"
    by (simp add: uint_word_ariths uint_u128 algebra_simps)
  then show ?thesis by (simp only: word_uint_eq_iff)
qed

lemma u128_Mul: "u128 (Uint128_Mul x y) = u128 x * u128 y"
proof -
  obtain hi lo where m: "bits_Mul64 (Lo x) (Lo y) = (hi, lo)" by fastforce
  define n where "n = uint (Lo x) * uint (Lo y)"
  then have n: "int (unat (Lo x) * unat (Lo y)) = n" by simp
  have h: "uint hi = (n div 2 ^ 64) mod 2 ^ 64" and lo: "uint lo = n mod 2 ^ 64"
    using m n by (auto simp: bits_Mul64_def Let_def uint_word_of_nat64 zdiv_int uint_word_ariths)
  have hi: "uint (hi + (Lo x * Hi y + Hi x * Lo y))
      = ((uint (Lo x) * uint (Hi y) + uint (Hi x) * uint (Lo y)) + n div 2 ^ 64) mod 2 ^ 64"
    unfolding uint_word_ariths h by (simp add: mod_simps add.commute)
  from lo hi have "uint (u128 (Uint128 lo (hi + (Lo x * Hi y + Hi x * Lo y))))
      = (n + 2 ^ 64 * (uint (Lo x) * uint (Hi y) + uint (Hi x) * uint (Lo y))) mod 2 ^ 128"
    by (rule lanes)
  also have "\<dots> = (n + 2 ^ 64 * (uint (Lo x) * uint (Hi y) + uint (Hi x) * uint (Lo y))
      + 2 ^ 128 * (uint (Hi x) * uint (Hi y))) mod 2 ^ 128"
    by (rule mod_mult_self2 [symmetric])
  also have "\<dots> = uint (u128 x * u128 y)"
    by (simp add: uint_word_ariths uint_u128 n_def algebra_simps)
  finally have "uint (u128 (Uint128_Mul x y)) = uint (u128 x * u128 y)"
    by (simp add: Uint128_Mul_def m)
  then show ?thesis by (simp only: word_uint_eq_iff)
qed

section \<open>Bitwise operations, shifts, length and order\<close>

lemma u128_Not: "u128 (Uint128_Not x) = NOT (u128 x)"
  by (rule bit_word_eqI) (auto simp: bit_u128 Uint128_Not_def bit_not_iff)

lemma u128_And: "u128 (Uint128_And x y) = u128 x AND u128 y"
  by (rule bit_word_eqI) (auto simp: bit_u128 Uint128_And_def bit_and_iff)

lemma u128_Or: "u128 (Uint128_Or x y) = u128 x OR u128 y"
  by (rule bit_word_eqI) (auto simp: bit_u128 Uint128_Or_def bit_or_iff)

lemma u128_Xor: "u128 (Uint128_Xor x y) = u128 x XOR u128 y"
  by (rule bit_word_eqI) (auto simp: bit_u128 Uint128_Xor_def bit_xor_iff)

lemma u128_zero [simp]: "u128 (Uint128 0 0) = 0"
  by (rule bit_word_eqI) (simp add: bit_u128)

lemma u128_From64 [simp]: "u128 (Uint128 w 0) = ucast w"
  by (simp add: u128_def)

lemma u128_Neg: "u128 (Uint128_Neg x) = - u128 x"
  by (simp add: Uint128_Neg_def u128_Sub)

lemma IsZero_iff [simp]: "Uint128_IsZero x \<longleftrightarrow> u128 x = 0"
  using u128_eq_iff [of x "Uint128 0 0"] unfolding u128_zero by (simp add: Uint128_IsZero_def)

lemma u128_Lsh: "u128 (Uint128_Lsh x n) = push_bit n (u128 x)"
proof (rule bit_word_eqI)
  fix i assume i: "i < LENGTH(128)"
  have "i - 64 + (64 - n) = i - n" if "n < 64" "64 \<le> i" using that by simp
  then show "bit (u128 (Uint128_Lsh x n)) i \<longleftrightarrow> bit (push_bit n (u128 x)) i"
    using i bit_imp_le_length [of "Lo x" "i - n"]
    by (auto simp: bit_u128 Uint128_Lsh_def bit_or_iff bit_push_bit_iff bit_drop_bit_eq add.commute)
qed

lemma u128_Rsh: "u128 (Uint128_Rsh x n) = drop_bit n (u128 x)"
proof (rule bit_word_eqI)
  fix i assume i: "i < LENGTH(128)"
  have "n + i - 64 = i - (64 - n)" if "n < 64" using that by simp
  then show "bit (u128 (Uint128_Rsh x n)) i \<longleftrightarrow> bit (drop_bit n (u128 x)) i"
    using i bit_imp_le_length [of "Lo x" "n + i"] bit_imp_le_length [of "Hi x" "n + i - 64"]
    by (auto simp: bit_u128 Uint128_Rsh_def bit_or_iff bit_push_bit_iff bit_drop_bit_eq add.commute
        dest: bit_imp_le_length)
qed

lemma unat_u128: "unat (u128 x) = unat (Lo x) + 2 ^ 64 * unat (Hi x)"
proof -
  have "int (unat (u128 x)) = int (unat (Lo x) + 2 ^ 64 * unat (Hi x))" by (simp add: uint_u128)
  then show ?thesis by (simp only: of_nat_eq_iff)
qed

lemma u128_less_iff: "u128 x < u128 y \<longleftrightarrow> Hi x < Hi y \<or> Hi x = Hi y \<and> Lo x < Lo y"
proof -
  have l: "unat (Lo x) < 2 ^ 64" "unat (Lo y) < 2 ^ 64" using unsigned_less [of "Lo x"] unsigned_less [of "Lo y"] by simp_all
  have "unat (Lo x) + 2 ^ 64 * unat (Hi x) < unat (Lo y) + 2 ^ 64 * unat (Hi y)
      \<longleftrightarrow> unat (Hi x) < unat (Hi y) \<or> unat (Hi x) = unat (Hi y) \<and> unat (Lo x) < unat (Lo y)"
    using l by auto
  then show ?thesis unfolding word_less_nat_alt unat_u128 word_unat_eq_iff [of "Hi x"] .
qed

lemma u128_Cmp: "Uint128_Cmp x y = (if u128 x < u128 y then -1 else if u128 x = u128 y then 0 else 1)"
  unfolding u128_less_iff u128_eq_iff Uint128_Cmp_def by (cases x; cases y) auto

lemma lane_bound: "(a::nat) < B \<Longrightarrow> a + B * b < B * c \<longleftrightarrow> b < c"
proof
  assume "a < B" "b < c"
  then have "a + B * b < B * Suc b" by simp
  moreover have "B * Suc b \<le> B * c" by (rule mult_le_mono2) (use \<open>b < c\<close> in simp)
  ultimately show "a + B * b < B * c" by (rule less_le_trans)
next
  assume "a + B * b < B * c"
  then have "B * b < B * c" by linarith
  then show "b < c" by simp
qed

lemma u128_Len_le_iff: "Uint128_Len x \<le> k \<longleftrightarrow> unat (u128 x) < 2 ^ k"
proof (cases "Hi x = 0")
  case True
  then show ?thesis by (simp add: Uint128_Len_def unat_u128 Len_le_iff)
next
  case False
  have lo: "unat (Lo x) < 2 ^ 64" using unsigned_less [of "Lo x"] by simp
  have hi: "0 < unat (Hi x)" using False by (simp add: unat_gt_0)
  show ?thesis
  proof (cases "64 \<le> k")
    case True
    then obtain j where k: "k = 64 + j" by (auto simp: le_iff_add)
    have "unat (Lo x) + 2 ^ 64 * unat (Hi x) < 2 ^ 64 * 2 ^ j \<longleftrightarrow> unat (Hi x) < 2 ^ j"
      by (rule lane_bound [OF lo])
    then show ?thesis using False by (simp add: Uint128_Len_def Len_le_iff unat_u128 k power_add)
  next
    case short: False
    then have "2 ^ k \<le> (2 ^ 64 :: nat)" by (intro power_increasing) simp_all
    moreover have "(2 ^ 64 :: nat) \<le> unat (Lo x) + 2 ^ 64 * unat (Hi x)" using hi by simp
    ultimately have "\<not> unat (u128 x) < 2 ^ k" unfolding unat_u128 by linarith
    then show ?thesis using False short by (simp add: Uint128_Len_def)
  qed
qed

section \<open>Division\<close>

text \<open>
  One turn of the shift subtract loop, on natural numbers: \<open>D\<close> is the dividend's top part
  before the turn, \<open>b\<close> the next bit of the dividend.
\<close>

lemma divmod_turn:
  fixes D Y b :: nat
  assumes "0 < Y" and "b \<le> 1"
  defines "r \<equiv> 2 * (D mod Y) + b"
  shows "(2 * D + b) div Y = 2 * (D div Y) + (if Y \<le> r then 1 else 0)"
    and "(2 * D + b) mod Y = (if Y \<le> r then r - Y else r)"
proof -
  have "D mod Y < Y" using assms(1) by simp
  then have r: "r < 2 * Y" unfolding r_def using assms(2) by linarith
  have e: "2 * D + b = r + Y * (2 * (D div Y))"
    unfolding r_def using mult_div_mod_eq [of Y D] by (metis add.assoc add.commute distrib_left mult.left_commute)
  have rd: "r div Y = (if Y \<le> r then 1 else 0)" and rm: "r mod Y = (if Y \<le> r then r - Y else r)"
    using r assms(1) by (auto simp: div_nat_eqI le_mod_geq)
  show "(2 * D + b) div Y = 2 * (D div Y) + (if Y \<le> r then 1 else 0)"
    unfolding e using assms(1) rd by simp
  show "(2 * D + b) mod Y = (if Y \<le> r then r - Y else r)"
    unfolding e using rm by simp
qed

lemma div_next_bit: "X div 2 ^ i = 2 * (X div 2 ^ Suc i) + X div 2 ^ i mod (2::nat)"
  by (metis div_mult2_eq mult.commute power_Suc mult_div_mod_eq)

lemma DivMod_loop_ok:
  assumes "0 < unat (u128 y)" and "unat (u128 x) < 2 ^ 128"
    and "unat (u128 r) = unat (u128 x) div 2 ^ i mod unat (u128 y)"
    and "unat (u128 q) = unat (u128 x) div 2 ^ i div unat (u128 y) * 2 ^ i"
    and "DivMod_loop x y i (q, r) = (q', r')"
  shows "unat (u128 q') = unat (u128 x) div unat (u128 y) \<and> unat (u128 r') = unat (u128 x) mod unat (u128 y)"
  using assms
proof (induction i arbitrary: q r)
  case 0
  then show ?case by simp
next
  case (Suc i)
  define X where "X = unat (u128 x)"
  define Y where "Y = unat (u128 y)"
  define D where "D = X div 2 ^ Suc i"
  define b where "b = X div 2 ^ i mod 2"
  define s where "s = Uint128 (Lo (Uint128_Lsh r 1) OR (Lo (Uint128_Rsh x i) AND 1)) (Hi (Uint128_Lsh r 1))"
  have r: "unat (u128 r) = D mod Y" and q: "unat (u128 q) = D div Y * 2 ^ Suc i"
    using Suc.prems unfolding X_def Y_def D_def by simp_all
  have b1: "b \<le> 1" unfolding b_def by simp
  have Y0: "0 < Y" using Suc.prems(1) by (simp add: Y_def)
  have turn: "X div 2 ^ i = 2 * D + b" unfolding D_def b_def by (rule div_next_bit)
  have X128: "X < 2 ^ 128" using Suc.prems(2) by (simp add: X_def)
  have le: "X div 2 ^ i \<le> X" by simp
  have "D mod Y \<le> D" by simp
  then have room: "2 * (D mod Y) + b < 2 ^ 128" using turn le X128 by linarith
  have s: "unat (u128 s) = 2 * (D mod Y) + b"
  proof -
    have "s = Uint128_Or (Uint128_Lsh r 1) (Uint128_And (Uint128_Rsh x i) (Uint128 1 0))"
      by (simp add: s_def Uint128_Or_def Uint128_And_def)
    then have "u128 s = push_bit 1 (u128 r) OR (drop_bit i (u128 x) AND 1)"
      by (simp add: u128_Or u128_Lsh u128_And u128_Rsh)
    also have "\<dots> = push_bit 1 (u128 r) + (drop_bit i (u128 x) AND 1)"
      by (rule disjunctive_add_eq_or [symmetric], rule bit_word_eqI)
        (auto simp: bit_and_iff bit_1_iff bit_0 intro!: gr0I)
    also have "push_bit 1 (u128 r) = word_of_nat (2 * (D mod Y))"
      using arg_cong [OF r, of "word_of_nat :: nat \<Rightarrow> 128 word"] by (simp add: push_bit_eq_mult)
    also have "drop_bit i (u128 x) AND 1 = word_of_nat b"
    proof -
      have take_bit_unat: "take_bit LENGTH(128) (unat (u128 x)) = unat (u128 x)"
        using Suc.prems(2) by (simp add: take_bit_nat_eq_self_iff)
      have "unat (drop_bit i (u128 x) AND 1) = b"
        unfolding unsigned_and_eq unsigned_drop_bit_eq take_bit_unat unsigned_1
        unfolding and_one_eq drop_bit_eq_div b_def X_def ..
      from arg_cong [OF this, of "word_of_nat :: nat \<Rightarrow> 128 word"] show ?thesis by simp
    qed
    finally have "u128 s = word_of_nat (2 * (D mod Y) + b)" by simp
    then show ?thesis using unat_word_of_nat128 [OF room] by simp
  qed
  have q2: "unat (u128 (Uint128_Or q (Uint128_Lsh (Uint128 1 0) i))) = (2 * (D div Y) + 1) * 2 ^ i"
    if big: "(2 * D + b) div Y = 2 * (D div Y) + 1"
  proof -
    have "(2 * (D div Y) + 1) * 2 ^ i \<le> (2 * D + b) * 2 ^ i"
      unfolding big [symmetric] by (intro mult_le_mono1) simp
    also have "\<dots> \<le> X" unfolding turn [symmetric] by simp
    finally have fit: "(2 * (D div Y) + 1) * 2 ^ i < 2 ^ 128" using X128 by linarith
    have "\<not> bit (u128 q) i"
    proof -
      have "\<not> bit (unat (u128 q)) i" unfolding q by (simp add: bit_iff_odd)
      then show ?thesis unfolding bit_unsigned_iff by simp
    qed
    then have "u128 q OR push_bit i 1 = u128 q + push_bit i 1"
      by (intro disjunctive_add_eq_or [symmetric] bit_word_eqI) (auto simp: bit_and_iff bit_exp_iff)
    also have "\<dots> = word_of_nat ((2 * (D div Y) + 1) * 2 ^ i)"
      using arg_cong [OF q, of "word_of_nat :: nat \<Rightarrow> 128 word"] by (simp add: push_bit_eq_mult algebra_simps)
    finally show ?thesis 
      using unat_word_of_nat128 [OF fit] by (simp add: u128_Or u128_Lsh)
  qed
  have sub: "unat (u128 (Uint128_Sub s y)) = 2 * (D mod Y) + b - Y" if "Y \<le> 2 * (D mod Y) + b"
    using that s unfolding u128_Sub Y_def by (subst unat_sub) (simp_all add: word_le_nat_alt)
  have cmp: "0 \<le> Uint128_Cmp s y \<longleftrightarrow> Y \<le> 2 * (D mod Y) + b"
    using s by (auto simp: u128_Cmp word_less_nat_alt Y_def simp flip: u128_eq_iff)
  have IH: "?case" if "unat (u128 r1) = X div 2 ^ i mod Y" and "unat (u128 q1) = X div 2 ^ i div Y * 2 ^ i"
    and "DivMod_loop x y i (q1, r1) = (q', r')" for q1 r1
    using Suc.IH [OF Suc.prems(1, 2), of r1 q1] that unfolding X_def Y_def by blast
  note step = divmod_turn [OF Y0 b1, of D]
  show ?case
  proof (cases "Y \<le> 2 * (D mod Y) + b")
    case True
    have "DivMod_loop x y i (Uint128_Or q (Uint128_Lsh (Uint128 1 0) i), Uint128_Sub s y) = (q', r')"
      using Suc.prems(5) True unfolding cmp [symmetric] by (simp add: Let_def s_def)
    moreover have "unat (u128 (Uint128_Sub s y)) = X div 2 ^ i mod Y"
      using True sub step unfolding turn by simp
    moreover have "(2 * D + b) div Y = 2 * (D div Y) + 1" using step(1) True by simp
    then have "unat (u128 (Uint128_Or q (Uint128_Lsh (Uint128 1 0) i))) = X div 2 ^ i div Y * 2 ^ i"
      using q2 unfolding turn by simp
    ultimately show ?thesis by (intro IH)
  next
    case False
    have "DivMod_loop x y i (q, s) = (q', r')"
      using Suc.prems(5) False unfolding cmp [symmetric] by (simp add: Let_def s_def)
    moreover have "unat (u128 s) = X div 2 ^ i mod Y" using False s step unfolding turn by simp
    moreover have "unat (u128 q) = X div 2 ^ i div Y * 2 ^ i" using False q step unfolding turn by simp
    ultimately show ?thesis by (intro IH)
  qed
qed

text \<open>
  Division never panics, and is the division of the native type except at a zero divisor, where
  HOL's remainder is the dividend and the code's is zero.
\<close>

lemma Uint128_DivMod_ok:
  "\<exists>q r. Uint128_DivMod x y = Inr (q, r)
    \<and> (u128 y = 0 \<longrightarrow> q = Uint128 0 0 \<and> r = Uint128 0 0)
    \<and> (u128 y \<noteq> 0 \<longrightarrow> u128 q = u128 x div u128 y \<and> u128 r = u128 x mod u128 y)"
proof (cases "u128 y = 0")
  case True
  then show ?thesis by (simp add: Uint128_DivMod_def)
next
  case y0: False
  then have y0': "0 < unat (u128 y)" by (simp add: unat_gt_0)
  have native: "u128 q = u128 x div u128 y \<and> u128 r = u128 x mod u128 y"
    if "unat (u128 q) = unat (u128 x) div unat (u128 y)" and "unat (u128 r) = unat (u128 x) mod unat (u128 y)" for q r
    unfolding word_unat_eq_iff [of "u128 _"] unat_div unat_mod using that by blast
  consider (small) "Hi x = 0" "Hi y = 0" | (middle) "Hi x \<noteq> 0" "Hi y = 0" "Hi x < Lo y"
    | (large) "\<not> (Hi x = 0 \<and> Hi y = 0)" "\<not> (Hi y = 0 \<and> Hi x < Lo y)" by blast
  then show ?thesis
  proof cases
    case small
    have "u128 (Uint128 (Lo x div Lo y) 0) = u128 x div u128 y \<and> u128 (Uint128 (Lo x mod Lo y) 0) = u128 x mod u128 y"
      by (rule native) (use small in \<open>simp_all add: unat_u128 unat_div unat_mod del: u128_From64\<close>)
    then show ?thesis using small y0 by (simp add: Uint128_DivMod_def)
  next
    case middle
    define n where "n = unat (Hi x) * 2 ^ 64 + unat (Lo x)"
    have n: "n = unat (u128 x)" by (simp add: n_def unat_u128)
    have Y: "unat (u128 y) = unat (Lo y)" using middle by (simp add: unat_u128)
    have lo: "unat (Lo x) < 2 ^ 64" using unsigned_less [of "Lo x", where 'a = nat] by simp
    have "unat (Hi x) < unat (Lo y)" using middle(3) by (simp add: word_less_nat_alt)
    then have "unat (u128 x) < 2 ^ 64 * unat (Lo y)" unfolding unat_u128 using lane_bound [OF lo] by blast
    then have q: "n div unat (Lo y) < 2 ^ 64" unfolding n by (rule less_mult_imp_div_less)
    have "n mod unat (Lo y) < unat (Lo y)" using y0' unfolding Y by simp
    then have r: "n mod unat (Lo y) < 2 ^ 64" using unsigned_less [of "Lo y", where 'a = nat] by simp
    have halves: "unat (word_of_nat (n div unat (Lo y)) :: u64) = n div unat (Lo y)"
      "unat (word_of_nat (n mod unat (Lo y)) :: u64) = n mod unat (Lo y)"
      using q r by (simp_all only: unat_word_of_nat64)
    have "Uint128_DivMod x y = Inr (Uint128 (word_of_nat (n div unat (Lo y))) 0, Uint128 (word_of_nat (n mod unat (Lo y))) 0)"
      using middle y0 unfolding Uint128_DivMod_def bits_Div64_def by (simp add: n_def Let_def)
    moreover have "u128 (Uint128 (word_of_nat (n div unat (Lo y))) 0) = u128 x div u128 y
        \<and> u128 (Uint128 (word_of_nat (n mod unat (Lo y))) 0) = u128 x mod u128 y"
      by (rule native) (use halves Y n in \<open>simp_all add: unat_u128 [of "Uint128 _ _"] del: u128_From64\<close>)
    ultimately show ?thesis using y0 by blast
  next
    case large
    obtain q r where run: "DivMod_loop x y (Uint128_Len x) (Uint128 0 0, Uint128 0 0) = (q, r)" by fastforce
    have "unat (u128 x) < 2 ^ Uint128_Len x" using u128_Len_le_iff [of x "Uint128_Len x"] by simp
    then have "unat (u128 q) = unat (u128 x) div unat (u128 y) \<and> unat (u128 r) = unat (u128 x) mod unat (u128 y)"
      using unsigned_less [of "u128 x", where 'a = nat] by (intro DivMod_loop_ok [OF y0' _ _ _ run]) simp_all
    then have "u128 q = u128 x div u128 y \<and> u128 r = u128 x mod u128 y" using native by blast
    moreover have "Uint128_DivMod x y = Inr (q, r)"
      using large y0 run unfolding Uint128_DivMod_def by (simp only: IsZero_iff if_False)
    ultimately show ?thesis using y0 by blast
  qed
qed

section \<open>The signed pair\<close>

lemma i128_simps [simp]:
  "i128 (Uint128_Int128 a) = u128 a" "u128 (Int128_Uint128 x) = i128 x"
  by (simp_all add: i128_def Int128_Uint128_def Uint128_Int128_def)

lemma i128_Int128: "i128 (Int128 lo hi) = u128 (Uint128 lo hi)"
  by (simp add: i128_def Int128_Uint128_def)

lemma bit_i128: "bit (i128 x) i \<longleftrightarrow> (if i < 64 then bit (ILo x) i else bit (IHi x) (i - 64))"
  by (simp add: i128_def bit_u128 Int128_Uint128_def)

lemma i128_eq_iff [simp]: "i128 x = i128 y \<longleftrightarrow> x = y"
  by (cases x; cases y) (simp add: i128_Int128)

lemma i128_ring:
  "i128 (Int128_Add x y) = i128 x + i128 y"
  "i128 (Int128_Sub x y) = i128 x - i128 y"
  "i128 (Int128_Mul x y) = i128 x * i128 y"
  "i128 (Int128_Neg x) = - i128 x"
  by (simp_all add: Int128_Add_def Int128_Sub_def Int128_Mul_def Int128_Neg_def u128_Add u128_Sub u128_Mul u128_Neg)

lemma i128_bitwise:
  "i128 (Int128_Not x) = NOT (i128 x)"
  "i128 (Int128_And x y) = i128 x AND i128 y"
  "i128 (Int128_Or x y) = i128 x OR i128 y"
  "i128 (Int128_Xor x y) = i128 x XOR i128 y"
  "i128 (Int128_Lsh x n) = push_bit n (i128 x)"
  by (simp_all add: Int128_Not_def Int128_And_def Int128_Or_def Int128_Xor_def Int128_Lsh_def
      u128_Not u128_And u128_Or u128_Xor u128_Lsh)

lemma sint_uint_msb: "sint (w :: 'a::len word) = uint w - 2 ^ LENGTH('a) * of_bool (bit w (LENGTH('a) - 1))"
  unfolding sint_uint signed_take_bit_eq_take_bit_minus
  by (simp add: bit_unsigned_iff take_bit_int_eq_self uint_bounded)

lemma sint_less_0_iff: "sint (w :: 'a::len word) < 0 \<longleftrightarrow> bit w (LENGTH('a) - 1)"
  using bit_last_iff [of w] by simp

lemma sint_i128: "sint (i128 x) = uint (ILo x) + 2 ^ 64 * sint (IHi x)"
proof -
  have "uint (i128 x) = uint (ILo x) + 2 ^ 64 * uint (IHi x)"
    by (simp add: i128_def uint_u128 Int128_Uint128_def)
  then show ?thesis unfolding sint_uint_msb by (simp add: bit_i128 algebra_simps)
qed

lemma word_sless_0_iff: "(w :: 'a::len word) <s 0 \<longleftrightarrow> bit w (LENGTH('a) - 1)"
  by (simp add: word_sless_alt bit_last_iff)

lemma drop_bit_top: "drop_bit 63 (w :: u64) = 0 \<longleftrightarrow> \<not> bit w 63"
  using drop_bit_eq_zero_iff_not_bit_last [of w] by simp

lemma IsNegative_iff: "Int128_IsNegative x \<longleftrightarrow> i128 x <s 0"
  by (simp add: Int128_IsNegative_def drop_bit_top word_sless_0_iff bit_i128)

lemma lane_less:
  fixes a b s t :: int
  assumes "0 \<le> a" "a < 2 ^ 64" "0 \<le> b" "b < 2 ^ 64"
  shows "a + 2 ^ 64 * s < b + 2 ^ 64 * t \<longleftrightarrow> s < t \<or> s = t \<and> a < b"
  using assms by auto

lemma i128_sless_iff: "i128 x <s i128 y \<longleftrightarrow> IHi x <s IHi y \<or> IHi x = IHi y \<and> ILo x < ILo y"
proof -
  have lo: "0 \<le> uint (ILo x)" "uint (ILo x) < 2 ^ 64" "0 \<le> uint (ILo y)" "uint (ILo y) < 2 ^ 64"
    using uint_bounded [of "ILo x"] uint_bounded [of "ILo y"] by simp_all
  have "uint (ILo x) + 2 ^ 64 * sint (IHi x) < uint (ILo y) + 2 ^ 64 * sint (IHi y)
      \<longleftrightarrow> sint (IHi x) < sint (IHi y) \<or> sint (IHi x) = sint (IHi y) \<and> uint (ILo x) < uint (ILo y)"
    by (rule lane_less) (fact lo)+
  moreover have "sint (IHi x) = sint (IHi y) \<longleftrightarrow> IHi x = IHi y" by (auto intro: signed_word_eqI)
  ultimately show ?thesis unfolding word_sless_alt sint_i128 word_less_def by simp
qed

lemma i128_Cmp: "Int128_Cmp x y = (if i128 x <s i128 y then -1 else if i128 x = i128 y then 0 else 1)"
  unfolding i128_sless_iff i128_eq_iff Int128_Cmp_def by (cases x; cases y) auto

text \<open>The order of a type is the one its \<open>Cmp\<close> decides, so that the library's orders apply to them.\<close>

instantiation uint128 :: linorder
begin

definition less_eq_uint128 :: "uint128 \<Rightarrow> uint128 \<Rightarrow> bool" where "less_eq_uint128 x y \<longleftrightarrow> Uint128_Cmp x y \<le> 0"

definition less_uint128 :: "uint128 \<Rightarrow> uint128 \<Rightarrow> bool" where "less_uint128 x y \<longleftrightarrow> Uint128_Cmp x y < 0"

instance
proof
  fix x y z :: uint128
  have le: "a \<le> b \<longleftrightarrow> u128 a \<le> u128 b" and less: "a < b \<longleftrightarrow> u128 a < u128 b" for a b :: uint128
    using u128_inj [of a b] by (auto simp: less_eq_uint128_def less_uint128_def u128_Cmp simp del: u128_eq_iff)
  show "x < y \<longleftrightarrow> x \<le> y \<and> \<not> y \<le> x" "x \<le> x" "x \<le> y \<or> y \<le> x" unfolding le less by (rule less_le_not_le order_refl linear)+
  show "x \<le> y \<Longrightarrow> y \<le> z \<Longrightarrow> x \<le> z" unfolding le by (rule order_trans)
  show "x \<le> y \<Longrightarrow> y \<le> x \<Longrightarrow> x = y" unfolding le by (metis antisym u128_eq_iff)
qed

end

instantiation int128 :: linorder
begin

definition less_eq_int128 :: "int128 \<Rightarrow> int128 \<Rightarrow> bool" where "less_eq_int128 x y \<longleftrightarrow> Int128_Cmp x y \<le> 0"

definition less_int128 :: "int128 \<Rightarrow> int128 \<Rightarrow> bool" where "less_int128 x y \<longleftrightarrow> Int128_Cmp x y < 0"

instance
proof
  fix x y z :: int128
  have le: "a \<le> b \<longleftrightarrow> sint (i128 a) \<le> sint (i128 b)" and less: "a < b \<longleftrightarrow> sint (i128 a) < sint (i128 b)" for a b :: int128
    using signed_word_eqI [of "i128 a" "i128 b"]
    by (auto simp: less_eq_int128_def less_int128_def i128_Cmp word_sless_alt simp del: i128_eq_iff)
  show "x < y \<longleftrightarrow> x \<le> y \<and> \<not> y \<le> x" "x \<le> x" "x \<le> y \<or> y \<le> x" unfolding le less by (rule less_le_not_le order_refl linear)+
  show "x \<le> y \<Longrightarrow> y \<le> z \<Longrightarrow> x \<le> z" unfolding le by (rule order_trans)
  show "x \<le> y \<Longrightarrow> y \<le> x \<Longrightarrow> x = y" unfolding le by (metis antisym signed_word_eqI i128_eq_iff)
qed

end

lemma wide_order:
  "x \<le> y \<longleftrightarrow> u128 x \<le> u128 y" "x < y \<longleftrightarrow> u128 x < u128 y" for x y :: uint128
  using u128_inj [of x y] by (auto simp: less_eq_uint128_def less_uint128_def u128_Cmp simp del: u128_eq_iff)

lemma wide_signed_order:
  "x \<le> y \<longleftrightarrow> sint (i128 x) \<le> sint (i128 y)" "x < y \<longleftrightarrow> sint (i128 x) < sint (i128 y)" for x y :: int128
  using signed_word_eqI [of "i128 x" "i128 y"]
  by (auto simp: less_eq_int128_def less_int128_def i128_Cmp word_sless_alt simp del: i128_eq_iff)

lemma i128_From64: "i128 (Int128From64 w) = scast w"
proof (rule bit_word_eqI)
  fix i assume i: "i < LENGTH(128)"
  have "bit (i128 (Int128From64 w)) i \<longleftrightarrow> bit w (min 63 i)"
    using i by (cases "i < 63"; cases "i = 63")
      (auto simp: Int128From64_def i128_Int128 bit_u128 bit_not_iff word_sless_0_iff min_def)
  also have "\<dots> \<longleftrightarrow> bit (scast w :: 128 word) i" using i by (simp add: bit_signed_iff)
  finally show "bit (i128 (Int128From64 w)) i \<longleftrightarrow> bit (scast w :: 128 word) i" .
qed

lemma i128_Rsh: "i128 (Int128_Rsh x n) = signed_drop_bit n (i128 x)"
proof (rule bit_word_eqI)
  fix i assume i: "i < LENGTH(128)"
  have m1: "i128 (Int128From64 (-1)) = -1" by (simp add: i128_From64)
  have ones: "bit (u128 (Uint128_Not (Uint128 0 0))) j \<longleftrightarrow> j < 128" for j
    by (simp add: u128_Not bit_not_iff) 
  show "bit (i128 (Int128_Rsh x n)) i \<longleftrightarrow> bit (signed_drop_bit n (i128 x)) i"
    using i unfolding Int128_Rsh_def Let_def IsNegative_iff
    by (auto simp: m1 bit_signed_drop_bit_iff u128_Rsh u128_Or u128_Lsh bit_or_iff bit_drop_bit_eq bit_push_bit_iff ones
      word_sless_0_iff i128_Int128 dest: bit_imp_le_length)
qed

text \<open>Signed division truncates toward zero and takes the dividend's sign, as \<open>sdiv\<close> and \<open>smod\<close> do.\<close>

lemma uint_magnitude: "uint (if w <s 0 then - w else w) = \<bar>sint w\<bar>" for w :: "128 word"
proof (cases "w <s 0")
  case True
  then have s: "sint w = uint w - 2 ^ 128" by (simp add: sint_uint_msb word_sless_0_iff)
  have "w \<noteq> 0" using True by auto
  then have "0 < uint w" by (simp add: word_neq_0_conv word_less_def)
  moreover have "uint w < 2 ^ 128" using uint_bounded [of w] by simp
  ultimately have "(- uint w) mod 2 ^ 128 = 2 ^ 128 - uint w"
    by (simp add: zmod_zminus1_eq_if)
  then show ?thesis using True s \<open>uint w < 2 ^ 128\<close> by (simp add: uint_word_ariths)
next
  case False
  then show ?thesis by (simp add: sint_uint_msb word_sless_0_iff)
qed

lemma Int128_DivMod_zero: "i128 y = 0 \<Longrightarrow> Int128_DivMod x y = Inr (Int128 0 0, Int128 0 0)"
proof -
  assume y: "i128 y = 0"
  obtain q r where "Uint128_DivMod (if Int128_IsNegative x then Uint128_Neg (Int128_Uint128 x) else Int128_Uint128 x)
      (Int128_Uint128 y) = Inr (q, r)" "q = Uint128 0 0" "r = Uint128 0 0"
    using Uint128_DivMod_ok [of _ "Int128_Uint128 y"] y by fastforce
  moreover have "\<not> Int128_IsNegative y" using y by (simp add: IsNegative_iff)
  moreover have "Uint128_Neg (Uint128 0 0) = Uint128 0 0"
    by (simp add: u128_Neg flip: u128_eq_iff)
  ultimately show ?thesis by (simp add: Int128_DivMod_def Let_def Uint128_Int128_def)
qed

lemma Int128_DivMod_ok:
  assumes "i128 y \<noteq> 0"
  shows "\<exists>q r. Int128_DivMod x y = Inr (q, r)
    \<and> i128 q = word_of_int (sint (i128 x) sdiv sint (i128 y))
    \<and> i128 r = word_of_int (sint (i128 x) smod sint (i128 y))"
proof -
  define mx where "mx = (if Int128_IsNegative x then Uint128_Neg (Int128_Uint128 x) else Int128_Uint128 x)"
  define my where "my = (if Int128_IsNegative y then Uint128_Neg (Int128_Uint128 y) else Int128_Uint128 y)"
  have x: "uint (u128 mx) = \<bar>sint (i128 x)\<bar>" and y: "uint (u128 my) = \<bar>sint (i128 y)\<bar>"
    unfolding uint_magnitude [symmetric] mx_def my_def IsNegative_iff by (auto simp: u128_Neg)
  have "u128 my \<noteq> 0" using assms y by (metis abs_eq_0 signed_0 signed_word_eqI unsigned_0)
  then obtain q r where qr: "Uint128_DivMod mx my = Inr (q, r)" "u128 q = u128 mx div u128 my" "u128 r = u128 mx mod u128 my"
    using Uint128_DivMod_ok [of mx my] by blast
  define q' where "q' = Uint128_Int128 (if Int128_IsNegative x \<noteq> Int128_IsNegative y then Uint128_Neg q else q)"
  define r' where "r' = Uint128_Int128 (if Int128_IsNegative x then Uint128_Neg r else r)"
  have neg: "Int128_IsNegative z \<longleftrightarrow> sint (i128 z) < 0" for z
    by (simp add: IsNegative_iff word_sless_alt)
  have "u128 q = word_of_int (\<bar>sint (i128 x)\<bar> div \<bar>sint (i128 y)\<bar>)"
    unfolding qr x [symmetric] y [symmetric] uint_div [symmetric] by simp
  then have "i128 q' = word_of_int (sint (i128 x) sdiv sint (i128 y))"
    unfolding q'_def neg signed_divide_int_def by (auto simp: u128_Neg sgn_if)
  moreover have "u128 r = word_of_int (\<bar>sint (i128 x)\<bar> mod \<bar>sint (i128 y)\<bar>)"
    unfolding qr x [symmetric] y [symmetric] uint_mod [symmetric] by simp
  then have "i128 r' = word_of_int (sint (i128 x) smod sint (i128 y))"
    unfolding r'_def neg signed_modulo_int_def by (auto simp: u128_Neg sgn_if)
  moreover have "Int128_DivMod x y = Inr (q', r')"
    by (simp add: Int128_DivMod_def qr(1) q'_def r'_def flip: mx_def my_def)
  ultimately show ?thesis by blast
qed

section \<open>Properties\<close>

lemma sint_wraps: "v = word_of_int k \<Longrightarrow> sint (v :: 128 word) = signed_take_bit 127 k"
  by (simp add: signed_of_int)

text \<open>
  C33. \<open>Uint128\<close> and \<open>Int128\<close> arithmetic is arithmetic modulo \<open>2 ^ 128\<close> on the two limbs read as one
  number: the carries, borrows and partial products of the limb code lose nothing.
\<close>

theorem wide_arithmetic:
  "uint (u128 (Uint128_Add x y)) = (uint (u128 x) + uint (u128 y)) mod 2 ^ 128
   \<and> uint (u128 (Uint128_Sub x y)) = (uint (u128 x) - uint (u128 y)) mod 2 ^ 128
   \<and> uint (u128 (Uint128_Mul x y)) = (uint (u128 x) * uint (u128 y)) mod 2 ^ 128
   \<and> uint (u128 (Uint128_Neg x)) = (- uint (u128 x)) mod 2 ^ 128
   \<and> sint (i128 (Int128_Add a b)) = signed_take_bit 127 (sint (i128 a) + sint (i128 b))
   \<and> sint (i128 (Int128_Sub a b)) = signed_take_bit 127 (sint (i128 a) - sint (i128 b))
   \<and> sint (i128 (Int128_Mul a b)) = signed_take_bit 127 (sint (i128 a) * sint (i128 b))
   \<and> sint (i128 (Int128_Neg a)) = signed_take_bit 127 (- sint (i128 a))"
  unfolding u128_Add u128_Sub u128_Mul u128_Neg i128_ring
  by (intro conjI sint_wraps) (simp_all add: uint_word_ariths)

text \<open>
  C34. Shifts and comparison of the 128 bit types: left shifts multiply modulo \<open>2 ^ 128\<close>, the unsigned
  right shift is the floor of division, the signed one too (it is arithmetic), at every shift
  count, those of 64 and of 128 and more included; \<open>Cmp\<close> is the sign of the difference.
\<close>

theorem wide_shifts_and_order:
  "uint (u128 (Uint128_Lsh x n)) = (uint (u128 x) * 2 ^ n) mod 2 ^ 128
   \<and> uint (u128 (Uint128_Rsh x n)) = uint (u128 x) div 2 ^ n
   \<and> sint (i128 (Int128_Lsh a n)) = signed_take_bit 127 (sint (i128 a) * 2 ^ n)
   \<and> sint (i128 (Int128_Rsh a n)) = sint (i128 a) div 2 ^ n
   \<and> Uint128_Cmp x y = sgn (uint (u128 x) - uint (u128 y))
   \<and> Int128_Cmp a b = sgn (sint (i128 a) - sint (i128 b))"
proof (intro conjI)
  show "uint (u128 (Uint128_Lsh x n)) = (uint (u128 x) * 2 ^ n) mod 2 ^ 128"
    unfolding u128_Lsh unsigned_push_bit_eq by (simp add: push_bit_eq_mult take_bit_eq_mod)
  show "uint (u128 (Uint128_Rsh x n)) = uint (u128 x) div 2 ^ n"
    unfolding u128_Rsh unsigned_drop_bit_eq by (simp add: drop_bit_eq_div bintr_uint)
  have "i128 (Int128_Lsh a n) = push_bit n (i128 a)"
    by (simp add: Int128_Lsh_def u128_Lsh)
  also have "\<dots> = word_of_int (sint (i128 a) * 2 ^ n)" unfolding push_bit_eq_mult by simp
  finally show "sint (i128 (Int128_Lsh a n)) = signed_take_bit 127 (sint (i128 a) * 2 ^ n)" by (rule sint_wraps)
  show "sint (i128 (Int128_Rsh a n)) = sint (i128 a) div 2 ^ n"
    unfolding i128_Rsh sint_signed_drop_bit_eq by (simp add: drop_bit_eq_div)
  show "Uint128_Cmp x y = sgn (uint (u128 x) - uint (u128 y))"
    unfolding u128_Cmp using word_uint_eqI [of "u128 x" "u128 y"] by (auto simp: word_less_def sgn_if simp del: u128_eq_iff)
  show "Int128_Cmp a b = sgn (sint (i128 a) - sint (i128 b))"
    unfolding i128_Cmp using signed_word_eqI [of "i128 a" "i128 b"] by (auto simp: word_sless_alt sgn_if simp del: i128_eq_iff)
qed

text \<open>
  C31. \<open>Uint128.DivMod\<close>, \<open>Div\<close> and \<open>Mod\<close> never panic (the hardware division inside is never asked
  for a quotient that overflows, the shift and subtract loop ends), and give the quotient and
  remainder of the two numbers; a zero divisor gives zero for both.
\<close>

theorem Uint128_division:
  "\<exists>q r. Uint128_DivMod x y = Inr (q, r) \<and> Uint128_Div x y = Inr q \<and> Uint128_Mod x y = Inr r
    \<and> (if uint (u128 y) = 0 then uint (u128 q) = 0 \<and> uint (u128 r) = 0
       else uint (u128 x) = uint (u128 q) * uint (u128 y) + uint (u128 r) \<and> uint (u128 r) < uint (u128 y))"
proof -
  obtain q r where qr: "Uint128_DivMod x y = Inr (q, r)"
    "u128 y = 0 \<longrightarrow> q = Uint128 0 0 \<and> r = Uint128 0 0"
    "u128 y \<noteq> 0 \<longrightarrow> u128 q = u128 x div u128 y \<and> u128 r = u128 x mod u128 y"
    using Uint128_DivMod_ok [of x y] by blast
  have zero: "uint (u128 y) = 0 \<longleftrightarrow> u128 y = 0" by (simp add: unsigned_eq_0_iff)
  have "uint (u128 y) = 0 \<or> 0 < uint (u128 y)" using unsigned_greater_eq [of "u128 y", where 'a = int] by linarith
  then show ?thesis
    using qr by (intro exI [of _ q] exI [of _ r])
      (auto simp: zero uint_div uint_mod Uint128_Div_def Uint128_Mod_def)
qed

lemma sint_of_int128: "- (2 ^ 127) \<le> k \<Longrightarrow> k < 2 ^ 127 \<Longrightarrow> sint (word_of_int k :: 128 word) = k"
  by (simp add: signed_of_int signed_take_bit_int_eq_self)

lemma smod_less: "b \<noteq> 0 \<Longrightarrow> \<bar>a smod b\<bar> < \<bar>b :: int\<bar>"
  by (simp add: signed_modulo_int_def abs_mult sgn_if)

lemma smod_sign: "a smod b = 0 \<or> sgn (a smod b) = sgn (a :: int)"
proof (cases "b = 0")
  case False
  then have "0 \<le> \<bar>a\<bar> mod \<bar>b\<bar>" by simp
  then show ?thesis by (auto simp: signed_modulo_int_def sgn_mult sgn_1_pos le_less)
qed (simp add: signed_modulo_int_def sgn_mult_abs)

lemma sdiv_bounds:
  assumes "b \<noteq> 0" and "- (2 ^ 127) \<le> a" and "a < (2 ^ 127 :: int)"
  shows "- (2 ^ 127) \<le> a sdiv b" and "\<not> (a = - (2 ^ 127) \<and> b = -1) \<Longrightarrow> a sdiv b < 2 ^ 127"
proof -
  have div_positive_abs: "0 \<le> \<bar>a\<bar> div \<bar>b\<bar>" for a b :: int by (cases "b = 0") (simp_all add: pos_imp_zdiv_nonneg_iff)
  have D: "a sdiv b = sgn a * sgn b * (\<bar>a\<bar> div \<bar>b\<bar>)" by (simp add: signed_divide_int_def sgn_mult)
  have abs: "\<bar>a sdiv b\<bar> \<le> \<bar>a\<bar> div \<bar>b\<bar>" unfolding D using div_positive_abs [of a b] by (auto simp: abs_mult abs_sgn_eq)
  have le: "\<bar>a\<bar> div \<bar>b\<bar> \<le> \<bar>a\<bar>" using zdiv_mono2 [of "\<bar>a\<bar>" 1 "\<bar>b\<bar>"] assms(1) by simp
  show "- (2 ^ 127) \<le> a sdiv b" using abs le assms(2,3) by linarith
  show "a sdiv b < 2 ^ 127" if "\<not> (a = - (2 ^ 127) \<and> b = -1)"
  proof (cases "\<bar>b\<bar> = 1")
    case True
    then have "a sdiv b = a * b" unfolding D by (auto simp: sgn_if abs_if)
    then show ?thesis using True that assms(2,3) by (auto simp: abs_if split: if_splits)
  next
    case False
    then have "2 \<le> \<bar>b\<bar>" using assms(1) by linarith
    then have "\<bar>a\<bar> div \<bar>b\<bar> \<le> \<bar>a\<bar> div 2" by (intro zdiv_mono2) auto
    then show ?thesis using abs assms(2,3) by linarith
  qed
qed

text \<open>The signed division by anything but zero.\<close>

lemma Int128_division_nonzero:
  assumes "sint (i128 y) \<noteq> 0"
  shows "\<exists>q r. Int128_DivMod x y = Inr (q, r) \<and> Int128_Div x y = Inr q \<and> Int128_Mod x y = Inr r
    \<and> \<bar>sint (i128 r)\<bar> < \<bar>sint (i128 y)\<bar> \<and> (sint (i128 r) = 0 \<or> sgn (sint (i128 r)) = sgn (sint (i128 x)))
    \<and> (if sint (i128 x) = - (2 ^ 127) \<and> sint (i128 y) = -1 then q = x \<and> sint (i128 r) = 0
       else sint (i128 x) = sint (i128 q) * sint (i128 y) + sint (i128 r))"
proof -
  define a b where "a = sint (i128 x)" and "b = sint (i128 y)"
  have "i128 y \<noteq> 0" and b0: "b \<noteq> 0" using assms by (auto simp: b_def)
  obtain q r where qr: "Int128_DivMod x y = Inr (q, r)" "i128 q = word_of_int (a sdiv b)" "i128 r = word_of_int (a smod b)"
    using Int128_DivMod_ok [OF \<open>i128 y \<noteq> 0\<close>, of x] unfolding a_def b_def by blast
  have ab: "- (2 ^ 127) \<le> a" "a < 2 ^ 127" "- (2 ^ 127) \<le> b" "b < 2 ^ 127"
    using sint_greater_eq [of "i128 x"] sint_less [of "i128 x"] sint_greater_eq [of "i128 y"] sint_less [of "i128 y"]
    by (simp_all add: a_def b_def)
  have r: "sint (i128 r) = a smod b"
    unfolding qr(3) using smod_less [OF b0, of a] ab(3,4) by (intro sint_of_int128) linarith+
  have div: "a = (a sdiv b) * b + a smod b"
    using sdiv_mult_smod_eq [of a b] by (simp add: mult.commute)
  have DM: "Int128_Div x y = Inr q" "Int128_Mod x y = Inr r" using qr(1) by (simp_all add: Int128_Div_def Int128_Mod_def)
  have "if a = - (2 ^ 127) \<and> b = -1 then q = x \<and> sint (i128 r) = 0 else a = sint (i128 q) * b + sint (i128 r)"
  proof (cases "a = - (2 ^ 127) \<and> b = -1")
    case True
    have "i128 q = word_of_int (- a)" unfolding qr(2) using True by (simp add: signed_divide_int_def)
    also have "\<dots> = word_of_int a" using True by simp
    also have "\<dots> = i128 x" by (simp add: a_def)
    finally have "q = x" unfolding i128_eq_iff .
    moreover have "a smod b = 0" using True by (simp add: signed_modulo_int_def)
    ultimately show ?thesis using True r by simp
  next
    case False
    have "sint (i128 q) = a sdiv b"
      unfolding qr(2) using sdiv_bounds [OF b0 ab(1,2)] False by (intro sint_of_int128) auto
    then show ?thesis using False div r by auto
  qed
  then show ?thesis
    using qr(1) DM r smod_less [OF b0, of a] smod_sign [of a b] unfolding a_def [symmetric] b_def [symmetric]
    by (intro exI [of _ q] exI [of _ r]) (simp only: simp_thms)
qed

text \<open>
  C32. \<open>Int128.DivMod\<close> never panics. Division by zero gives zero twice; any other truncates toward
  zero: dividend equals quotient times divisor plus remainder, the remainder is smaller than the divisor and
  has the dividend's sign. The one exception is the most negative number by minus one, whose quotient
  wraps to itself.
\<close>

theorem Int128_division:
  "\<exists>q r. Int128_DivMod x y = Inr (q, r) \<and> Int128_Div x y = Inr q \<and> Int128_Mod x y = Inr r
    \<and> (if sint (i128 y) = 0 then q = Int128 0 0 \<and> r = Int128 0 0
       else \<bar>sint (i128 r)\<bar> < \<bar>sint (i128 y)\<bar> \<and> (sint (i128 r) = 0 \<or> sgn (sint (i128 r)) = sgn (sint (i128 x)))
         \<and> (if sint (i128 x) = - (2 ^ 127) \<and> sint (i128 y) = -1 then q = x \<and> sint (i128 r) = 0
            else sint (i128 x) = sint (i128 q) * sint (i128 y) + sint (i128 r)))"
proof (cases "sint (i128 y) = 0")
  case True
  then have "i128 y = 0" by (metis signed_0 signed_word_eqI)
  then show ?thesis using Int128_DivMod_zero [of y x] True by (simp add: Int128_Div_def Int128_Mod_def)
next
  case False
  then show ?thesis using Int128_division_nonzero [of y x] by auto
qed

text \<open>Applied: truncation, and the one overflow.\<close>

theorem Int128_division_witness:
  "\<exists>q r. Int128_DivMod (Int128From64 (- 7)) (Int128From64 2) = Inr (q, r) \<and> \<bar>sint (i128 r)\<bar> < 2
    \<and> - 7 = sint (i128 q) * 2 + sint (i128 r)"
proof -
  have s: "sint (i128 (Int128From64 w)) = sint w" for w
    using sint_greater_eq [of w] sint_less [of w]
    by (simp add: i128_From64 signed_scast_eq signed_take_bit_int_eq_self)
  from Int128_division [of "Int128From64 (- 7)" "Int128From64 2"] show ?thesis unfolding s by auto
qed

end
