(* ===== verification/Serialize_Core.thy ===== *)
theory Serialize_Core
  imports Wide_Int
begin

text \<open>
  serialize.go: the closed list of refusals and the errors a stream latches, \<open>CopyString\<close>, the
  bit counts of a range and the zig-zag conversions. A Go \<open>error\<close> that is nil is \<open>None\<close>.
\<close>

section \<open>Refusals\<close>

type_synonym refusal = u8

definition ErrPastEnd :: refusal where "ErrPastEnd = 1"
definition ErrValueOutOfRange :: refusal where "ErrValueOutOfRange = 2"
definition ErrNonzeroPadding :: refusal where "ErrNonzeroPadding = 3"
definition ErrTrailingData :: refusal where "ErrTrailingData = 4"
definition ErrNonFiniteFloat :: refusal where "ErrNonFiniteFloat = 5"
definition ErrInvalidUTF8 :: refusal where "ErrInvalidUTF8 = 6"
definition ErrEmbeddedNul :: refusal where "ErrEmbeddedNul = 7"
definition ErrNonCanonical :: refusal where "ErrNonCanonical = 8"
definition ErrRejected :: refusal where "ErrRejected = 9"

lemmas refusal_defs = ErrPastEnd_def ErrValueOutOfRange_def ErrNonzeroPadding_def
  ErrTrailingData_def ErrNonFiniteFloat_def ErrInvalidUTF8_def ErrEmbeddedNul_def
  ErrNonCanonical_def ErrRejected_def

definition refusalNames :: "string list" where
  "refusalNames =
    [''none'', ''past_end'', ''value_out_of_range'', ''nonzero_padding'', ''trailing_data'',
     ''non_finite_float'', ''invalid_utf8'', ''embedded_nul'', ''non_canonical'', ''rejected'']"

definition Refusal_String :: "refusal \<Rightarrow> string" where
  "Refusal_String r = (if length refusalNames \<le> unat r then [] else refusalNames ! unat r)"

definition Refusal_Error :: "refusal \<Rightarrow> string" where
  "Refusal_Error r = ''serialize: '' @ Refusal_String r"

text \<open>
  The errors that can reach the library: its own two types, and errors of the caller, which
  have a text and unwrap to a list of errors (none, one as with \<open>fmt.Errorf\<close>, or several as
  with \<open>errors.Join\<close>). A caller's error type with an \<open>Is\<close> or \<open>As\<close> method of its own is not in
  the model.
\<close>

datatype go_error =
    ErrRefusal refusal
  | RejectedError go_error
  | CallerError string "go_error list"

fun error_text :: "go_error \<Rightarrow> string" where
  "error_text (ErrRefusal r) = Refusal_Error r"
| "error_text (RejectedError cause) = ''serialize: rejected: '' @ error_text cause"
| "error_text (CallerError t _) = t"

text \<open>\<open>errors.As\<close> with a \<open>*Refusal\<close> target, \<open>errors.Is\<close> with a \<open>Refusal\<close> target: depth first.\<close>

fun errors_As :: "go_error \<Rightarrow> refusal option"
  and errors_As_list :: "go_error list \<Rightarrow> refusal option" where
  "errors_As (ErrRefusal r) = Some r"
| "errors_As (RejectedError cause) = Some ErrRejected"
| "errors_As (CallerError _ es) = errors_As_list es"
| "errors_As_list [] = None"
| "errors_As_list (e # es) = (case errors_As e of Some r \<Rightarrow> Some r | None \<Rightarrow> errors_As_list es)"

fun errors_Is :: "go_error \<Rightarrow> refusal \<Rightarrow> bool"
  and errors_Is_list :: "go_error list \<Rightarrow> refusal \<Rightarrow> bool" where
  "errors_Is (ErrRefusal r) t \<longleftrightarrow> r = t"
| "errors_Is (RejectedError cause) t \<longleftrightarrow> t = ErrRejected \<or> errors_Is cause t"
| "errors_Is (CallerError _ es) t \<longleftrightarrow> errors_Is_list es t"
| "errors_Is_list [] t \<longleftrightarrow> False"
| "errors_Is_list (e # es) t \<longleftrightarrow> errors_Is e t \<or> errors_Is_list es t"

definition rejection :: "go_error \<Rightarrow> go_error" where
  "rejection err =
    (case errors_As err of
       Some refusal \<Rightarrow>
         if ErrPastEnd \<le> refusal \<and> refusal \<le> ErrRejected then ErrRefusal refusal
         else ErrRefusal ErrRejected
     | None \<Rightarrow> RejectedError err)"

definition RefusalName :: "go_error option \<Rightarrow> string" where
  "RefusalName err =
    (case err of
       None \<Rightarrow> refusalNames ! 0
     | Some e \<Rightarrow> (case errors_As e of Some refusal \<Rightarrow> Refusal_String refusal | None \<Rightarrow> []))"

definition closedRefusal :: "refusal \<Rightarrow> refusal" where
  "closedRefusal reason = (if reason < ErrPastEnd \<or> ErrRejected < reason then ErrRejected else reason)"

text \<open>The closed list, and what it means for an error to be one a stream may latch.\<close>

definition in_closed_list :: "refusal \<Rightarrow> bool" where
  "in_closed_list r \<longleftrightarrow> ErrPastEnd \<le> r \<and> r \<le> ErrRejected"

definition latchable :: "go_error \<Rightarrow> bool" where
  "latchable e = (case e of ErrRefusal r \<Rightarrow> in_closed_list r | RejectedError c \<Rightarrow> errors_As c = None | CallerError _ _ \<Rightarrow> False)"

lemma closedRefusal_closed: "in_closed_list (closedRefusal r)"
  by (auto simp: in_closed_list_def closedRefusal_def refusal_defs word_less_nat_alt word_le_nat_alt)

lemma closedRefusal_id: "in_closed_list r \<Longrightarrow> closedRefusal r = r"
  by (auto simp: in_closed_list_def closedRefusal_def not_less)

lemma library_refusals_closed [simp]:
  "in_closed_list ErrPastEnd" "in_closed_list ErrValueOutOfRange" "in_closed_list ErrNonzeroPadding"
  "in_closed_list ErrTrailingData" "in_closed_list ErrNonFiniteFloat" "in_closed_list ErrInvalidUTF8"
  "in_closed_list ErrEmbeddedNul" "in_closed_list ErrNonCanonical" "in_closed_list ErrRejected"
  by (simp_all add: in_closed_list_def refusal_defs)

lemma rejection_latchable: "latchable (rejection e)"
  by (simp add: rejection_def latchable_def in_closed_list_def [symmetric] split: option.split)

lemma closed_cases:
  "in_closed_list r \<Longrightarrow> \<exists>n. r = word_of_nat n \<and> 1 \<le> n \<and> n \<le> 9"
  by (rule exI [of _ "unat r"]) (simp add: in_closed_list_def refusal_defs word_le_nat_alt)

lemma Refusal_String_closed:
  assumes "in_closed_list r"
  shows "Refusal_String r \<in> set (tl refusalNames)"
proof -
  have "1 \<le> unat r" "unat r \<le> 9"
    using assms by (simp_all add: in_closed_list_def refusal_defs word_le_nat_alt)
  then have "unat r \<in> {1,2,3,4,5,6,7,8,9}" by auto
  then show ?thesis by (auto simp: Refusal_String_def refusalNames_def)
qed

lemma RefusalName_latchable:
  assumes "latchable e"
  shows "RefusalName (Some e) \<in> set (tl refusalNames)"
  using assms Refusal_String_closed by (cases e) (auto simp: latchable_def RefusalName_def)

lemma errors_As_Is: "errors_As e = Some r \<Longrightarrow> errors_Is e r"
  "errors_As_list es = Some r \<Longrightarrow> errors_Is_list es r"
  by (induction e and es rule: errors_As_errors_As_list.induct) (auto split: option.splits)

section \<open>CopyString\<close>

text \<open>
  The loop that gives bytes back while the first byte left out is a continuation byte; \<open>n\<close> is
  below the length of \<open>source\<close> on every turn, as \<open>CopyString\<close> checks the length first.
\<close>

primrec copy_back :: "u8 list \<Rightarrow> nat \<Rightarrow> nat" where
  "copy_back source 0 = 0"
| "copy_back source (Suc n) =
    (if source ! Suc n AND 0xC0 = 0x80 then copy_back source n else Suc n)"

definition CopyString :: "u8 list \<Rightarrow> int \<Rightarrow> u8 list res" where
  "CopyString source destSize =
    (if destSize < 1 then Inl PanicCopyStringDestSize
     else let nul = IndexByte source 0;
              source = (if 0 \<le> nul then take (nat nul) source else source)
          in if int (length source) \<le> destSize - 1 then Inr source
             else Inr (take (copy_back source (nat (destSize - 1))) source))"

section \<open>Bit counts and zig-zag\<close>

definition BitsRequired :: "u32 \<Rightarrow> u32 \<Rightarrow> nat" where
  "BitsRequired mn mx = (if mn = mx then 0 else Len (mx - mn))"

definition BitsRequired64 :: "u64 \<Rightarrow> u64 \<Rightarrow> nat" where
  "BitsRequired64 mn mx = (if mn = mx then 0 else Len (mx - mn))"

definition BitsRequired128 :: "uint128 \<Rightarrow> uint128 \<Rightarrow> nat" where
  "BitsRequired128 mn mx = (if mn = mx then 0 else Uint128_Len (Uint128_Sub mx mn))"

definition SignedToUnsigned :: "i32 \<Rightarrow> u32" where
  "SignedToUnsigned n = push_bit 1 n XOR (0 - drop_bit 31 n)"

definition UnsignedToSigned :: "u32 \<Rightarrow> i32" where
  "UnsignedToSigned n = drop_bit 1 n XOR (0 - (n AND 1))"

lemma BitsRequired_le [simp]: "BitsRequired a b \<le> 32"
  using Len_le_length [of "b - a"] by (simp add: BitsRequired_def)

lemma BitsRequired64_le [simp]: "BitsRequired64 a b \<le> 64"
  using Len_le_length [of "b - a"] by (simp add: BitsRequired64_def)

lemma BitsRequired_eq_Len: "BitsRequired a b = Len (b - a)"
  using Len_eq_0_iff [of "b - a"] by (auto simp: BitsRequired_def)

lemma BitsRequired64_eq_Len: "BitsRequired64 a b = Len (b - a)"
  using Len_eq_0_iff [of "b - a"] by (auto simp: BitsRequired64_def)

lemma BitsRequired128_le_iff: "BitsRequired128 a b \<le> k \<longleftrightarrow> unat (u128 b - u128 a) < 2 ^ k"
  by (simp add: BitsRequired128_def u128_Len_le_iff u128_Sub)

lemma BitsRequired128_le [simp]: "BitsRequired128 a b \<le> 128"
  using unsigned_less [of "u128 b - u128 a", where 'a = nat] by (simp add: BitsRequired128_le_iff)

lemma drop_bit_31: "drop_bit 31 (n :: u32) = of_bool (bit n 31)"
proof (rule bit_word_eqI)
  fix i assume "i < LENGTH(32)"
  show "bit (drop_bit 31 n) i \<longleftrightarrow> bit (of_bool (bit n 31)) i"
    using bit_imp_le_length [of n "31 + i"] by (cases i) (auto simp: bit_drop_bit_eq bit_1_iff)
qed

lemma SignedToUnsigned_sign: "SignedToUnsigned n = (if bit n 31 then NOT (push_bit 1 n) else push_bit 1 n)"
  by (simp add: SignedToUnsigned_def drop_bit_31)

lemma bit_SignedToUnsigned:
  "bit (SignedToUnsigned n) i \<longleftrightarrow> i < 32 \<and> ((0 < i \<and> bit n (i - 1)) \<noteq> bit n 31)"
proof -
  have "bit (push_bit 1 n) i \<longleftrightarrow> i < 32 \<and> 0 < i \<and> bit n (i - 1)"
    unfolding bit_push_bit_iff by (auto dest: bit_imp_le_length)
  then show ?thesis
    unfolding SignedToUnsigned_sign by (auto simp: bit_not_iff simp del: push_bit_Suc push_bit_of_1)
qed

lemma UnsignedToSigned_odd: "UnsignedToSigned n = (if bit n 0 then NOT (drop_bit 1 n) else drop_bit 1 n)"
  by (auto simp: UnsignedToSigned_def and_one_eq bit_0 mod2_eq_if not_eq_complement)

lemma bit_UnsignedToSigned: "bit (UnsignedToSigned n) i \<longleftrightarrow> i < 32 \<and> (bit n (Suc i) \<noteq> bit n 0)"
  by (auto simp: UnsignedToSigned_odd bit_not_iff bit_drop_bit_eq simp del: bit_0 drop_bit_Suc dest: bit_imp_le_length)

lemma zig_zag_inverse: "UnsignedToSigned (SignedToUnsigned n) = n"
proof (rule bit_word_eqI)
  fix i assume "i < LENGTH(32)"
  then show "bit (UnsignedToSigned (SignedToUnsigned n)) i \<longleftrightarrow> bit n i"
    by (cases "i = 31") (auto simp: bit_UnsignedToSigned bit_SignedToUnsigned simp del: bit_0)
qed

lemma zag_zig_inverse: "SignedToUnsigned (UnsignedToSigned n) = n"
proof (rule bit_word_eqI)
  fix i assume "i < LENGTH(32)"
  then show "bit (SignedToUnsigned (UnsignedToSigned n)) i \<longleftrightarrow> bit n i"
    using bit_imp_le_length [of n 32]
    by (cases i) (auto simp: bit_UnsignedToSigned bit_SignedToUnsigned simp del: bit_0)
qed

lemma uint_NOT32: "uint (NOT (w :: u32)) = 2 ^ 32 - 1 - uint w"
proof -
  have b: "0 \<le> uint w" "uint w < 2 ^ 32" using uint_bounded [of w] by simp_all
  have "uint (NOT w) = (- uint w - 1) mod 2 ^ 32"
    unfolding unsigned_not_eq unfolding take_bit_eq_mod not_eq_complement by simp
  also have "\<dots> = (- uint w - 1 + 2 ^ 32) mod 2 ^ 32" by (rule mod_add_self2 [symmetric])
  also have "\<dots> = - uint w - 1 + 2 ^ 32" using b by (intro mod_pos_pos_trivial) linarith+
  finally show ?thesis by simp
qed

lemma SignedToUnsigned_value:
  "uint (SignedToUnsigned n) = (if 0 \<le> sint n then 2 * sint n else - 2 * sint n - 1)"
proof -
  have b: "0 \<le> uint n" "uint n < 2 ^ 32" using uint_bounded [of n] by simp_all
  have sgn: "sint n < 0 \<longleftrightarrow> bit n 31" using sint_less_0_iff [of n] by simp
  have p: "uint (push_bit 1 n) = (2 * uint n) mod 2 ^ 32" by (simp add: uint_word_ariths mult.commute)
  show ?thesis
  proof (cases "bit n 31")
    case True
    then have s: "sint n = uint n - 2 ^ 32" by (simp add: sint_uint_msb)
    have "sint n \<ge> - (2 ^ 31)" using sint_greater_eq [of n] by simp
    then have "(2 * uint n - 2 ^ 32) mod 2 ^ 32 = 2 * uint n - 2 ^ 32" using s b
      by (intro mod_pos_pos_trivial) simp_all
    then have "(2 * uint n) mod 2 ^ 32 = 2 * uint n - 2 ^ 32" unfolding minus_mod_self2 .
    moreover have "uint (NOT (push_bit 1 n)) = 2 ^ 32 - 1 - uint (push_bit 1 n)" by (rule uint_NOT32)
    ultimately show ?thesis using True p s sgn by (simp add: SignedToUnsigned_sign)
  next
    case False
    then have s: "sint n = uint n" by (simp add: sint_uint_msb)
    have "sint n < 2 ^ 31" using sint_less [of n] by simp
    then have "(2 * uint n) mod 2 ^ 32 = 2 * uint n" using s b by (simp add: mod_pos_pos_trivial)
    then show ?thesis using False p s sgn by (simp add: SignedToUnsigned_sign)
  qed
qed

text \<open>The specification of \<open>CopyString\<close>: what it keeps of the text before the first NUL.\<close>

lemma and_C0: "b AND 0xC0 = 0x80 \<longleftrightarrow> utf8_cont (b :: u8)"
proof -
  have "b AND 0xC0 = push_bit 6 (drop_bit 6 b)"
  proof (rule bit_word_eqI)
    fix i assume "i < LENGTH(8)"
    then have "i = 0 \<or> i = 1 \<or> i = 2 \<or> i = 3 \<or> i = 4 \<or> i = 5 \<or> i = 6 \<or> i = 7" by auto
    then show "bit (b AND 0xC0) i \<longleftrightarrow> bit (push_bit 6 (drop_bit 6 b)) i"
      unfolding bit_and_iff bit_push_bit_iff bit_drop_bit_eq by (elim disjE) simp_all
  qed
  moreover have "unat (push_bit 6 (drop_bit 6 b)) = unat b div 64 * 64"
  proof -
    have "unat b < 256" using unsigned_less [of b, where 'a = nat] by simp
    then have "take_bit 8 (unat b) = unat b" "take_bit 8 (unat b div 64 * 64) = unat b div 64 * 64"
      using div_times_less_eq_dividend [of "unat b" 64] by (simp_all add: take_bit_nat_eq_self_iff del: div_times_less_eq_dividend)
    then show ?thesis
      unfolding unsigned_push_bit_eq unsigned_drop_bit_eq by (simp add: drop_bit_eq_div push_bit_eq_mult)
  qed
  ultimately have "unat (b AND 0xC0) = unat b div 64 * 64" by simp
  then have "b AND 0xC0 = 0x80 \<longleftrightarrow> unat b div 64 * 64 = 128" unfolding word_unat_eq_iff [of "b AND _"] by simp
  also have "\<dots> \<longleftrightarrow> unat b div 64 = 2" by simp
  also have "\<dots> \<longleftrightarrow> 128 \<le> unat b \<and> unat b \<le> 191" by (auto simp: div_nat_eqI dest: sym [of _ 2])
  finally show ?thesis by (simp add: utf8_cont_def word_le_nat_alt)
qed

lemma copy_back_ok:
  "copy_back s n \<le> n" "copy_back s n = 0 \<or> \<not> utf8_cont (s ! copy_back s n)"
  "copy_back s n < j \<Longrightarrow> j \<le> n \<Longrightarrow> utf8_cont (s ! j)"
  by (induction n) (auto simp: and_C0 le_Suc_eq split: if_splits)

lemma IndexByte_takeWhile:
  "(if 0 \<le> IndexByte s c then take (nat (IndexByte s c)) s else s) = takeWhile (\<lambda>b. b \<noteq> c) s"
proof (cases "c \<in> set s")
  case True
  then obtain j where "IndexByte s c = int j" "j < length s" "s ! j = c" "c \<notin> set (take j s)"
    using IndexByte_present by blast
  moreover have "takeWhile (\<lambda>b. b \<noteq> c) s = take j s"
  proof (rule takeWhile_eq_take_P_nth)
    fix i assume "i < j" and "i < length s"
    then have "s ! i \<in> set (take j s)" by (auto simp: in_set_conv_nth)
    then show "s ! i \<noteq> c" using \<open>c \<notin> set (take j s)\<close> by blast
  qed (use \<open>s ! j = c\<close> in simp)
  ultimately show ?thesis by simp
next
  case False
  then have "\<not> 0 \<le> IndexByte s c" using IndexByte_neg_iff [of s c] by linarith
  moreover have "takeWhile (\<lambda>b. b \<noteq> c) s = s" unfolding takeWhile_eq_all_conv using False by blast
  ultimately show ?thesis by (simp only: if_False)
qed

definition before_nul :: "u8 list \<Rightarrow> u8 list" where
  "before_nul source = takeWhile (\<lambda>b. b \<noteq> 0) source"

lemma CopyString_eq:
  assumes "1 \<le> destSize"
  shows "CopyString source destSize =
    Inr (if int (length (before_nul source)) \<le> destSize - 1 then before_nul source
         else take (copy_back (before_nul source) (nat (destSize - 1))) (before_nul source))"
proof -
  have "\<not> destSize < 1" using assms by simp
  then show ?thesis
    unfolding CopyString_def Let_def IndexByte_takeWhile [where c = 0] before_nul_def [symmetric]
    by (simp only: if_False split: if_split) blast
qed

text \<open>A NUL is no continuation byte, so the text before the first NUL is as well-formed as the whole.\<close>

lemma before_nul_valid:
  assumes "utf8_valid source"
  shows "utf8_valid (before_nul source)"
proof (cases "0 \<in> set source")
  case True
  define m where "m = length (before_nul source)"
  have split: "source = before_nul source @ dropWhile (\<lambda>b. b \<noteq> 0) source"
    unfolding before_nul_def by (rule takeWhile_dropWhile_id [symmetric])
  have ne: "dropWhile (\<lambda>b. b \<noteq> 0) source \<noteq> []" using True by (simp add: dropWhile_eq_Nil_conv)
  have hd0: "hd (dropWhile (\<lambda>b. b \<noteq> 0) source) = 0" using hd_dropWhile [OF ne] by simp
  then obtain r where r: "source = before_nul source @ 0 # r"
    using split ne by (cases "dropWhile (\<lambda>b. b \<noteq> 0) source") simp_all
  then have "source ! m = 0" and m: "m < length source" and t: "take m source = before_nul source"
    unfolding m_def by (metis nth_append_length, metis length_append less_add_same_cancel1 length_greater_0_conv list.distinct(1), metis append_eq_conv_conj)
  then have "\<not> utf8_cont (source ! m)" by (simp add: utf8_cont_def)
  then have "utf8_valid (take m source)" using utf8_valid_take assms m by blast
  then show ?thesis unfolding t .
next
  case False
  then have "before_nul source = source" unfolding before_nul_def takeWhile_eq_all_conv by blast
  then show ?thesis using assms by simp
qed

lemma before_nul_no_nul: "0 \<notin> set (before_nul source)"
  unfolding before_nul_def by (metis (mono_tags, lifting) set_takeWhileD)

text \<open>The cut the loop chooses is the longest well-formed prefix that fits.\<close>

lemma utf8_char_size: "0 < utf8_char s \<Longrightarrow> utf8_char s = utf8_size (hd s)"
  by (cases s) (auto simp: utf8_char_def Let_def split: if_splits)

lemma utf8_valid_append_cancel:
  "utf8_valid a \<Longrightarrow> utf8_valid (a @ b) \<Longrightarrow> utf8_valid b"
proof (induction a rule: utf8_valid.induct)
  case (1 a)
  show ?case
  proof (cases "a = []")
    case True
    then show ?thesis using "1.prems" by simp
  next
    case False
    define c where "c = utf8_char a"
    have c: "0 < c" "utf8_valid (drop c a)" using "1.prems"(1) utf8_valid_step [OF False] by (simp_all add: c_def)
    have "c \<le> length a" unfolding c_def by (rule utf8_char_le)
    have "0 < utf8_char (a @ b)" using "1.prems"(2) utf8_valid_step [of "a @ b"] False by simp
    then have "utf8_char (a @ b) = c" using utf8_char_size c(1) False unfolding c_def by (metis hd_append2)
    then have "utf8_valid (drop c (a @ b))"
      using "1.prems"(2) utf8_valid_step [of "a @ b"] False by simp
    then have "utf8_valid (drop c a @ b)" using \<open>c \<le> length a\<close> by simp
    then show ?thesis using "1.IH" False c by (simp add: c_def)
  qed
qed

lemma utf8_valid_head: "utf8_valid (b # s) \<Longrightarrow> \<not> utf8_cont b"
  using utf8_valid_step [of "b # s"] utf8_char_size [of "b # s"]
  by (auto simp: utf8_size_def utf8_cont_def word_le_nat_alt split: if_splits)

lemma utf8_cut_boundary:
  assumes "utf8_valid s" and "utf8_valid (take m s)" and "m < length s"
  shows "\<not> utf8_cont (s ! m)"
proof -
  have "utf8_valid (drop m s)" using utf8_valid_append_cancel [OF assms(2), of "drop m s"] assms(1) by simp
  then show ?thesis using utf8_valid_head assms(3) by (metis Cons_nth_drop_Suc)
qed

lemma copy_back_longest:
  assumes "utf8_valid s" and "utf8_valid (take k s)" and "k \<le> n" and "n < length s"
  shows "k \<le> copy_back s n"
proof (rule ccontr)
  assume "\<not> k \<le> copy_back s n"
  then have "utf8_cont (s ! k)" using copy_back_ok(3) [of s n k] assms(3) by simp
  moreover have "\<not> utf8_cont (s ! k)" using utf8_cut_boundary assms by simp
  ultimately show False by simp
qed

lemma copy_back_valid:
  assumes "utf8_valid s" and "n < length s"
  shows "utf8_valid (take (copy_back s n) s)"
  using copy_back_ok(1,2) [of s n] utf8_valid_take [OF assms(1)] assms(2) by (metis le_less_trans take_0 utf8_valid_Nil)

section \<open>Properties\<close>

text \<open>
  C29. \<open>CopyString\<close> with a positive destination size, on any bytes: the result is a prefix of the text before the
  first NUL that leaves room for a terminator, and the longest such that does not stop in front of a
  continuation byte (or is empty, or is the whole text). If the source is well-formed UTF-8, then so is the result, and no longer
  well-formed prefix of that text would fit. With a size below one it panics.
\<close>

theorem CopyString_spec:
  "case CopyString source destSize of
     Inl p \<Rightarrow> destSize < 1 \<and> p = PanicCopyStringDestSize
   | Inr out \<Rightarrow> 1 \<le> destSize \<and> 0 \<notin> set out
       \<and> (let t = before_nul source; k = length out in
           out = take k t \<and> int k < destSize \<and> (k = 0 \<or> k = length t \<or> \<not> utf8_cont (t ! k))
           \<and> (\<forall>j. k < j \<and> j \<le> length t \<and> int j < destSize \<longrightarrow> j < length t \<and> utf8_cont (t ! j))
           \<and> (utf8_valid source \<longrightarrow> utf8_valid out
                \<and> (\<forall>j. int j < destSize \<and> j \<le> length t \<and> utf8_valid (take j t) \<longrightarrow> j \<le> k)))"
proof (cases "destSize < 1")
  case True
  then show ?thesis by (simp add: CopyString_def)
next
  case False
  define t n where "t = before_nul source" and "n = nat (destSize - 1)"
  have dest: "destSize = int n + 1" "1 \<le> destSize" using False by (simp_all add: n_def)
  have out: "CopyString source destSize = Inr (if length t \<le> n then t else take (copy_back t n) t)"
    using CopyString_eq [OF dest(2), of source] by (simp add: dest(1) flip: t_def)
  have nul: "0 \<notin> set t" unfolding t_def by (rule before_nul_no_nul)
  show ?thesis
  proof (cases "length t \<le> n")
    case True
    then show ?thesis using out dest nul before_nul_valid [of source] by (auto simp: Let_def simp flip: t_def)
  next
    case long: False
    have b: "copy_back t n \<le> n" "length (take (copy_back t n) t) = copy_back t n"
      using copy_back_ok(1) [of t n] long by simp_all
    have "utf8_valid (take (copy_back t n) t)" if "utf8_valid source"
      using copy_back_valid [of t n] before_nul_valid [OF that] long by (simp add: t_def)
    moreover have "j \<le> copy_back t n" if "utf8_valid source" "int j < destSize" "utf8_valid (take j t)" for j
      using copy_back_longest [of t j n] before_nul_valid [OF that(1)] that(2,3) long dest(1) by (simp add: t_def)
    moreover have "j < length t \<and> utf8_cont (t ! j)" if "copy_back t n < j" "int j < destSize" for j
      using copy_back_ok(3) [OF that(1)] that(2) long dest(1) by simp
    ultimately show ?thesis
      using out dest nul b long copy_back_ok(2) [of t n] by (simp add: Let_def flip: t_def) (blast dest: in_set_takeD)
  qed
qed

text \<open>
  C35. Zig-zag is a bijection between \<open>int32\<close> and \<open>uint32\<close> that sends \<open>n\<close> to \<open>2 * n\<close> and a negative
  \<open>n\<close> to \<open>- 2 * n - 1\<close>, the most negative number included.
\<close>

theorem zig_zag_bijection:
  "UnsignedToSigned (SignedToUnsigned n) = n \<and> SignedToUnsigned (UnsignedToSigned u) = u
   \<and> uint (SignedToUnsigned n) = (if 0 \<le> sint n then 2 * sint n else - 2 * sint n - 1)"
  using zig_zag_inverse zag_zig_inverse SignedToUnsigned_value by blast

lemma uint_less_power: "uint (w :: 'a::len word) < 2 ^ k \<longleftrightarrow> unat w < 2 ^ k"
  by (simp only: unat_eq_nat_uint nat_less_iff [OF uint_ge_0] of_nat_power of_nat_numeral)

text \<open>
  C36. \<open>BitsRequired\<close>, \<open>BitsRequired64\<close> and \<open>BitsRequired128\<close> give the least number of bits that
  holds every offset of the range, for ranges over the whole width included.
\<close>

theorem BitsRequired_least:
  "(BitsRequired mn mx \<le> k \<longleftrightarrow> uint (mx - mn) < 2 ^ k)
   \<and> (BitsRequired64 mn64 mx64 \<le> k \<longleftrightarrow> uint (mx64 - mn64) < 2 ^ k)
   \<and> (BitsRequired128 mn128 mx128 \<le> k \<longleftrightarrow> uint (u128 mx128 - u128 mn128) < 2 ^ k)"
  by (simp add: BitsRequired_eq_Len BitsRequired64_eq_Len Len_le_iff BitsRequired128_le_iff uint_less_power)

text \<open>
  C30. Whatever error a nested object returns, what the stream latches for it is named in the
  closed list: \<open>RefusalName\<close> spells it with one of the nine names and \<open>errors.Is\<close> finds in it the
  refusal that \<open>errors.As\<close> extracts; a closed refusal the caller wrapped keeps its reason, and the
  error of a caller with no refusal in it is kept as the cause.
\<close>

theorem rejection_closed:
  "RefusalName (Some (rejection e)) \<in> set (tl refusalNames)
   \<and> (\<exists>r. errors_As (rejection e) = Some r \<and> in_closed_list r \<and> errors_Is (rejection e) r
        \<and> (case errors_As e of None \<Rightarrow> r = ErrRejected \<and> rejection e = RejectedError e
           | Some r' \<Rightarrow> r = closedRefusal r'))"
proof
  show "RefusalName (Some (rejection e)) \<in> set (tl refusalNames)"
    by (rule RefusalName_latchable [OF rejection_latchable])
  show "\<exists>r. errors_As (rejection e) = Some r \<and> in_closed_list r \<and> errors_Is (rejection e) r
        \<and> (case errors_As e of None \<Rightarrow> r = ErrRejected \<and> rejection e = RejectedError e
           | Some r' \<Rightarrow> r = closedRefusal r')"
    using library_refusals_closed(9)
    by (cases "errors_As e") (auto simp: rejection_def closedRefusal_def in_closed_list_def not_less not_le)
qed

text \<open>Applied: the cut falls inside the two byte character and is moved back.\<close>

theorem CopyString_spec_witness:
  "\<exists>out. CopyString [0x41, 0xC3, 0xA9] 3 = Inr out \<and> length out \<le> 2 \<and> utf8_valid out \<and> 1 \<le> length out"
proof -
  have v: "utf8_valid [0x41, 0xC3, 0xA9]" "utf8_valid [0x41]" by code_simp+
  have t: "before_nul [0x41, 0xC3, 0xA9] = [0x41, 0xC3, 0xA9]" by (simp add: before_nul_def)
  show ?thesis
    using CopyString_spec [where source = "[0x41, 0xC3, 0xA9]" and destSize = 3] v unfolding t
    by (auto simp: Let_def split: sum.splits dest: spec [of _ "1 :: nat"])
qed

end
