(* ===== verification/Stream_Params.thy ===== *)
theory Stream_Params
  imports Serialize_Core
begin

text \<open>
  The declaration checks of stream.go that the three streams share: the int_relative
  constants, the finite tests on float patterns, the string buffer size, the Q formats of the
  fixed point operations, and the string text check. A float is its bit pattern. A Go
  \<open>int\<close> parameter is an \<open>int\<close>; where the code adds two of them the sum wraps at 64 bits.
\<close>

section \<open>The int_relative constants\<close>

definition intRelativeMin :: int where "intRelativeMin = 0"
definition intRelativeMax :: int where "intRelativeMax = 2147483647"
definition intRelativeBoundedMax :: int where "intRelativeBoundedMax = 69914"

definition intRelativeBuckets :: "(u32 \<times> u32) list" where
  "intRelativeBuckets = [(2, 6), (7, 23), (24, 280), (281, 4377), (4378, word_of_int intRelativeBoundedMax)]"

section \<open>Finite float patterns\<close>

definition float32BitsAreFinite :: "u32 \<Rightarrow> bool" where
  "float32BitsAreFinite bits \<longleftrightarrow> bits AND 0x7F800000 \<noteq> 0x7F800000"

definition float64BitsAreFinite :: "u64 \<Rightarrow> bool" where
  "float64BitsAreFinite bits \<longleftrightarrow> bits AND 0x7FF0000000000000 \<noteq> 0x7FF0000000000000"

section \<open>String buffers and text\<close>

definition bufferSizeValid :: "int \<Rightarrow> bool" where
  "bufferSizeValid bufferSize \<longleftrightarrow> 1 \<le> bufferSize \<and> bufferSize \<le> 2147483647"

definition validateBufferSize :: "int \<Rightarrow> unit res" where
  "validateBufferSize bufferSize = (if \<not> bufferSizeValid bufferSize then Inl PanicBufferSize else Inr ())"

definition checkStringText :: "u8 list \<Rightarrow> unit res" where
  "checkStringText text =
    (if 0 \<le> IndexByte text 0 then Inl PanicEmbeddedNul
     else if \<not> utf8_valid text then Inl PanicInvalidUTF8
     else Inr ())"

section \<open>Q formats\<close>

definition fixedPointCapacity :: "int \<Rightarrow> bool \<Rightarrow> i64 \<times> i64" where
  "fixedPointCapacity integerBits is_signed =
    (if is_signed then
       if 65 \<le> integerBits then (- (2 ^ 63), 2 ^ 63 - 1)
       else
         let minRepresentable = - push_bit (nat (integerBits - 1)) 1
         in if 64 \<le> integerBits then (minRepresentable, 2 ^ 63 - 1)
            else (minRepresentable, push_bit (nat (integerBits - 1)) 1 - 1)
     else if 63 \<le> integerBits then (0, 2 ^ 63 - 1)
     else (0, push_bit (nat integerBits) 1 - 1))"

definition fixedMisuseParams :: int where "fixedMisuseParams = -1"
definition fixedMisuseBounds :: int where "fixedMisuseBounds = -2"

definition checkFixedPointParams :: "int \<Rightarrow> unit res" where
  "checkFixedPointParams numBits =
    (if numBits = fixedMisuseParams then Inl PanicFixedParams
     else if numBits = fixedMisuseBounds then Inl PanicFixedBounds
     else Inr ())"

definition fixedPointParams64 :: "int \<Rightarrow> int \<Rightarrow> i64 \<Rightarrow> i64 \<Rightarrow> u64 \<times> u64 \<times> int" where
  "fixedPointParams64 integerBits fractionBits mn mx =
    (if integerBits < 1 \<or> fractionBits < 0 \<or> 64 < wrap64 (integerBits + fractionBits) \<or> mx <s mn
     then (0, 0, fixedMisuseParams)
     else let (minRepresentable, maxRepresentable) = fixedPointCapacity integerBits (mn <s 0)
          in if mn <s minRepresentable \<or> maxRepresentable <s mx then (0, 0, fixedMisuseBounds)
             else let rawMin = push_bit (nat fractionBits) mn;
                      rawMax = push_bit (nat fractionBits) mx;
                      rawRange = rawMax - rawMin
                  in (rawMin, rawRange, int (BitsRequired64 rawMin rawMax)))"

definition fixedPointParams128 :: "int \<Rightarrow> int \<Rightarrow> i64 \<Rightarrow> i64 \<Rightarrow> uint128 \<times> uint128 \<times> int" where
  "fixedPointParams128 integerBits fractionBits mn mx =
    (if integerBits < 1 \<or> fractionBits < 0 \<or> wrap64 (integerBits + fractionBits) \<noteq> 128 \<or> mx <s mn
     then (Uint128 0 0, Uint128 0 0, fixedMisuseParams)
     else let (minRepresentable, maxRepresentable) = fixedPointCapacity integerBits (mn <s 0)
          in if mn <s minRepresentable \<or> maxRepresentable <s mx
             then (Uint128 0 0, Uint128 0 0, fixedMisuseBounds)
             else let rawMin = Uint128_Lsh (Int128_Uint128 (Int128From64 mn)) (nat fractionBits);
                      rawMax = Uint128_Lsh (Int128_Uint128 (Int128From64 mx)) (nat fractionBits);
                      rawRange = Uint128_Sub rawMax rawMin
                  in (rawMin, rawRange,
                      if mn = mx then 0 else int (BitsRequired64 mn mx) + fractionBits))"

lemma bufferSize_bits:
  assumes "bufferSizeValid bufferSize" and "int n < bufferSize"
  shows "take_bit (BitsRequired 0 (word_of_int (bufferSize - 1))) (word_of_nat n) = (word_of_nat n :: u32)"
proof -
  have n: "int n < 2 ^ 32" and b: "0 \<le> bufferSize - 1" "bufferSize - 1 < 2 ^ 32"
    using assms by (simp_all add: bufferSizeValid_def)
  have "uint (word_of_int (bufferSize - 1) :: u32) = take_bit 32 (bufferSize - 1)" unfolding unsigned_of_int by simp
  then have "uint (word_of_int (bufferSize - 1) :: u32) = bufferSize - 1" using b by (simp only: take_bit_int_eq_self)
  moreover have "uint (word_of_int (int n) :: u32) = take_bit 32 (int n)" unfolding unsigned_of_int by simp
  then have "uint (word_of_nat n :: u32) = int n" using n by (simp add: take_bit_int_eq_self)
  ultimately have "(word_of_nat n :: u32) \<le> word_of_int (bufferSize - 1)" using assms(2) by (simp add: word_le_def)
  then show ?thesis by (simp add: BitsRequired_eq_Len fits_of_le)
qed

lemma checkStringText_ok_iff: "checkStringText t = Inr () \<longleftrightarrow> 0 \<notin> set t \<and> utf8_valid t"
  using IndexByte_neg_iff [of t 0] by (auto simp: checkStringText_def not_le)

lemma validateBufferSize_simps [simp]:
  "bufferSizeValid n \<Longrightarrow> validateBufferSize n = Inr ()"
  "\<not> bufferSizeValid n \<Longrightarrow> validateBufferSize n = Inl PanicBufferSize"
  by (simp_all add: validateBufferSize_def)

lemma wrap64_id: "- (2 ^ 63) \<le> i \<Longrightarrow> i < 2 ^ 63 \<Longrightarrow> wrap64 i = i"
  by (simp add: wrap64_def signed_take_bit_int_eq_self)

text \<open>The bit counts of the Q formats are within the width of their storage.\<close>

lemma fixedPointParams64_bits:
  assumes "fixedPointParams64 ib fb mn mx = (rawMin, rawRange, numBits)"
  shows "numBits = fixedMisuseParams \<or> numBits = fixedMisuseBounds
    \<or> (0 \<le> numBits \<and> numBits \<le> 64 \<and> numBits = int (Len rawRange))"
  using assms
  by (auto simp: fixedPointParams64_def Let_def BitsRequired64_eq_Len Len_le_length [where 'a = 64, simplified]
      split: if_splits prod.splits)

lemma fixed64_fits:
  assumes "fixedPointParams64 ib fb mn mx = (rawMin, rawRange, numBits)" and "0 \<le> numBits" and "offset \<le> rawRange"
  shows "take_bit (nat numBits) offset = offset"
proof -
  have "numBits = int (Len rawRange)"
    using fixedPointParams64_bits [OF assms(1)] assms(2) by (auto simp: fixedMisuseParams_def fixedMisuseBounds_def)
  then show ?thesis using fits_of_le [OF assms(3)] by simp
qed

text \<open>What a Q format holds: the whole unit bounds, clamped to the 64 bit domain.\<close>

lemma sint_word_of_int64: "- (2 ^ 63) \<le> k \<Longrightarrow> k < 2 ^ 63 \<Longrightarrow> sint (word_of_int k :: i64) = k"
  by (simp add: signed_of_int signed_take_bit_int_eq_self)

lemma sint_bounds64: "- (2 ^ 63) \<le> sint (w :: i64)" "sint (w :: i64) < 2 ^ 63"
  using sint_greater_eq [of w] sint_less [of w] by simp_all

lemma fixedPointCapacity_sint:
  assumes "1 \<le> ib" and "fixedPointCapacity ib sg = (lo, hi)"
  shows "sint lo = (if sg then - (2 ^ min 63 (nat (ib - 1))) else 0)"
    and "sint hi = (if sg then 2 ^ min 63 (nat (ib - 1)) - 1 else 2 ^ min 63 (nat ib) - 1)"
proof -
  have p: "(2::int) ^ k \<le> 2 ^ 63" if "k \<le> 63" for k :: nat using that by (intro power_increasing) simp_all
  have pos: "0 < (2::int) ^ k" for k :: nat by simp
  have mx: "(2 ^ 63 - 1 :: i64) = word_of_int (2 ^ 63 - 1)" and mn: "(- (2 ^ 63) :: i64) = word_of_int (- (2 ^ 63))" by simp_all
  have neg: "- push_bit k 1 = (word_of_int (- (2 ^ k)) :: i64)" and pred: "push_bit k 1 - 1 = (word_of_int (2 ^ k - 1) :: i64)" for k
    by simp_all
  note defs = fixedPointCapacity_def Let_def
  show "sint lo = (if sg then - (2 ^ min 63 (nat (ib - 1))) else 0)"
  proof (cases "sg \<and> ib < 65")
    case True
    then have lo: "lo = word_of_int (- (2 ^ nat (ib - 1)))"
      using assms(2) neg unfolding defs by (auto split: if_splits)
    have k: "nat (ib - 1) \<le> 63" using True by linarith
    have "sint lo = - (2 ^ nat (ib - 1))" unfolding lo
      by (rule sint_word_of_int64) (use p [OF k] pos [of "nat (ib - 1)"] pos [of 63] in linarith)+
    then show ?thesis using True k by (simp add: min_absorb2)
  next
    case False
    then have "lo = (if sg then word_of_int (- (2 ^ 63)) else word_of_int 0)" using assms(2) unfolding defs by (auto split: if_splits)
    moreover have "sg \<Longrightarrow> min 63 (nat (ib - 1)) = 63" using False by simp
    ultimately show ?thesis by (simp add: sint_word_of_int64)
  qed
  show "sint hi = (if sg then 2 ^ min 63 (nat (ib - 1)) - 1 else 2 ^ min 63 (nat ib) - 1)"
  proof -
    define k where "k = (if sg then min 63 (nat (ib - 1)) else min 63 (nat ib))"
    have "hi = push_bit k 1 - 1"
    proof (cases sg)
      case True
      then have "k = (if 64 \<le> ib then 63 else nat (ib - 1))" unfolding k_def by auto
      then show ?thesis using True assms(2) unfolding defs by (auto split: if_splits)
    next
      case False
      then have "k = (if 63 \<le> ib then 63 else nat ib)" unfolding k_def by auto
      then show ?thesis using False assms(2) unfolding defs by (auto split: if_splits)
    qed
    then have hi: "hi = word_of_int (2 ^ k - 1)" using pred by simp
    have "k \<le> 63" unfolding k_def by simp
    then have "sint hi = 2 ^ k - 1"
      unfolding hi by (intro sint_word_of_int64) (use p [of k] pos [of k] pos [of 63] in linarith)+
    then show ?thesis unfolding k_def by simp
  qed
qed

text \<open>
  A declaration the 64 bit check accepts: the raw bounds are the whole unit bounds scaled by
  \<open>2 ^ fractionBits\<close>, exactly, and the offset test accepts the raw values inside them and no
  other. A format with a negative minimum is signed, any other is unsigned.
\<close>

definition fixed64_conforms :: "int \<Rightarrow> int \<Rightarrow> i64 \<Rightarrow> i64 \<Rightarrow> bool" where
  "fixed64_conforms ib fb mn mx \<longleftrightarrow>
     1 \<le> ib \<and> 0 \<le> fb \<and> ib + fb \<le> 64 \<and> sint mn \<le> sint mx \<and>
     (if sint mn < 0 then - (2 ^ nat (ib - 1)) \<le> sint mn \<and> sint mx < 2 ^ nat (ib - 1)
      else sint mx < 2 ^ nat ib)"

lemma capacity_test:
  assumes "1 \<le> ib" and "fixedPointCapacity ib (mn <s 0) = (lo, hi)"
  shows "mn <s lo \<or> hi <s mx \<longleftrightarrow>
     \<not> (if sint mn < 0 then - (2 ^ nat (ib - 1)) \<le> sint mn \<and> sint mx < 2 ^ nat (ib - 1)
        else sint mx < 2 ^ nat ib)"
proof -
  note c = fixedPointCapacity_sint [OF assms]
  have sg: "mn <s 0 \<longleftrightarrow> sint mn < 0" by (simp add: word_sless_alt)
  have p: "(2::int) ^ 63 \<le> 2 ^ k" if "63 \<le> k" for k :: nat using that by (intro power_increasing) simp_all
  have mm: "sint mx < 2 ^ min 63 k \<longleftrightarrow> sint mx < 2 ^ k" for k
    using sint_bounds64(2) [of mx] p [of k] by (cases "63 \<le> k") (auto simp: min_absorb1 min_absorb2)
  have nn: "- (2 ^ min 63 k) \<le> sint mn \<longleftrightarrow> - (2 ^ k) \<le> sint mn" for k
    using sint_bounds64(1) [of mn] p [of k] by (cases "63 \<le> k") (auto simp: min_absorb1 min_absorb2)
  show ?thesis
  proof (cases "sint mn < 0")
    case True
    have "mn <s lo \<or> hi <s mx \<longleftrightarrow> \<not> (- (2 ^ min 63 (nat (ib - 1))) \<le> sint mn \<and> sint mx < 2 ^ min 63 (nat (ib - 1)))"
      using c True unfolding word_sless_alt sg by auto
    then show ?thesis using True unfolding mm nn by simp
  next
    case False
    have "mn <s lo \<or> hi <s mx \<longleftrightarrow> \<not> sint mx < 2 ^ min 63 (nat ib)"
      using c False unfolding word_sless_alt sg by auto
    then show ?thesis using False unfolding mm by simp
  qed
qed

lemma fixedPointParams64_accepts:
  assumes range: "- (2 ^ 63) \<le> ib + fb" "ib + fb < 2 ^ 63"
    and "fixedPointParams64 ib fb mn mx = (rawMin, rawRange, numBits)"
  shows "0 \<le> numBits \<longleftrightarrow> fixed64_conforms ib fb mn mx"
proof -
  obtain lo hi where c: "fixedPointCapacity ib (mn <s 0) = (lo, hi)" by fastforce
  have wf: "ib < 1 \<or> fb < 0 \<or> 64 < wrap64 (ib + fb) \<or> mx <s mn \<longleftrightarrow> \<not> (1 \<le> ib \<and> 0 \<le> fb \<and> ib + fb \<le> 64 \<and> sint mn \<le> sint mx)"
    using range by (auto simp: wrap64_id word_sless_alt)
  show ?thesis
  proof (cases "1 \<le> ib \<and> 0 \<le> fb \<and> ib + fb \<le> 64 \<and> sint mn \<le> sint mx")
    case False
    then have "numBits = fixedMisuseParams" using assms(3) wf unfolding fixedPointParams64_def by simp
    moreover have "\<not> fixed64_conforms ib fb mn mx" using False unfolding fixed64_conforms_def by blast
    ultimately show ?thesis by (simp add: fixedMisuseParams_def)
  next
    case True
    then show ?thesis
      using assms(3) wf capacity_test [OF _ c, of mx] unfolding fixedPointParams64_def fixed64_conforms_def c
      by (auto simp: Let_def fixedMisuseBounds_def split: if_splits)
  qed
qed

text \<open>The wide format: \<open>integerBits\<close> and \<open>fractionBits\<close> are values of Go's \<open>int\<close>.\<close>

definition go_int :: "int \<Rightarrow> bool" where
  "go_int i \<longleftrightarrow> - (2 ^ 63) \<le> i \<and> i < 2 ^ 63"

lemma uint_diff_sint:
  fixes a b :: "'a::len word"
  assumes "sint a \<le> sint b"
  shows "uint (b - a) = sint b - sint a"
proof -
  have e: "uint (b - a) = (sint b - sint a) mod 2 ^ LENGTH('a)"
  proof -
    have "b - a = word_of_int (sint b - sint a)" by simp
    then have "uint (b - a) = uint (word_of_int (sint b - sint a) :: 'a word)" by (rule arg_cong)
    then show ?thesis unfolding unsigned_of_int take_bit_eq_mod by simp
  qed
  have "- (2 ^ (LENGTH('a) - 1)) \<le> sint a" and "sint b < 2 ^ (LENGTH('a) - 1)"
    using sint_greater_eq [of a] sint_less [of b] by simp_all
  moreover have "(2::int) ^ LENGTH('a) = 2 * 2 ^ (LENGTH('a) - 1)" by (simp flip: power_Suc)
  ultimately have "sint b - sint a < 2 ^ LENGTH('a)" by linarith
  then show ?thesis unfolding e using assms by (intro mod_pos_pos_trivial) simp_all
qed

lemma wrap64_128:
  assumes "go_int ib" and "go_int fb" and "1 \<le> ib" and "0 \<le> fb" and "wrap64 (ib + fb) = 128"
  shows "ib + fb = 128"
proof -
  have "ib + fb < 2 ^ 64 - 1" and "0 \<le> ib + fb" using assms(1-4) unfolding go_int_def by simp_all
  moreover have "(ib + fb) mod 2 ^ 64 = 128"
  proof -
    have "(ib + fb) mod 2 ^ 64 = wrap64 (ib + fb) mod 2 ^ 64"
      unfolding wrap64_def take_bit_eq_mod [symmetric] by (simp add: take_bit_signed_take_bit)
    then show ?thesis unfolding assms(5) by simp
  qed
  ultimately show ?thesis by (simp add: mod_pos_pos_trivial)
qed

lemma capacity_width:
  assumes "1 \<le> ib" and "fixedPointCapacity ib (mn <s 0) = (lo, hi)" and "\<not> (mn <s lo \<or> hi <s mx)" and "sint mn \<le> sint mx"
  shows "sint mx - sint mn < 2 ^ nat ib"
proof -
  have "nat ib = Suc (nat (ib - 1))" using assms(1) by linarith
  then have d: "(2::int) ^ nat ib = 2 * 2 ^ nat (ib - 1)" by simp
  show ?thesis using capacity_test [OF assms(1,2), of mx] assms(3) unfolding d by (auto split: if_splits)
qed

lemma fixed128_fits:
  assumes go: "go_int ib" "go_int fb"
    and params: "fixedPointParams128 ib fb mn mx = (rawMin, rawRange, numBits)" and acc: "0 \<le> numBits"
  shows "numBits \<le> 128" and "u128 offset \<le> u128 rawRange \<Longrightarrow> unat (u128 offset) < 2 ^ nat numBits"
proof -
  obtain lo hi where c: "fixedPointCapacity ib (mn <s 0) = (lo, hi)" by fastforce
  have form: "\<not> (ib < 1 \<or> fb < 0 \<or> wrap64 (ib + fb) \<noteq> 128 \<or> mx <s mn)"
  proof
    assume "ib < 1 \<or> fb < 0 \<or> wrap64 (ib + fb) \<noteq> 128 \<or> mx <s mn"
    then have "numBits = fixedMisuseParams" using params unfolding fixedPointParams128_def by (simp only: if_True prod.inject)
    then show False using acc by (simp add: fixedMisuseParams_def)
  qed
  have bounds: "\<not> (mn <s lo \<or> hi <s mx)"
  proof
    assume "mn <s lo \<or> hi <s mx"
    then have "numBits = fixedMisuseBounds"
      using params form unfolding fixedPointParams128_def c Let_def by (simp only: if_True if_False prod.inject prod.case)
    then show False using acc by (simp add: fixedMisuseBounds_def)
  qed
  have P: "1 \<le> ib" "0 \<le> fb" "wrap64 (ib + fb) = 128" "sint mn \<le> sint mx"
    using form unfolding word_sless_alt by linarith+
  have rr: "rawRange = Uint128_Sub (Uint128_Lsh (Int128_Uint128 (Int128From64 mx)) (nat fb))
        (Uint128_Lsh (Int128_Uint128 (Int128From64 mn)) (nat fb))"
    and nb: "numBits = (if mn = mx then 0 else int (BitsRequired64 mn mx) + fb)"
    using params form bounds unfolding fixedPointParams128_def c Let_def
    by (auto simp only: if_False prod.inject prod.case)
  have sum: "ib + fb = 128" by (rule wrap64_128 [OF go P(1-3)])
  have D: "uint (mx - mn) = sint mx - sint mn" by (rule uint_diff_sint [OF P(4)])
  have Len: "BitsRequired64 mn mx \<le> nat ib"
  proof -
    have "uint (mx - mn) < 2 ^ nat ib" unfolding D by (rule capacity_width [OF P(1) c bounds P(4)])
    then have "int (unat (mx - mn)) < int (2 ^ nat ib)" by simp
    then have "unat (mx - mn) < 2 ^ nat ib" by (simp only: of_nat_less_iff)
    then show ?thesis by (simp add: BitsRequired64_eq_Len Len_le_iff)
  qed
  then have "int (BitsRequired64 mn mx) \<le> ib" using P(1) by linarith
  then show "numBits \<le> 128" using sum unfolding nb by (simp split: if_split)
  have raw: "u128 rawRange = (scast mx - scast mn) * 2 ^ nat fb"
    by (simp add: rr u128_Sub u128_Lsh i128_From64 push_bit_eq_mult left_diff_distrib)
  have sc: "sint (scast w :: 128 word) = sint w" for w :: i64
    using sint_bounds64 [of w] by (simp add: signed_scast_eq signed_take_bit_int_eq_self)
  have D128: "uint (scast mx - scast mn :: 128 word) = sint mx - sint mn"
    using uint_diff_sint [of "scast mn :: 128 word" "scast mx"] P(4) by (simp add: sc)
  assume le: "u128 offset \<le> u128 rawRange"
  show "unat (u128 offset) < 2 ^ nat numBits"
  proof (cases "mn = mx")
    case True
    then show ?thesis using le nb raw by simp
  next
    case False
    have "unat (u128 rawRange) \<le> unat (scast mx - scast mn :: 128 word) * 2 ^ nat fb"
    proof -
      have "u128 rawRange = word_of_nat (unat (scast mx - scast mn :: 128 word) * 2 ^ nat fb)" unfolding raw by simp
      then show ?thesis by (simp only: unsigned_of_nat take_bit_nat_less_eq_self of_nat_id)
    qed
    also have "unat (scast mx - scast mn :: 128 word) = unat (mx - mn)"
    proof -
      have "int (unat (scast mx - scast mn :: 128 word)) = int (unat (mx - mn))" using D D128 by simp
      then show ?thesis by (simp only: of_nat_eq_iff)
    qed
    also have "unat (mx - mn) * 2 ^ nat fb < 2 ^ BitsRequired64 mn mx * 2 ^ nat fb"
      using Len_le_iff [of "mx - mn" "Len (mx - mn)"] by (simp add: BitsRequired64_eq_Len)
    also have "\<dots> = 2 ^ nat numBits" using False nb P(2) by (simp add: nat_add_distrib power_add)
    finally show ?thesis using le by (simp add: word_le_nat_alt)
  qed
qed

section \<open>Properties\<close>

text \<open>
  The guard on the total width adds the two bit counts in Go's \<open>int\<close>: a declaration whose sum
  wraps past \<open>2 ^ 63\<close> is accepted although it asks for far more than 64 bits.
\<close>

lemma fixedPointParams64_wraps:
  "fixedPointParams64 (2 ^ 63 - 1) 1 0 1 = (0, 2, 2) \<and> \<not> fixed64_conforms (2 ^ 63 - 1) 1 0 1"
proof
  have w: "wrap64 (2 ^ 63 - 1 + 1) = - (2 ^ 63)"
    by (simp add: wrap64_def signed_take_bit_def mask_eq_exp_minus_1 not_eq_complement)
  have c: "\<not> (9223372036854775807 :: i64) <s 1" "\<not> (1 :: i64) <s 0" by (simp_all add: word_sless_alt)
  have "BitsRequired64 0 2 = 2" by (simp add: BitsRequired64_eq_Len Len_def nat_len.simps)
  then show "fixedPointParams64 (2 ^ 63 - 1) 1 0 1 = (0, 2, 2)"
    using w c by (simp add: fixedPointParams64_def fixedPointCapacity_def)
  have "\<not> (2 ^ 63 - 1 + 1 :: int) \<le> 64" by simp
  then show "\<not> fixed64_conforms (2 ^ 63 - 1) 1 0 1" unfolding fixed64_conforms_def by blast
qed

text \<open>
  C37. A 64 bit Q format declaration whose bit counts add up inside \<open>int64\<close> is accepted exactly when
  it conforms: at least one integer bit, no negative fraction, at most 64 bits in all, ordered
  bounds inside what the whole units hold. Its raw range then has the bit count returned. Past
  that range the sum wraps, and a declaration that asks for far more than 64 bits can be accepted.
\<close>

theorem fixedPointParams64_spec:
  assumes "- (2 ^ 63) \<le> ib + fb" and "ib + fb < 2 ^ 63"
  shows "(case fixedPointParams64 ib fb mn mx of (rawMin, rawRange, numBits) \<Rightarrow>
    if fixed64_conforms ib fb mn mx
    then 0 \<le> numBits \<and> numBits \<le> 64 \<and> (\<forall>u. u \<le> rawRange \<longrightarrow> uint u < 2 ^ nat numBits)
    else numBits = fixedMisuseParams \<or> numBits = fixedMisuseBounds)
    \<and> fixedPointParams64 (2 ^ 63 - 1) 1 0 1 = (0, 2, 2) \<and> \<not> fixed64_conforms (2 ^ 63 - 1) 1 0 1"
proof -
  obtain rawMin rawRange numBits where p: "fixedPointParams64 ib fb mn mx = (rawMin, rawRange, numBits)"
    by (metis prod_cases3)
  note acc = fixedPointParams64_accepts [OF assms p] and bits = fixedPointParams64_bits [OF p]
  show ?thesis
  proof (cases "fixed64_conforms ib fb mn mx")
    case True
    then have n: "0 \<le> numBits" "numBits \<le> 64"
      using acc bits by (auto simp: fixedMisuseParams_def fixedMisuseBounds_def)
    moreover have "uint u < 2 ^ nat numBits" if "u \<le> rawRange" for u
      using fixed64_fits [OF p n(1) that] by (simp add: take_bit_eq_self_iff_uint)
    ultimately show ?thesis using True p fixedPointParams64_wraps by simp
  next
    case False
    then show ?thesis using acc bits p fixedPointParams64_wraps by auto
  qed
qed

theorem fixedPointParams64_spec_witness:
  "case fixedPointParams64 24 8 (- 5) 100 of (rawMin, rawRange, numBits) \<Rightarrow> 0 \<le> numBits \<and> numBits \<le> 64"
proof -
  have "fixed64_conforms 24 8 (- 5) 100" by (simp add: fixed64_conforms_def)
  then show ?thesis using fixedPointParams64_spec [of 24 8 "- 5" 100] by (auto split: prod.splits)
qed

end
