(* ===== verification/Float32.thy ===== *)
theory Float32
  imports Stream_Params
begin

text \<open>
  Go's float32, as the compressed floats use it: a float is its bit pattern (\<open>math.Float32bits\<close>),
  and the operations are those of IEEE 754 single precision, rounded once to the nearest float,
  ties to even. Every finite float is a whole multiple of \<open>2 ^ (-149)\<close>, so all values here are
  integers in that unit and every rounding rounds a fraction of natural numbers. The payload of
  a NaN is not modelled: the code only ever tests for one.
\<close>

section \<open>Values\<close>

type_synonym f32 = u32

text \<open>A pattern less its sign bit, and the value such a magnitude stands for; infinity counts \<open>2 ^ 277\<close>.\<close>

abbreviation inf_mag :: nat where
  "inf_mag \<equiv> 2139095040"

definition magnitude :: "f32 \<Rightarrow> nat" where
  "magnitude x = unat x mod 2 ^ 31"

definition negative :: "f32 \<Rightarrow> bool" where
  "negative x \<longleftrightarrow> 2 ^ 31 \<le> unat x"

definition mag_value :: "nat \<Rightarrow> nat" where
  "mag_value m = (if m < 2 ^ 23 then m else (2 ^ 23 + m mod 2 ^ 23) * 2 ^ (m div 2 ^ 23 - 1))"

definition f32_value :: "f32 \<Rightarrow> int" where
  "f32_value x = (if negative x then - int (mag_value (magnitude x)) else int (mag_value (magnitude x)))"

definition f32_is_nan :: "f32 \<Rightarrow> bool" where
  "f32_is_nan x \<longleftrightarrow> inf_mag < magnitude x"

definition f32_is_inf :: "f32 \<Rightarrow> bool" where
  "f32_is_inf x \<longleftrightarrow> magnitude x = inf_mag"

definition f32_make :: "bool \<Rightarrow> nat \<Rightarrow> f32" where
  "f32_make neg m = of_nat (if neg then 2 ^ 31 + m else m)"

definition f32_nan :: f32 where
  "f32_nan = 0x7FC00000"

section \<open>Rounding\<close>

text \<open>
  The magnitude nearest to \<open>n / d\<close>. The exponent is the least that leaves 24 bits of significand,
  and a significand that rounds up to \<open>2 ^ 24\<close> carries into the exponent by itself.
\<close>

definition round_mag :: "nat \<Rightarrow> nat \<Rightarrow> nat" where
  "round_mag n d =
    (let e = nat_len (n div d) - 24;
         D = d * 2 ^ e;
         m = n div D;
         r = n mod D;
         up = D < 2 * r \<or> D = 2 * r \<and> odd m
     in min inf_mag (e * 2 ^ 23 + m + of_bool up))"

section \<open>Operations\<close>

definition f32_add :: "f32 \<Rightarrow> f32 \<Rightarrow> f32" where
  "f32_add x y =
    (if f32_is_nan x \<or> f32_is_nan y \<or> f32_is_inf x \<and> f32_is_inf y \<and> negative x \<noteq> negative y then f32_nan
     else if f32_is_inf x then x
     else if f32_is_inf y then y
     else
       let v = f32_value x + f32_value y
       in if v = 0 then f32_make (negative x \<and> negative y) 0
          else f32_make (v < 0) (round_mag (nat \<bar>v\<bar>) 1))"

definition f32_sub :: "f32 \<Rightarrow> f32 \<Rightarrow> f32" where
  "f32_sub x y = f32_add x (y XOR 0x80000000)"

definition f32_mul :: "f32 \<Rightarrow> f32 \<Rightarrow> f32" where
  "f32_mul x y =
    (let s = (negative x \<noteq> negative y)
     in if f32_is_nan x \<or> f32_is_nan y \<or> f32_is_inf x \<and> magnitude y = 0 \<or> magnitude x = 0 \<and> f32_is_inf y then f32_nan
        else if f32_is_inf x \<or> f32_is_inf y then f32_make s inf_mag
        else f32_make s (round_mag (mag_value (magnitude x) * mag_value (magnitude y)) (2 ^ 149)))"

definition f32_div :: "f32 \<Rightarrow> f32 \<Rightarrow> f32" where
  "f32_div x y =
    (let s = (negative x \<noteq> negative y)
     in if f32_is_nan x \<or> f32_is_nan y \<or> f32_is_inf x \<and> f32_is_inf y \<or> magnitude x = 0 \<and> magnitude y = 0 then f32_nan
        else if f32_is_inf x \<or> magnitude y = 0 then f32_make s inf_mag
        else if f32_is_inf y then f32_make s 0
        else f32_make s (round_mag (mag_value (magnitude x) * 2 ^ 149) (mag_value (magnitude y))))"

definition f32_less :: "f32 \<Rightarrow> f32 \<Rightarrow> bool" where
  "f32_less x y \<longleftrightarrow> \<not> f32_is_nan x \<and> \<not> f32_is_nan y \<and> f32_value x < f32_value y"

definition f32_le :: "f32 \<Rightarrow> f32 \<Rightarrow> bool" where
  "f32_le x y \<longleftrightarrow> \<not> f32_is_nan x \<and> \<not> f32_is_nan y \<and> f32_value x \<le> f32_value y"

definition f32_eq :: "f32 \<Rightarrow> f32 \<Rightarrow> bool" where
  "f32_eq x y \<longleftrightarrow> \<not> f32_is_nan x \<and> \<not> f32_is_nan y \<and> f32_value x = f32_value y"

text \<open>
  Conversions. \<open>float32(u)\<close> rounds. \<open>float64(x)\<close> of a float32 is exact, and so are \<open>math.Floor\<close> and
  \<open>math.Ceil\<close> of it and the conversion to uint32 of a whole number in its range.
\<close>

definition f32_of_u32 :: "u32 \<Rightarrow> f32" where
  "f32_of_u32 n = f32_make False (round_mag (unat n * 2 ^ 149) 1)"

definition floor_u32 :: "f32 \<Rightarrow> u32" where
  "floor_u32 x = word_of_int (f32_value x div 2 ^ 149)"

definition ceil_u32 :: "f32 \<Rightarrow> u32" where
  "ceil_u32 x = word_of_int (- (- f32_value x div 2 ^ 149))"

section \<open>The order of magnitudes\<close>

lemma mag_value_small [simp]: "m < 2 ^ 23 \<Longrightarrow> mag_value m = m"
  by (simp add: mag_value_def)

lemma mag_value_normal: "s < 2 ^ 23 \<Longrightarrow> mag_value (e * 2 ^ 23 + (2 ^ 23 + s)) = (2 ^ 23 + s) * 2 ^ e"
proof -
  assume s: "s < 2 ^ 23"
  have eq: "e * 2 ^ 23 + (2 ^ 23 + s) = Suc e * 2 ^ 23 + s" by simp
  have "(Suc e * 2 ^ 23 + s) mod 2 ^ 23 = s" "(Suc e * 2 ^ 23 + s) div 2 ^ 23 = Suc e"
    using s by (simp_all only: mod_mult_self3 mod_less div_mult_self3) simp_all
  then show ?thesis unfolding eq by (simp add: mag_value_def)
qed

lemma mag_value_step:
  assumes "e = 0 \<or> 2 ^ 23 \<le> m" and "m < 2 ^ 24"
  shows "mag_value (e * 2 ^ 23 + m) = m * 2 ^ e" and "mag_value (Suc (e * 2 ^ 23 + m)) = Suc m * 2 ^ e"
proof -
  have normal: "mag_value (e * 2 ^ 23 + m) = m * 2 ^ e" if "2 ^ 23 \<le> m" "m < 2 ^ 24" for e m
    using mag_value_normal [of "m - 2 ^ 23" e] that by simp
  have top: "mag_value (e * 2 ^ 23 + 2 ^ 24) = 2 ^ 24 * 2 ^ e" for e
    using normal [of "2 ^ 23" "Suc e"] by (simp add: add.commute)
  show "mag_value (e * 2 ^ 23 + m) = m * 2 ^ e"
    using assms normal by (cases "2 ^ 23 \<le> m") auto
  show "mag_value (Suc (e * 2 ^ 23 + m)) = Suc m * 2 ^ e"
  proof (cases "2 ^ 23 \<le> Suc m")
    case True
    then show ?thesis
      using normal [of "Suc m" e] top [of e] assms(2) by (cases "Suc m = 2 ^ 24") (auto simp: add.commute)
  next
    case False
    then show ?thesis using assms(1) by simp
  qed
qed

lemma mag_split:
  fixes m :: nat
  obtains e s where "m = e * 2 ^ 23 + s" "e = 0 \<or> 2 ^ 23 \<le> s" "s < 2 ^ 24"
proof (cases "m < 2 ^ 23")
  case True
  then show thesis using that [of 0 m] by simp
next
  case False
  then obtain q where q: "m div 2 ^ 23 = Suc q" by (cases "m div 2 ^ 23") auto
  define r where "r = m mod 2 ^ 23"
  have "m = Suc q * 2 ^ 23 + r" "r < 2 ^ 23" unfolding r_def q [symmetric] by simp_all
  then show thesis by (intro that [of q "2 ^ 23 + r"]) simp_all
qed

lemma mag_value_Suc: "mag_value m < mag_value (Suc m)"
  using mag_split [of m] by (metis mag_value_step mult_less_mono1 lessI zero_less_numeral zero_less_power)

lemma mag_value_strict: "strict_mono mag_value"
  by (rule strict_mono_Suc_iff [THEN iffD2]) (use mag_value_Suc in blast)

lemma mag_value_less_iff [simp]: "mag_value m < mag_value n \<longleftrightarrow> m < n"
  by (rule strict_mono_less [OF mag_value_strict])

lemma mag_value_le_iff [simp]: "mag_value m \<le> mag_value n \<longleftrightarrow> m \<le> n"
  by (rule strict_mono_less_eq [OF mag_value_strict])

lemma mag_value_eq_iff [simp]: "mag_value m = mag_value n \<longleftrightarrow> m = n"
  by (rule strict_mono_eq [OF mag_value_strict])

section \<open>Rounding is to the nearest, ties to even\<close>

text \<open>
  The whole of IEEE rounding in one equivalence: a fraction rounds to at most \<open>m\<close> just when it
  lies below the midpoint of \<open>m\<close> and its successor, or on it with \<open>m\<close> even. At the largest finite
  magnitude that midpoint is the overflow threshold.
\<close>

theorem round_mag_le_iff:
  assumes d: "0 < d" and m: "m < inf_mag"
  shows "round_mag n d \<le> m \<longleftrightarrow>
    2 * n < d * (mag_value m + mag_value (Suc m)) \<or> 2 * n = d * (mag_value m + mag_value (Suc m)) \<and> even m"
proof -
  define e where "e = nat_len (n div d) - 24"
  define D where "D = d * 2 ^ e"
  define b where "b = e * 2 ^ 23 + n div D"
  define r where "r = n mod D"
  define up where "up = (D < 2 * r \<or> D = 2 * r \<and> odd (n div D))"
  have D: "0 < D" using d by (simp add: D_def)
  have q: "n div D = n div d div 2 ^ e" by (simp add: D_def div_mult2_eq)
  have "n div d < 2 ^ nat_len (n div d)" using nat_len_le_iff [of "n div d"] by blast
  also have "\<dots> \<le> 2 ^ (24 + e)" by (rule power_increasing) (simp_all add: e_def)
  finally have hi: "n div D < 2 ^ 24"
    unfolding q by (simp add: power_add less_mult_imp_div_less)
  have lo: "e = 0 \<or> 2 ^ 23 \<le> n div D"
  proof (cases "e = 0")
    case False
    then have "\<not> nat_len (n div d) \<le> 23 + e" by (simp add: e_def)
    then have "2 ^ 23 * 2 ^ e \<le> n div d" by (simp add: nat_len_le_iff power_add)
    then show ?thesis unfolding q by (simp add: less_eq_div_iff_mult_less_eq)
  qed simp
  note V = mag_value_step [OF lo hi, folded b_def]
  have par: "odd (n div D) \<longleftrightarrow> odd b" by (simp add: b_def)
  have rnd: "round_mag n d = min inf_mag (b + of_bool up)"
    by (simp only: round_mag_def Let_def up_def b_def D_def e_def r_def)
  have n: "n = n div D * D + r" by (simp add: r_def)
  have Vb: "d * mag_value b = n div D * D" "d * mag_value (Suc b) = n div D * D + D"
    unfolding V D_def by (simp_all add: algebra_simps)
  have r: "r < D" using D by (simp add: r_def)
  have le: "round_mag n d \<le> m \<longleftrightarrow> b + of_bool up \<le> m" unfolding rnd using m by auto
  consider "m < b" | "m = b" | "b < m" by linarith
  then show ?thesis
  proof cases
    case 1
    then have "d * mag_value m < d * mag_value (Suc m)" "d * mag_value (Suc m) \<le> d * mag_value b"
      using d by simp_all
    moreover have "d * mag_value b \<le> n" using Vb n by linarith
    ultimately show ?thesis unfolding le distrib_left using 1 by linarith
  next
    case 2
    have "2 * n < d * (mag_value m + mag_value (Suc m)) \<longleftrightarrow> 2 * r < D"
      "2 * n = d * (mag_value m + mag_value (Suc m)) \<longleftrightarrow> 2 * r = D"
      unfolding 2 distrib_left Vb using n by linarith+
    then show ?thesis unfolding le up_def using 2 par by auto
  next
    case 3
    then have "d * mag_value (Suc b) \<le> d * mag_value m" "d * mag_value m < d * mag_value (Suc m)"
      using d by simp_all
    moreover have "n < d * mag_value (Suc b)" using Vb n r by linarith
    ultimately have "2 * n < d * (mag_value m + mag_value (Suc m))" unfolding distrib_left by linarith
    then show ?thesis unfolding le using 3 by simp
  qed
qed

lemma round_mag_le_inf [simp]: "round_mag n d \<le> inf_mag"
  by (simp add: round_mag_def Let_def)

lemma round_mag_mono:
  assumes "0 < d" "0 < d'" and "n * d' \<le> n' * d"
  shows "round_mag n d \<le> round_mag n' d'"
proof (cases "round_mag n' d' < inf_mag")
  case True
  define m where "m = round_mag n' d'"
  define s where "s = mag_value m + mag_value (Suc m)"
  have "2 * n' < d' * s \<or> 2 * n' = d' * s \<and> even m"
    using round_mag_le_iff [OF assms(2) True, of n'] by (simp add: m_def s_def)
  moreover have "d' * (2 * n) \<le> d * (2 * n')" using assms(3) by (simp add: algebra_simps)
  moreover have "d * (2 * n') < d' * (d * s)" if "2 * n' < d' * s" using that assms(1) by (simp add: mult.left_commute)
  moreover have "d * (2 * n') = d' * (d * s)" if "2 * n' = d' * s" using that by simp
  ultimately have "d' * (2 * n) < d' * (d * s) \<or> d' * (2 * n) \<le> d' * (d * s) \<and> even m" by linarith
  then have "2 * n < d * s \<or> 2 * n \<le> d * s \<and> even m" using assms(2) by simp
  then show ?thesis
    using round_mag_le_iff [OF assms(1) True, of n] by (auto simp: m_def s_def)
next
  case False
  then show ?thesis using round_mag_le_inf [of n d] by linarith
qed

lemma round_mag_exact:
  assumes "0 < d" and "m \<le> inf_mag"
  shows "round_mag (mag_value m * d) d = m"
proof (rule antisym)
  show "round_mag (mag_value m * d) d \<le> m"
  proof (cases "m < inf_mag")
    case True
    have "d * mag_value m < d * mag_value (Suc m)" using assms by simp
    then show ?thesis unfolding round_mag_le_iff [OF assms(1) True] distrib_left by (simp add: mult.commute)
  qed (use round_mag_le_inf [of "mag_value m * d" d] assms(2) in linarith)
  show "m \<le> round_mag (mag_value m * d) d"
  proof (cases m)
    case (Suc k)
    have "d * mag_value k < d * mag_value m" using assms Suc by simp
    then have "\<not> round_mag (mag_value m * d) d \<le> k"
      using round_mag_le_iff [OF assms(1), of k "mag_value m * d"] assms(2) Suc by (simp add: algebra_simps)
    then show ?thesis using Suc by simp
  qed simp
qed

lemma round_mag_le: "0 < d \<Longrightarrow> m \<le> inf_mag \<Longrightarrow> n \<le> mag_value m * d \<Longrightarrow> round_mag n d \<le> m"
  using round_mag_mono [of d d n "mag_value m * d"] round_mag_exact [of d m] by simp

lemma le_round_mag: "0 < d \<Longrightarrow> m \<le> inf_mag \<Longrightarrow> mag_value m * d \<le> n \<Longrightarrow> m \<le> round_mag n d"
  using round_mag_mono [of d d "mag_value m * d" n] round_mag_exact [of d m] by simp

section \<open>Patterns\<close>

abbreviation f32_finite :: "f32 \<Rightarrow> bool" where
  "f32_finite x \<equiv> magnitude x < inf_mag"

lemma magnitude_less: "magnitude x < 2 ^ 31"
  by (simp add: magnitude_def)

lemma f32_make_simps [simp]:
  "m \<le> inf_mag \<Longrightarrow> magnitude (f32_make s m) = m"
  "m \<le> inf_mag \<Longrightarrow> negative (f32_make s m) = s"
  by (auto simp: magnitude_def negative_def f32_make_def unat_of_nat mod_add_left_eq)

lemma f32_value_make [simp]:
  "m \<le> inf_mag \<Longrightarrow> f32_value (f32_make s m) = (if s then - int (mag_value m) else int (mag_value m))"
  by (simp add: f32_value_def)

lemma abs_f32_value: "\<bar>f32_value x\<bar> = int (mag_value (magnitude x))"
  by (simp add: f32_value_def)

lemma f32_finite_iff: "f32_finite x \<longleftrightarrow> \<bar>f32_value x\<bar> < int (mag_value inf_mag)"
  by (simp add: abs_f32_value)

lemma finite_no_inf [simp]: "f32_finite x \<Longrightarrow> \<not> f32_is_nan x" "f32_finite x \<Longrightarrow> \<not> f32_is_inf x"
  by (simp_all add: f32_is_nan_def f32_is_inf_def)

lemma magnitude_eq_0_iff: "magnitude x = 0 \<longleftrightarrow> f32_value x = 0"
  using mag_value_eq_iff [of "magnitude x" 0] by (auto simp: f32_value_def)

lemma negative_iff: "magnitude x \<noteq> 0 \<Longrightarrow> negative x \<longleftrightarrow> f32_value x < 0"
  using mag_value_less_iff [of 0 "magnitude x"] by (auto simp: f32_value_def)

lemma float32BitsAreFinite_iff: "float32BitsAreFinite x \<longleftrightarrow> f32_finite x"
proof -
  have m: "(0x7F800000 :: u32) = push_bit 23 (mask 8)" by (simp add: push_bit_eq_mult mask_eq_exp_minus_1)
  have "x AND 0x7F800000 = push_bit 23 (take_bit 8 (drop_bit 23 x))"
    unfolding m by (rule bit_word_eqI) (auto simp: bit_simps)
  then have "uint (x AND 0x7F800000) = uint (push_bit 23 (take_bit 8 (drop_bit 23 x)))" by simp
  also have "\<dots> = (uint x div 2 ^ 23 mod 2 ^ 8) * 2 ^ 23"
    unfolding unsigned_push_bit_eq unsigned_take_bit_eq unsigned_drop_bit_eq take_bit_push_bit take_bit_take_bit
    using uint_lt2p [of x] by (simp add: push_bit_eq_mult drop_bit_eq_div take_bit_eq_mod)
  finally have "x AND 0x7F800000 = 0x7F800000 \<longleftrightarrow> uint x div 2 ^ 23 mod 2 ^ 8 = 255"
    by (auto simp: word_uint_eq_iff)
  moreover have "uint x div 2 ^ 23 mod 2 ^ 8 = int (magnitude x) div 2 ^ 23"
    using div_exp_mod_exp_eq [of "uint x" 23 8] by (simp add: magnitude_def zmod_int)
  moreover have "int (magnitude x) div 2 ^ 23 \<noteq> 255 \<longleftrightarrow> magnitude x < inf_mag"
    using magnitude_less [of x] by auto
  ultimately show ?thesis by (simp add: float32BitsAreFinite_def)
qed

lemma flip_sign:
  "magnitude (x XOR 0x80000000) = magnitude x" "negative (x XOR 0x80000000) = (\<not> negative x)"
proof -
  have m: "magnitude y = unat (take_bit 31 y)" for y
    unfolding magnitude_def take_bit_eq_mod [symmetric] unsigned_take_bit_eq ..
  have n: "negative y \<longleftrightarrow> bit y 31" for y :: f32
  proof -
    have "bit y 31 \<longleftrightarrow> bit (unat y) 31" by (simp add: bit_unsigned_iff)
    also have "\<dots> \<longleftrightarrow> odd (unat y div 2 ^ 31)" by (rule bit_iff_odd)
    also have "\<dots> \<longleftrightarrow> 1 \<le> unat y div 2 ^ 31"
    proof -
      have "unat y div 2 ^ 31 < 2" using unsigned_less [of y, where 'a = nat] by (simp add: less_mult_imp_div_less)
      then have "unat y div 2 ^ 31 = 0 \<or> unat y div 2 ^ 31 = 1" by linarith
      then show ?thesis by auto
    qed
    finally show ?thesis by (simp add: negative_def less_eq_div_iff_mult_less_eq)
  qed
  have k: "(0x80000000 :: u32) = push_bit 31 1" by (simp add: push_bit_eq_mult)
  show "magnitude (x XOR 0x80000000) = magnitude x"
    unfolding m k by (rule arg_cong [of _ _ unat], rule bit_word_eqI) (auto simp: bit_simps)
  show "negative (x XOR 0x80000000) = (\<not> negative x)" unfolding n k by (simp add: bit_simps)
qed

lemma value_flip [simp]: "f32_value (x XOR 0x80000000) = - f32_value x"
  by (simp add: f32_value_def flip_sign)

section \<open>The value of a rounded result\<close>

definition round_value :: "int \<Rightarrow> nat \<Rightarrow> int" where
  "round_value v d =
    (if v < 0 then - int (mag_value (round_mag (nat (- v)) d)) else int (mag_value (round_mag (nat v) d)))"

lemma round_value_mono:
  assumes "0 < d" and "v \<le> w"
  shows "round_value v d \<le> round_value w d"
proof -
  have "round_mag (nat v) d \<le> round_mag (nat w) d" "round_mag (nat (- w)) d \<le> round_mag (nat (- v)) d"
    using assms by (simp_all add: round_mag_mono)
  then show ?thesis using assms by (auto simp: round_value_def)
qed

lemma round_value_exact:
  assumes "0 < d" and "\<not> f32_is_nan x"
  shows "round_value (f32_value x * int d) d = f32_value x"
proof -
  have m: "round_mag (mag_value (magnitude x) * d) d = magnitude x"
    using assms by (intro round_mag_exact) (simp_all add: f32_is_nan_def)
  have n: "nat (int (mag_value (magnitude x)) * int d) = mag_value (magnitude x) * d"
    by (simp flip: of_nat_mult)
  show ?thesis
  proof (cases "f32_value x < 0")
    case True
    then have "negative x" by (auto simp: f32_value_def split: if_splits)
    then show ?thesis using True assms(1) m n by (simp add: round_value_def f32_value_def mult_neg_pos)
  next
    case False
    show ?thesis
    proof (cases "magnitude x = 0")
      case True
      then show ?thesis using m by (simp add: round_value_def f32_value_def)
    next
      case pos: False
      then have "\<not> negative x" using False negative_iff by blast
      moreover have "\<not> int (mag_value (magnitude x)) * int d < 0" by (simp add: not_less)
      ultimately show ?thesis using m n by (simp add: round_value_def f32_value_def)
    qed
  qed
qed

lemma round_value_exact_int: "\<not> f32_is_nan x \<Longrightarrow> round_value (f32_value x) (Suc 0) = f32_value x"
  using round_value_exact [of 1 x] by simp

lemma f32_rounded:
  "f32_value (f32_make (v < 0) (round_mag (nat \<bar>v\<bar>) d)) = round_value v d"
  by (simp add: round_value_def abs_if)

lemma f32_make_no_nan [simp]: "m \<le> inf_mag \<Longrightarrow> \<not> f32_is_nan (f32_make s m)"
  by (simp add: f32_is_nan_def)

lemma round_value_0 [simp]: "0 < d \<Longrightarrow> round_value 0 d = 0"
  using round_mag_exact [of d 0] by (simp add: round_value_def)

lemma f32_add_value:
  assumes "f32_finite x" "f32_finite y"
  shows "f32_value (f32_add x y) = round_value (f32_value x + f32_value y) 1" "\<not> f32_is_nan (f32_add x y)"
  using assms by (simp_all add: f32_add_def Let_def f32_rounded)

lemma f32_sub_value:
  assumes "f32_finite x" "f32_finite y"
  shows "f32_value (f32_sub x y) = round_value (f32_value x - f32_value y) 1" "\<not> f32_is_nan (f32_sub x y)"
  using f32_add_value [of x "y XOR 0x80000000"] assms by (simp_all add: f32_sub_def flip_sign)

lemma f32_mul_value:
  assumes "f32_finite x" "f32_finite y"
  shows "f32_value (f32_mul x y) = round_value (f32_value x * f32_value y) (2 ^ 149)" "\<not> f32_is_nan (f32_mul x y)"
proof -
  have ab: "nat \<bar>f32_value x * f32_value y\<bar> = mag_value (magnitude x) * mag_value (magnitude y)"
    by (simp add: abs_mult abs_f32_value flip: of_nat_mult)
  show "f32_value (f32_mul x y) = round_value (f32_value x * f32_value y) (2 ^ 149)"
  proof (cases "magnitude x = 0 \<or> magnitude y = 0")
    case True
    then have "f32_value x = 0 \<and> mag_value (magnitude x) = 0 \<or> f32_value y = 0 \<and> mag_value (magnitude y) = 0"
      by (auto simp: f32_value_def)
    then show ?thesis
      using assms round_mag_exact [of "2 ^ 149" 0] by (elim disjE) (simp_all add: f32_mul_def Let_def)
  next
    case False
    then have "f32_value x * f32_value y < 0 \<longleftrightarrow> negative x \<noteq> negative y"
      using magnitude_eq_0_iff [of x] magnitude_eq_0_iff [of y] by (auto simp: negative_iff mult_less_0_iff)
    then show ?thesis
      using assms f32_rounded [of "f32_value x * f32_value y" "2 ^ 149", unfolded ab] by (simp add: f32_mul_def Let_def)
  qed
  show "\<not> f32_is_nan (f32_mul x y)" using assms by (auto simp: f32_mul_def Let_def)
qed

text \<open>Division, by a positive number.\<close>

lemma f32_div_value:
  assumes "f32_finite x" "f32_finite y" and "0 < f32_value y"
  shows "f32_value (f32_div x y) = round_value (f32_value x * 2 ^ 149) (nat (f32_value y))" "\<not> f32_is_nan (f32_div x y)"
proof -
  have y: "magnitude y \<noteq> 0" "\<not> negative y" "nat (f32_value y) = mag_value (magnitude y)"
    using assms(3) magnitude_eq_0_iff [of y] by (auto simp: f32_value_def split: if_splits)
  have ab: "nat \<bar>f32_value x * 2 ^ 149\<bar> = mag_value (magnitude x) * 2 ^ 149"
    by (simp add: abs_mult abs_f32_value nat_mult_distrib)
  show "f32_value (f32_div x y) = round_value (f32_value x * 2 ^ 149) (nat (f32_value y))"
  proof (cases "magnitude x = 0")
    case True
    then have "f32_value x = 0" "mag_value (magnitude x) = 0" by (simp_all add: f32_value_def)
    then show ?thesis
      using assms y round_mag_exact [of "mag_value (magnitude y)" 0] by (simp add: f32_div_def Let_def)
  next
    case False
    then have "f32_value x * 2 ^ 149 < 0 \<longleftrightarrow> negative x" by (simp add: negative_iff mult_less_0_iff)
    then show ?thesis
      using assms y f32_rounded [of "f32_value x * 2 ^ 149" "nat (f32_value y)", unfolded ab] by (simp add: f32_div_def Let_def)
  qed
  show "\<not> f32_is_nan (f32_div x y)" using assms y by (auto simp: f32_div_def Let_def)
qed

lemma f32_of_u32_value:
  "f32_value (f32_of_u32 n) = round_value (uint n * 2 ^ 149) 1" "f32_finite (f32_of_u32 n)"
proof -
  have n: "nat (uint n * 2 ^ 149) = unat n * 2 ^ 149" by (simp add: nat_mult_distrib)
  show "f32_value (f32_of_u32 n) = round_value (uint n * 2 ^ 149) 1"
    using n by (simp add: f32_of_u32_def round_value_def mult_less_0_iff)
  have "unat n * 2 ^ 149 \<le> mag_value 0x4F800000"
    using unsigned_less [of n, where 'a = nat] by (simp add: mag_value_def)
  then have "round_mag (unat n * 2 ^ 149) 1 \<le> 0x4F800000" using round_mag_le [of 1 "0x4F800000"] by simp
  then show "f32_finite (f32_of_u32 n)" by (simp add: f32_of_u32_def)
qed

text \<open>A number that is not a NaN and lies between two finite ones is finite.\<close>

lemma f32_finite_between:
  assumes "f32_finite x" "f32_finite y" "f32_value x \<le> f32_value z" "f32_value z \<le> f32_value y"
  shows "f32_finite z"
  using assms unfolding f32_finite_iff by linarith

section \<open>Evaluation\<close>

lemma nat_len_numeral [simp]:
  "nat_len (numeral num.One) = 1" "nat_len (numeral (num.Bit0 n)) = Suc (nat_len (numeral n))"
  "nat_len (numeral (num.Bit1 n)) = Suc (nat_len (numeral n))" "nat_len (Suc 0) = 1"
  by (simp_all add: nat_len.simps [of "numeral _"] nat_len.simps [of 1] nat_len.simps [of "Suc 0"])

text \<open>
  A rounding need not be computed to be checked: a magnitude is the right one when the fraction
  lies between its two midpoints. With these rules an operation on literals takes a few products
  and comparisons (\<open>rule\<close>, then \<open>simp_all add: f32_literal\<close>).
\<close>

definition nearest :: "nat \<Rightarrow> nat \<Rightarrow> nat \<Rightarrow> bool" where
  "nearest n d m \<longleftrightarrow> 0 < d \<and> m < inf_mag
    \<and> (m = 0 \<or> d * (mag_value (m - 1) + mag_value m) < 2 * n \<or> d * (mag_value (m - 1) + mag_value m) = 2 * n \<and> even m)
    \<and> (2 * n < d * (mag_value m + mag_value (Suc m)) \<or> 2 * n = d * (mag_value m + mag_value (Suc m)) \<and> even m)"

lemma nearest_round: "nearest n d m \<Longrightarrow> round_mag n d = m"
proof -
  assume n: "nearest n d m"
  then have "round_mag n d \<le> m" using round_mag_le_iff [of d m n] by (auto simp: nearest_def)
  moreover have "\<not> round_mag n d \<le> k" if "m = Suc k" for k
    using n round_mag_le_iff [of d k n] that by (auto simp: nearest_def)
  ultimately show ?thesis by (cases m) (auto simp: not_less_eq_eq)
qed

lemma f32_make_pattern: "f32_make (negative x) (magnitude x) = x"
proof -
  have "unat x mod 2 ^ 31 = unat x - 2 ^ 31" if "2 ^ 31 \<le> unat x"
    using that unsigned_less [of x, where 'a = nat] by (simp add: le_mod_geq)
  then show ?thesis by (auto simp: f32_make_def negative_def magnitude_def)
qed

lemma f32_div_check:
  assumes "f32_finite x" "f32_finite y" "magnitude y \<noteq> 0" "negative r = (negative x \<noteq> negative y)"
    and "nearest (mag_value (magnitude x) * 2 ^ 149) (mag_value (magnitude y)) (magnitude r)"
  shows "f32_div x y = r"
  using assms nearest_round [OF assms(5)] f32_make_pattern [of r] by (auto simp: f32_div_def Let_def)

lemma f32_mul_check:
  assumes "f32_finite x" "f32_finite y" "negative r = (negative x \<noteq> negative y)"
    and "nearest (mag_value (magnitude x) * mag_value (magnitude y)) (2 ^ 149) (magnitude r)"
  shows "f32_mul x y = r"
  using assms nearest_round [OF assms(4)] f32_make_pattern [of r] by (simp add: f32_mul_def Let_def)

lemma f32_add_check:
  assumes "f32_finite x" "f32_finite y" "f32_value x + f32_value y \<noteq> 0" "negative r = (f32_value x + f32_value y < 0)"
    and "nearest (nat \<bar>f32_value x + f32_value y\<bar>) 1 (magnitude r)"
  shows "f32_add x y = r"
  using assms nearest_round [OF assms(5)] f32_make_pattern [of r] by (simp add: f32_add_def Let_def)

lemma f32_sub_check: "f32_add x (y XOR 0x80000000) = r \<Longrightarrow> f32_sub x y = r"
  by (simp add: f32_sub_def)

lemma f32_of_u32_check:
  assumes "\<not> negative r" "nearest (unat n * 2 ^ 149) 1 (magnitude r)"
  shows "f32_of_u32 n = r"
  using assms nearest_round [OF assms(2)] f32_make_pattern [of r] by (simp add: f32_of_u32_def)

lemmas f32_literal = nearest_def magnitude_def negative_def mag_value_def f32_value_def f32_is_nan_def f32_less_def f32_le_def f32_eq_def
  ceil_u32_def floor_u32_def

end
