(* ===== verification/Wire_Format.thy ===== *)
theory Wire_Format
  imports Stream_Params
begin

text \<open>
  The abstract specification of the streams (STANDARD.md): for each operation the values it
  accepts (\<open>ok_...\<close>) and the bits it puts on the wire (\<open>wire_...\<close>), least significant first. An
  operation that aligns depends on the bit position it starts at. The tiers of int_relative
  are the literal table of the standard, not the code's bucket array.
\<close>

section \<open>Encodings\<close>

definition wire_align :: "nat \<Rightarrow> bool list" where
  "wire_align pos = replicate (align_len pos) False"

definition wire_int :: "i32 \<Rightarrow> i32 \<Rightarrow> i32 \<Rightarrow> bool list" where
  "wire_int mn mx v = bits_of (Len (mx - mn)) (v - mn)"

definition wire_int64 :: "i64 \<Rightarrow> i64 \<Rightarrow> i64 \<Rightarrow> bool list" where
  "wire_int64 mn mx v = bits_of (Len (mx - mn)) (v - mn)"

definition wire_int128 :: "int128 \<Rightarrow> int128 \<Rightarrow> int128 \<Rightarrow> bool list" where
  "wire_int128 mn mx v = bits_of (nat_len (unat (i128 mx - i128 mn))) (i128 v - i128 mn)"

definition wire_fixed64 :: "int \<Rightarrow> int \<Rightarrow> i64 \<Rightarrow> i64 \<Rightarrow> i64 \<Rightarrow> bool list" where
  "wire_fixed64 ib fb mn mx v =
    (let (rawMin, _, n) = fixedPointParams64 ib fb mn mx in bits_of (nat n) (v - rawMin))"

definition wire_fixed128 :: "int \<Rightarrow> int \<Rightarrow> i64 \<Rightarrow> i64 \<Rightarrow> int128 \<Rightarrow> bool list" where
  "wire_fixed128 ib fb mn mx v =
    (let (rawMin, _, n) = fixedPointParams128 ib fb mn mx in bits_of (nat n) (i128 v - u128 rawMin))"

definition wire_bytes :: "u8 list \<Rightarrow> nat \<Rightarrow> bool list" where
  "wire_bytes bs pos = wire_align pos @ bytes_bits bs"

definition wire_string :: "int \<Rightarrow> u8 list \<Rightarrow> nat \<Rightarrow> bool list" where
  "wire_string bufferSize t pos =
    (let n = Len (word_of_int (bufferSize - 1) :: u32)
     in bits_of n (word_of_nat (length t) :: u32) @ wire_bytes t (pos + n))"

definition wire_int_relative :: "i32 \<Rightarrow> i32 \<Rightarrow> bool list" where
  "wire_int_relative previous current =
    (let d = current - previous
     in if d = 1 then [True]
        else if d \<le> 6 then [False, True] @ bits_of 3 (d - 2)
        else if d \<le> 23 then [False, False, True] @ bits_of 5 (d - 7)
        else if d \<le> 280 then [False, False, False, True] @ bits_of 9 (d - 24)
        else if d \<le> 4377 then [False, False, False, False, True] @ bits_of 13 (d - 281)
        else if d \<le> 69914 then [False, False, False, False, False, True] @ bits_of 17 (d - 4378)
        else [False, False, False, False, False, False] @ bits_of 32 current)"

section \<open>Conforming values\<close>

definition ok_bits :: "int \<Rightarrow> u32 \<Rightarrow> bool" where
  "ok_bits n v \<longleftrightarrow> 1 \<le> n \<and> n \<le> 32 \<and> uint v < 2 ^ nat n"

definition ok_bits64 :: "int \<Rightarrow> u64 \<Rightarrow> bool" where
  "ok_bits64 n v \<longleftrightarrow> 1 \<le> n \<and> n \<le> 64 \<and> uint v < 2 ^ nat n"

definition ok_int :: "i32 \<Rightarrow> i32 \<Rightarrow> i32 \<Rightarrow> bool" where
  "ok_int mn mx v \<longleftrightarrow> sint mn \<le> sint v \<and> sint v \<le> sint mx"

definition ok_int64 :: "i64 \<Rightarrow> i64 \<Rightarrow> i64 \<Rightarrow> bool" where
  "ok_int64 mn mx v \<longleftrightarrow> sint mn \<le> sint v \<and> sint v \<le> sint mx"

definition ok_int128 :: "int128 \<Rightarrow> int128 \<Rightarrow> int128 \<Rightarrow> bool" where
  "ok_int128 mn mx v \<longleftrightarrow> sint (i128 mn) \<le> sint (i128 v) \<and> sint (i128 v) \<le> sint (i128 mx)"

definition ok_fixed64 :: "int \<Rightarrow> int \<Rightarrow> i64 \<Rightarrow> i64 \<Rightarrow> i64 \<Rightarrow> bool" where
  "ok_fixed64 ib fb mn mx v \<longleftrightarrow>
    (let (rawMin, rawRange, n) = fixedPointParams64 ib fb mn mx in 0 \<le> n \<and> v - rawMin \<le> rawRange)"

definition ok_fixed128 :: "int \<Rightarrow> int \<Rightarrow> i64 \<Rightarrow> i64 \<Rightarrow> int128 \<Rightarrow> bool" where
  "ok_fixed128 ib fb mn mx v \<longleftrightarrow> go_int ib \<and> go_int fb \<and>
    (let (rawMin, rawRange, n) = fixedPointParams128 ib fb mn mx in 0 \<le> n \<and> i128 v - u128 rawMin \<le> u128 rawRange)"

definition ok_string :: "int \<Rightarrow> u8 list \<Rightarrow> bool" where
  "ok_string bufferSize t \<longleftrightarrow> bufferSizeValid bufferSize \<and> int (length t) < bufferSize \<and> 0 \<notin> set t \<and> utf8_valid t"

definition ok_int_relative :: "i32 \<Rightarrow> i32 \<Rightarrow> bool" where
  "ok_int_relative previous current \<longleftrightarrow> 0 \<le> sint previous \<and> sint previous < sint current"

section \<open>A conforming value fits its field\<close>

lemma range_offset:
  fixes mn mx v :: "'a::len word"
  assumes "sint mn \<le> sint v" and "sint v \<le> sint mx"
  shows "v - mn \<le> mx - mn" and "take_bit (Len (mx - mn)) (v - mn) = v - mn"
proof -
  show "v - mn \<le> mx - mn" using assms by (simp add: word_le_def uint_diff_sint)
  then show "take_bit (Len (mx - mn)) (v - mn) = v - mn" by (rule fits_of_le)
qed

text \<open>An offset a reader accepts is the offset of exactly one value of the range.\<close>

lemma offset_range:
  fixes mn mx u :: "'a::len word"
  assumes "sint mn \<le> sint mx" and "u \<le> mx - mn"
  shows "sint mn \<le> sint (u + mn)" and "sint (u + mn) \<le> sint mx"
proof -
  have u: "uint u \<le> sint mx - sint mn" using assms by (simp add: word_le_def uint_diff_sint)
  have u0: "0 \<le> uint u" by simp
  have b: "- (2 ^ (LENGTH('a) - 1)) \<le> sint mn" "sint mx < 2 ^ (LENGTH('a) - 1)"
    using sint_greater_eq [of mn] sint_less [of mx] by simp_all
  have w: "u + mn = word_of_int (uint u + sint mn)" by simp
  have "sint (word_of_int k :: 'a word) = signed_take_bit (LENGTH('a) - 1) k" for k by (simp add: signed_of_int)
  then have "sint (u + mn) = signed_take_bit (LENGTH('a) - 1) (uint u + sint mn)" unfolding w .
  moreover have "- (2 ^ (LENGTH('a) - 1)) \<le> uint u + sint mn" and "uint u + sint mn < 2 ^ (LENGTH('a) - 1)"
    using u b u0 by linarith+
  ultimately have s: "sint (u + mn) = uint u + sint mn" by (simp only: signed_take_bit_int_eq_self)
  show "sint mn \<le> sint (u + mn)" "sint (u + mn) \<le> sint mx" unfolding s using u u0 by linarith+
qed

lemma ok_bits_iff: "ok_bits n v \<longleftrightarrow> 1 \<le> n \<and> n \<le> 32 \<and> take_bit (nat n) v = v"
  by (simp add: ok_bits_def take_bit_eq_self_iff_uint)

lemma ok_bits64_iff: "ok_bits64 n v \<longleftrightarrow> 1 \<le> n \<and> n \<le> 64 \<and> take_bit (nat n) v = v"
  by (simp add: ok_bits64_def take_bit_eq_self_iff_uint)

lemma length_wire_align [simp]: "length (wire_align pos) = align_len pos"
  by (simp add: wire_align_def)

lemma Int128_Cmp_sint:
  "0 < Int128_Cmp x y \<longleftrightarrow> sint (i128 y) < sint (i128 x)" "Int128_Cmp x y < 0 \<longleftrightarrow> sint (i128 x) < sint (i128 y)"
proof -
  have eq: "i128 x = i128 y \<longleftrightarrow> sint (i128 x) = sint (i128 y)" by (auto intro: signed_word_eqI simp del: i128_eq_iff)
  show "0 < Int128_Cmp x y \<longleftrightarrow> sint (i128 y) < sint (i128 x)" "Int128_Cmp x y < 0 \<longleftrightarrow> sint (i128 x) < sint (i128 y)"
    unfolding i128_Cmp word_sless_alt eq by auto
qed

lemma BitsRequired128_nat_len: "BitsRequired128 (Int128_Uint128 mn) (Int128_Uint128 mx) = nat_len (unat (i128 mx - i128 mn))"
proof -
  have "BitsRequired128 (Int128_Uint128 mn) (Int128_Uint128 mx) \<le> k \<longleftrightarrow> nat_len (unat (i128 mx - i128 mn)) \<le> k" for k
    by (simp add: BitsRequired128_le_iff nat_len_le_iff)
  then show ?thesis by (meson antisym order_refl)
qed

lemma nat_len_128: "nat_len (unat (w :: 128 word)) \<le> 128"
  using unsigned_less [of w, where 'a = nat] by (simp add: nat_len_le_iff)

lemma ok_fixed64_bits:
  assumes "ok_fixed64 ib fb mn mx v" and "fixedPointParams64 ib fb mn mx = (rawMin, rawRange, n)"
  shows "0 \<le> n" and "n \<le> 64" and "v - rawMin \<le> rawRange" and "take_bit (nat n) (v - rawMin) = v - rawMin"
proof -
  show n: "0 \<le> n" and le: "v - rawMin \<le> rawRange" using assms by (simp_all add: ok_fixed64_def)
  show "n \<le> 64" using fixedPointParams64_bits [OF assms(2)] n by (auto simp: fixedMisuseParams_def fixedMisuseBounds_def)
  show "take_bit (nat n) (v - rawMin) = v - rawMin" by (rule fixed64_fits [OF assms(2) n le])
qed

lemma ok_fixed128_bits:
  assumes "ok_fixed128 ib fb mn mx v" and "fixedPointParams128 ib fb mn mx = (rawMin, rawRange, n)"
  shows "0 \<le> n" and "n \<le> 128" and "i128 v - u128 rawMin \<le> u128 rawRange"
    and "take_bit (nat n) (i128 v - u128 rawMin) = i128 v - u128 rawMin"
proof -
  show n: "0 \<le> n" and le: "i128 v - u128 rawMin \<le> u128 rawRange" using assms by (simp_all add: ok_fixed128_def)
  have go: "go_int ib" "go_int fb" using assms(1) by (simp_all add: ok_fixed128_def)
  show "n \<le> 128" by (rule fixed128_fits(1) [OF go assms(2) n])
  show "take_bit (nat n) (i128 v - u128 rawMin) = i128 v - u128 rawMin"
    using fixed128_fits(2) [OF go assms(2) n, of "Uint128_Sub (Int128_Uint128 v) rawMin"] le
    by (simp add: u128_Sub take_bit_eq_self_iff_unat)
qed

section \<open>The bucket array and the table\<close>

text \<open>
  The bucket array covers the differences from 2 without a gap, inside the positive \<open>int32\<close>
  range, up to \<open>intRelativeBoundedMax\<close>, so a difference past the earlier buckets is in range for
  the one it falls in.
\<close>

primrec buckets_from :: "u32 \<Rightarrow> (u32 \<times> u32) list \<Rightarrow> bool" where
  "buckets_from k [] \<longleftrightarrow> k = word_of_int (intRelativeBoundedMax + 1)"
| "buckets_from k (b # bs) \<longleftrightarrow> fst b = k \<and> fst b \<le> snd b \<and> uint (snd b) < 2 ^ 31 \<and> buckets_from (snd b + 1) bs"

primrec wire_buckets :: "u32 \<Rightarrow> i32 \<Rightarrow> (u32 \<times> u32) list \<Rightarrow> bool list" where
  "wire_buckets d current [] = bits_of 32 current"
| "wire_buckets d current (b # bs) =
    (if d \<le> snd b then True # wire_int (fst b) (snd b) d else False # wire_buckets d current bs)"

lemma buckets_from_2: "buckets_from 2 intRelativeBuckets"
  by (simp add: intRelativeBuckets_def intRelativeBoundedMax_def)

lemma sint_small: "uint (w :: u32) < 2 ^ 31 \<Longrightarrow> sint w = uint w"
proof -
  assume "uint w < 2 ^ 31"
  then have "take_bit 31 w = w" by (simp only: take_bit_eq_self_iff_uint)
  then have "\<not> bit w 31" by (rule bit_beyond_take_bit) simp
  then show ?thesis by (simp add: sint_uint_msb)
qed

lemma bucket_ok:
  assumes "uint hi < 2 ^ 31" and "lo \<le> d" and "d \<le> (hi :: u32)"
  shows "ok_int lo hi d"
proof -
  have "uint lo \<le> uint d" "uint d \<le> uint hi" using assms(2,3) by (simp_all add: word_le_def)
  then show ?thesis using assms(1) by (simp add: ok_int_def sint_small)
qed

lemma word_Suc_le: "k \<le> hi \<Longrightarrow> uint hi < 2 ^ 31 \<Longrightarrow> \<not> d \<le> hi \<Longrightarrow> hi + 1 \<le> (d :: u32)"
  by (simp add: not_le inc_le)

lemma Len_literals:
  "Len (4 :: u32) = 3" "Len (16 :: u32) = 5" "Len (256 :: u32) = 9" "Len (4096 :: u32) = 13" "Len (65536 :: u32) = 17"
  by (simp_all add: Len_def nat_len.simps)

lemma wire_int_relative_buckets:
  "wire_int_relative previous current =
    (let d = current - previous in if d = 1 then [True] else False # wire_buckets d current intRelativeBuckets)"
  by (simp add: wire_int_relative_def intRelativeBuckets_def intRelativeBoundedMax_def wire_int_def Len_literals Let_def)

end
