(* ===== verification/Write_Stream.thy ===== *)
theory Write_Stream
  imports Wire_Format Bit_Writer
begin

text \<open>
  \<open>WriteStream\<close> (write_stream.go). Every operation of the code returns a nil error or panics, so
  an operation here is a function to \<open>'c write_stream res\<close>. The context is an arbitrary value,
  \<open>None\<close> when it was never set.
\<close>

section \<open>State and operations\<close>

record 'c write_stream =
  ws_data :: "u8 list"
  ws_scratch :: u64
  ws_numBits :: nat
  ws_bitsWritten :: nat
  ws_context :: "'c option"

definition WriteStream_Reset :: "'c write_stream \<Rightarrow> u8 list \<Rightarrow> 'c write_stream res" where
  "WriteStream_Reset s buffer =
    (if length buffer mod 8 \<noteq> 0 then Inl PanicBufferBytes
     else Inr (s\<lparr>ws_data := buffer, ws_scratch := 0, ws_numBits := length buffer * 8,
                 ws_bitsWritten := 0\<rparr>))"

definition NewWriteStream :: "u8 list \<Rightarrow> 'c write_stream res" where
  "NewWriteStream buffer =
    WriteStream_Reset \<lparr>ws_data = [], ws_scratch = 0, ws_numBits = 0, ws_bitsWritten = 0, ws_context = None\<rparr> buffer"

definition WriteStream_IsWriting :: "'c write_stream \<Rightarrow> bool" where
  "WriteStream_IsWriting s = True"

definition WriteStream_IsReading :: "'c write_stream \<Rightarrow> bool" where
  "WriteStream_IsReading s = False"

definition WriteStream_room :: "'c write_stream \<Rightarrow> nat \<Rightarrow> unit res" where
  "WriteStream_room s bits =
    (if ws_numBits s < ws_bitsWritten s + bits then Inl PanicWriteOverflow else Inr ())"

text \<open>
  \<open>(bw>>3)&^7\<close>, the store offset of the current qword, is \<open>bw\<close> shifted down by three and cleared
  of its low three bits.
\<close>

definition qword_offset :: "nat \<Rightarrow> nat" where
  "qword_offset bw = drop_bit 3 bw div 8 * 8"

definition WriteStream_tryWriteBits :: "'c write_stream \<Rightarrow> u32 \<Rightarrow> nat \<Rightarrow> (bool \<times> 'c write_stream) res" where
  "WriteStream_tryWriteBits s value bits =
    (let bw = ws_bitsWritten s
     in if ws_numBits s < bw + bits then Inr (False, s)
        else
          let sb = bw AND 63;
              s = s\<lparr>ws_scratch := ws_scratch s OR push_bit sb (ucast value),
                    ws_bitsWritten := bw + bits\<rparr>
          in if 64 \<le> sb + bits then
               andThen (put_word (ws_data s) (qword_offset bw) (ws_scratch s)) (\<lambda>d.
                 Inr (True, s\<lparr>ws_data := d, ws_scratch := drop_bit (64 - sb) (ucast value)\<rparr>))
             else Inr (True, s))"

definition WriteStream_tryWriteBits64 :: "'c write_stream \<Rightarrow> u64 \<Rightarrow> nat \<Rightarrow> (bool \<times> 'c write_stream) res" where
  "WriteStream_tryWriteBits64 s value bits =
    (let bw = ws_bitsWritten s
     in if ws_numBits s < bw + bits then Inr (False, s)
        else
          let sb = bw AND 63;
              s = s\<lparr>ws_scratch := ws_scratch s OR push_bit sb value,
                    ws_bitsWritten := bw + bits\<rparr>
          in if 64 \<le> sb + bits then
               andThen (put_word (ws_data s) (qword_offset bw) (ws_scratch s)) (\<lambda>d.
                 Inr (True, s\<lparr>ws_data := d, ws_scratch := drop_bit (64 - sb) value\<rparr>))
             else Inr (True, s))"

definition WriteStream_writeBits :: "'c write_stream \<Rightarrow> u32 \<Rightarrow> nat \<Rightarrow> 'c write_stream res" where
  "WriteStream_writeBits s value bits =
    andThen (WriteStream_tryWriteBits s value bits) (\<lambda>(ok, s).
      if \<not> ok then Inl PanicWriteOverflow else Inr s)"

definition WriteStream_writeBits64 :: "'c write_stream \<Rightarrow> u64 \<Rightarrow> nat \<Rightarrow> 'c write_stream res" where
  "WriteStream_writeBits64 s value bits =
    andThen (WriteStream_tryWriteBits64 s value bits) (\<lambda>(ok, s).
      if \<not> ok then Inl PanicWriteOverflow else Inr s)"

definition WriteStream_writeBool :: "'c write_stream \<Rightarrow> bool \<Rightarrow> 'c write_stream res" where
  "WriteStream_writeBool s value = WriteStream_writeBits s (if value then 1 else 0) 1"

definition WriteStream_SerializeBits :: "'c write_stream \<Rightarrow> u32 \<Rightarrow> int \<Rightarrow> 'c write_stream res" where
  "WriteStream_SerializeBits s v bits =
    (if bits < 1 \<or> 32 < bits then Inl PanicBitsRange
     else if drop_bit (nat (32 - bits)) (NOT 0) < v then Inl PanicValueTooWide
     else WriteStream_writeBits s v (nat bits))"

definition WriteStream_SerializeBits64 :: "'c write_stream \<Rightarrow> u64 \<Rightarrow> int \<Rightarrow> 'c write_stream res" where
  "WriteStream_SerializeBits64 s v bits =
    (if bits < 1 \<or> 64 < bits then Inl PanicBitsRange64
     else if drop_bit (nat (64 - bits)) (NOT 0) < v then Inl PanicValueTooWide
     else WriteStream_writeBits64 s v (nat bits))"

definition WriteStream_SerializeInt :: "'c write_stream \<Rightarrow> i32 \<Rightarrow> i32 \<Rightarrow> i32 \<Rightarrow> 'c write_stream res" where
  "WriteStream_SerializeInt s v mn mx =
    (if mx <s mn then Inl PanicMinMax
     else if v <s mn \<or> mx <s v then Inl PanicValueOutOfRange
     else andThen (WriteStream_tryWriteBits s (v - mn) (BitsRequired mn mx)) (\<lambda>(ok, s).
            if \<not> ok then Inl PanicWriteOverflow else Inr s))"

definition WriteStream_SerializeInt64 :: "'c write_stream \<Rightarrow> i64 \<Rightarrow> i64 \<Rightarrow> i64 \<Rightarrow> 'c write_stream res" where
  "WriteStream_SerializeInt64 s v mn mx =
    (if mx <s mn then Inl PanicMinMax
     else if v <s mn \<or> mx <s v then Inl PanicValueOutOfRange
     else WriteStream_writeBits64 s (v - mn) (BitsRequired64 mn mx))"

text \<open>\<open>writeGroups128\<close> drops the results of \<open>tryWriteBits64\<close>: the caller has checked the room.\<close>

definition WriteStream_writeGroups128 :: "'c write_stream \<Rightarrow> uint128 \<Rightarrow> nat \<Rightarrow> 'c write_stream res" where
  "WriteStream_writeGroups128 s offset numBits =
    (if numBits \<le> 64 then
       andThen (WriteStream_tryWriteBits64 s (Lo offset) numBits) (\<lambda>(_, s). Inr s)
     else
       andThen (WriteStream_tryWriteBits64 s (Lo offset) 64) (\<lambda>(_, s).
       andThen (WriteStream_tryWriteBits64 s (Hi offset) (numBits - 64)) (\<lambda>(_, s). Inr s)))"

definition WriteStream_SerializeInt128 :: "'c write_stream \<Rightarrow> int128 \<Rightarrow> int128 \<Rightarrow> int128 \<Rightarrow> 'c write_stream res" where
  "WriteStream_SerializeInt128 s v mn mx =
    (if 0 < Int128_Cmp mn mx then Inl PanicMinMax
     else if Int128_Cmp v mn < 0 \<or> 0 < Int128_Cmp v mx then Inl PanicValueOutOfRange
     else
       let numBits = BitsRequired128 (Int128_Uint128 mn) (Int128_Uint128 mx)
       in andThen (WriteStream_room s numBits) (\<lambda>_.
          WriteStream_writeGroups128 s (Uint128_Sub (Int128_Uint128 v) (Int128_Uint128 mn)) numBits))"

definition WriteStream_SerializeUint128 :: "'c write_stream \<Rightarrow> uint128 \<Rightarrow> 'c write_stream res" where
  "WriteStream_SerializeUint128 s value =
    andThen (WriteStream_room s 128) (\<lambda>_.
    andThen (WriteStream_tryWriteBits64 s (Lo value) 64) (\<lambda>(_, s).
    andThen (WriteStream_tryWriteBits64 s (Hi value) 64) (\<lambda>(_, s). Inr s)))"

definition WriteStream_SerializeFixed64 ::
  "'c write_stream \<Rightarrow> i64 \<Rightarrow> int \<Rightarrow> int \<Rightarrow> i64 \<Rightarrow> i64 \<Rightarrow> 'c write_stream res" where
  "WriteStream_SerializeFixed64 s value integerBits fractionBits mn mx =
    (let (rawMin, rawRange, numBits) = fixedPointParams64 integerBits fractionBits mn mx
     in andThen (checkFixedPointParams numBits) (\<lambda>_.
          let offset = value - rawMin
          in if rawRange < offset then Inl PanicValueOutOfRange
             else WriteStream_writeBits64 s offset (nat numBits)))"

definition WriteStream_SerializeFixed128 ::
  "'c write_stream \<Rightarrow> int128 \<Rightarrow> int \<Rightarrow> int \<Rightarrow> i64 \<Rightarrow> i64 \<Rightarrow> 'c write_stream res" where
  "WriteStream_SerializeFixed128 s value integerBits fractionBits mn mx =
    (let (rawMin, rawRange, numBits) = fixedPointParams128 integerBits fractionBits mn mx
     in andThen (checkFixedPointParams numBits) (\<lambda>_.
          let offset = Uint128_Sub (Int128_Uint128 value) rawMin
          in if 0 < Uint128_Cmp offset rawRange then Inl PanicValueOutOfRange
             else andThen (WriteStream_room s (nat numBits)) (\<lambda>_.
                    WriteStream_writeGroups128 s offset (nat numBits))))"

definition WriteStream_SerializeUint8 :: "'c write_stream \<Rightarrow> u8 \<Rightarrow> 'c write_stream res" where
  "WriteStream_SerializeUint8 s value = WriteStream_writeBits s (ucast value) 8"

definition WriteStream_SerializeUint16 :: "'c write_stream \<Rightarrow> u16 \<Rightarrow> 'c write_stream res" where
  "WriteStream_SerializeUint16 s value = WriteStream_writeBits s (ucast value) 16"

definition WriteStream_SerializeUint32 :: "'c write_stream \<Rightarrow> u32 \<Rightarrow> 'c write_stream res" where
  "WriteStream_SerializeUint32 s value = WriteStream_writeBits s value 32"

definition WriteStream_SerializeUint64 :: "'c write_stream \<Rightarrow> u64 \<Rightarrow> 'c write_stream res" where
  "WriteStream_SerializeUint64 s value = WriteStream_writeBits64 s value 64"

definition WriteStream_SerializeBool :: "'c write_stream \<Rightarrow> bool \<Rightarrow> 'c write_stream res" where
  "WriteStream_SerializeBool s value = WriteStream_writeBool s value"

text \<open>Floats are their bit patterns: \<open>math.Float32bits\<close> is the identity of the model.\<close>

definition WriteStream_SerializeFloat32 :: "'c write_stream \<Rightarrow> u32 \<Rightarrow> 'c write_stream res" where
  "WriteStream_SerializeFloat32 s bits =
    (if \<not> float32BitsAreFinite bits then Inl PanicNonFiniteFloat
     else WriteStream_writeBits s bits 32)"

definition WriteStream_SerializeFloat64 :: "'c write_stream \<Rightarrow> u64 \<Rightarrow> 'c write_stream res" where
  "WriteStream_SerializeFloat64 s bits =
    (if \<not> float64BitsAreFinite bits then Inl PanicNonFiniteFloat
     else WriteStream_writeBits64 s bits 64)"

text \<open>\<open>-bits & 7\<close> in two's complement.\<close>

definition neg_and_7 :: "nat \<Rightarrow> nat" where
  "neg_and_7 n = nat ((- int n) AND 7)"

definition writeBytesStream :: "'c write_stream \<Rightarrow> u8 list \<Rightarrow> 'c write_stream res" where
  "writeBytesStream s data =
    (if ws_bitsWritten s mod 8 \<noteq> 0 then Inl PanicNotAligned
     else
       let n = length data;
           headBytes = min ((8 - ws_bitsWritten s mod 64 div 8) mod 8) n;
           put_byte = (\<lambda>s b. andThen (WriteStream_tryWriteBits s (ucast (b::u8)) 8) (\<lambda>(_, s). Inr s))
       in andThen (foldM put_byte s (take headBytes data)) (\<lambda>s.
          if headBytes = n then Inr s
          else
            let numWords = (n - headBytes) div 8
            in andThen
                 (if 0 < numWords then
                    andThen (copy_at (ws_data s) (drop_bit 3 (ws_bitsWritten s))
                               (take (numWords * 8) (drop headBytes data))) (\<lambda>d.
                      Inr (s\<lparr>ws_data := d, ws_bitsWritten := ws_bitsWritten s + numWords * 64\<rparr>))
                  else Inr s) (\<lambda>s.
                 foldM put_byte s (drop (headBytes + numWords * 8) data))))"

definition WriteStream_SerializeBytes :: "'c write_stream \<Rightarrow> u8 list \<Rightarrow> 'c write_stream res" where
  "WriteStream_SerializeBytes s data =
    (let alignBits = neg_and_7 (ws_bitsWritten s)
     in andThen (WriteStream_room s (alignBits + length data * 8)) (\<lambda>_.
        andThen (WriteStream_tryWriteBits s 0 alignBits) (\<lambda>(_, s).
          writeBytesStream s data)))"

definition WriteStream_SerializeString :: "'c write_stream \<Rightarrow> u8 list \<Rightarrow> int \<Rightarrow> 'c write_stream res" where
  "WriteStream_SerializeString s value bufferSize =
    andThen (validateBufferSize bufferSize) (\<lambda>_.
      if bufferSize \<le> int (length value) then Inl PanicStringTooLong
      else andThen (checkStringText value) (\<lambda>_.
        let lengthBits = BitsRequired 0 (word_of_int (bufferSize - 1));
            end_bits = ws_bitsWritten s + lengthBits;
            alignBits = neg_and_7 end_bits
        in andThen (WriteStream_room s (lengthBits + alignBits + length value * 8)) (\<lambda>_.
           andThen (WriteStream_tryWriteBits s (word_of_nat (length value)) lengthBits) (\<lambda>(_, s).
           andThen (WriteStream_tryWriteBits s 0 alignBits) (\<lambda>(_, s).
             writeBytesStream s value)))))"

definition WriteStream_SerializeAlign :: "'c write_stream \<Rightarrow> 'c write_stream res" where
  "WriteStream_SerializeAlign s =
    (let alignBits = neg_and_7 (ws_bitsWritten s)
     in if alignBits = 0 then Inr s else WriteStream_writeBits s 0 alignBits)"

definition WriteStream_SerializeEnd :: "'c write_stream \<Rightarrow> 'c write_stream res" where
  "WriteStream_SerializeEnd s = Inr s"

text \<open>
  \<open>SerializeObject\<close>: the object is the caller's serialize function, given the stream and what the object
  holds; what it holds afterwards and its error are returned as they are.
\<close>

definition WriteStream_SerializeObject ::
  "'c write_stream \<Rightarrow> ('c write_stream \<Rightarrow> 'o \<Rightarrow> ('c write_stream \<times> 'o \<times> go_error option) res) \<Rightarrow> 'o
    \<Rightarrow> ('c write_stream \<times> 'o \<times> go_error option) res" where
  "WriteStream_SerializeObject s object held = object s held"

text \<open>The loop over the int_relative buckets, with the absolute tier after the last.\<close>

fun write_buckets :: "'c write_stream \<Rightarrow> u32 \<Rightarrow> i32 \<Rightarrow> (u32 \<times> u32) list \<Rightarrow> 'c write_stream res" where
  "write_buckets s difference current [] = WriteStream_writeBits s current 32"
| "write_buckets s difference current ((bmin, bmax) # buckets) =
    andThen (WriteStream_writeBool s (difference \<le> bmax)) (\<lambda>s.
      if difference \<le> bmax then WriteStream_SerializeInt s difference bmin bmax
      else write_buckets s difference current buckets)"

definition WriteStream_SerializeIntRelative :: "'c write_stream \<Rightarrow> i32 \<Rightarrow> i32 \<Rightarrow> 'c write_stream res" where
  "WriteStream_SerializeIntRelative s previous current =
    (if previous <s word_of_int intRelativeMin then Inl PanicIntRelativeDomain
     else if current \<le>s previous then Inl PanicIntRelativeOrder
     else
       let difference = current - previous
       in andThen (WriteStream_writeBool s (difference = 1)) (\<lambda>s.
            if difference = 1 then Inr s
            else write_buckets s difference current intRelativeBuckets))"

definition WriteStream_Flush :: "'c write_stream \<Rightarrow> 'c write_stream res" where
  "WriteStream_Flush s =
    (if ws_bitsWritten s AND 63 \<noteq> 0 then
       andThen (put_word (ws_data s) (qword_offset (ws_bitsWritten s)) (ws_scratch s)) (\<lambda>d.
         Inr (s\<lparr>ws_data := d\<rparr>))
     else Inr s)"

definition WriteStream_AlignBits :: "'c write_stream \<Rightarrow> nat" where
  "WriteStream_AlignBits s = (8 - ws_bitsWritten s mod 8) mod 8"

definition WriteStream_BitsProcessed :: "'c write_stream \<Rightarrow> nat" where
  "WriteStream_BitsProcessed s = ws_bitsWritten s"

definition WriteStream_BytesProcessed :: "'c write_stream \<Rightarrow> nat" where
  "WriteStream_BytesProcessed s = (ws_bitsWritten s + 7) div 8"

definition WriteStream_Data :: "'c write_stream \<Rightarrow> u8 list res" where
  "WriteStream_Data s = slice_range (ws_data s) 0 (int (WriteStream_BytesProcessed s))"

definition WriteStream_Err :: "'c write_stream \<Rightarrow> go_error option" where
  "WriteStream_Err s = None"

definition WriteStream_SetContext :: "'c write_stream \<Rightarrow> 'c option \<Rightarrow> 'c write_stream" where
  "WriteStream_SetContext s context = s\<lparr>ws_context := context\<rparr>"

definition WriteStream_Context :: "'c write_stream \<Rightarrow> 'c option" where
  "WriteStream_Context s = ws_context s"

section \<open>The stream as a bit writer\<close>

text \<open>
  The flat state keeps no word index and no scratch bit count: they are functions of
  \<open>bitsWritten\<close>. With them put back a stream is a \<open>BitWriter\<close>, whose invariant and bits it
  inherits.
\<close>

definition bw_of :: "'c write_stream \<Rightarrow> bit_writer" where
  "bw_of s = \<lparr>bw_data = ws_data s, bw_scratch = ws_scratch s, bw_numBits = ws_numBits s,
     bw_bitsWritten = ws_bitsWritten s, bw_wordIndex = ws_bitsWritten s div 64,
     bw_scratchBits = ws_bitsWritten s mod 64\<rparr>"

definition ws_inv :: "u8 list \<Rightarrow> 'c write_stream \<Rightarrow> bool" where
  "ws_inv buf s = bw_inv buf (bw_of s)"

definition ws_bits :: "'c write_stream \<Rightarrow> bool list" where
  "ws_bits s = bw_bits (bw_of s)"

lemma bw_of_simps [simp]:
  "bw_data (bw_of s) = ws_data s" "bw_scratch (bw_of s) = ws_scratch s" "bw_numBits (bw_of s) = ws_numBits s"
  "bw_bitsWritten (bw_of s) = ws_bitsWritten s" "bw_wordIndex (bw_of s) = ws_bitsWritten s div 64"
  "bw_scratchBits (bw_of s) = ws_bitsWritten s mod 64"
  by (simp_all add: bw_of_def)

lemma ws_invD:
  assumes "ws_inv buf s"
  shows "length buf mod 8 = 0" and "length (ws_data s) = length buf"
    and "ws_numBits s = 8 * length buf" and "ws_bitsWritten s \<le> ws_numBits s"
    and "take_bit (ws_bitsWritten s mod 64) (ws_scratch s) = ws_scratch s"
    and "drop (8 * (ws_bitsWritten s div 64)) (ws_data s) = drop (8 * (ws_bitsWritten s div 64)) buf"
  using bw_invD [of buf "bw_of s"] assms unfolding ws_inv_def bw_of_simps by blast+

lemma ws_invI:
  "length buf mod 8 = 0 \<Longrightarrow> length (ws_data s) = length buf \<Longrightarrow> ws_numBits s = 8 * length buf \<Longrightarrow>
   ws_bitsWritten s \<le> ws_numBits s \<Longrightarrow>
   take_bit (ws_bitsWritten s mod 64) (ws_scratch s) = ws_scratch s \<Longrightarrow>
   drop (8 * (ws_bitsWritten s div 64)) (ws_data s) = drop (8 * (ws_bitsWritten s div 64)) buf \<Longrightarrow> ws_inv buf s"
  by (simp add: ws_inv_def bw_inv_def)

lemma length_ws_bits: "ws_inv buf s \<Longrightarrow> length (ws_bits s) = ws_bitsWritten s"
  using length_bw_bits [of buf "bw_of s"] by (simp add: ws_inv_def ws_bits_def)

lemma and_63_nat: "(n::nat) AND 63 = n mod 64"
proof -
  have "n AND 63 = n AND mask 6" by (simp add: mask_eq_exp_minus_1)
  then show ?thesis by (simp add: take_bit_eq_mask [symmetric] take_bit_eq_mod)
qed

lemma neg_and_7_eq: "neg_and_7 n = align_len n"
proof -
  have "(- int n) AND 7 = (- int n) AND mask 3" by (simp add: mask_eq_exp_minus_1)
  also have "\<dots> = (- int n) mod 8" by (simp add: take_bit_eq_mask [symmetric] take_bit_eq_mod)
  also have "\<dots> = int (align_len n)"
  proof -
    have z: "int n mod 8 = int (n mod 8)" by (rule zmod_int [of n 8, simplified, symmetric])
    have "n mod 8 \<le> 8" by (simp add: less_imp_le)
    then show ?thesis unfolding zmod_zminus1_eq_if z align_len_cases by (simp add: of_nat_diff)
  qed
  finally show ?thesis by (simp add: neg_and_7_def)
qed

lemma qword_offset_eq: "qword_offset b = 8 * (b div 64)"
  by (simp add: qword_offset_def drop_bit_eq_div div_mult2_eq [symmetric])

text \<open>\<open>tryWriteBits\<close> and \<open>tryWriteBits64\<close> are one function at two widths.\<close>

lemma tryWriteBits_64: "WriteStream_tryWriteBits s v n = WriteStream_tryWriteBits64 s (ucast v) n"
  by (simp add: WriteStream_tryWriteBits_def WriteStream_tryWriteBits64_def)

text \<open>\<open>extends buf e s s'\<close>: from \<open>s\<close> to \<open>s'\<close> exactly the bits \<open>e\<close> were written.\<close>

definition extends :: "u8 list \<Rightarrow> bool list \<Rightarrow> 'c write_stream \<Rightarrow> 'c write_stream \<Rightarrow> bool" where
  "extends buf e s s' \<longleftrightarrow> ws_inv buf s' \<and> ws_bits s' = ws_bits s @ e
     \<and> ws_numBits s' = ws_numBits s \<and> ws_context s' = ws_context s"

lemma extends_refl [simp]: "extends buf [] s s \<longleftrightarrow> ws_inv buf s"
  by (simp add: extends_def)

lemma extends_trans: "extends buf e s s' \<Longrightarrow> extends buf f s' s'' \<Longrightarrow> extends buf (e @ f) s s''"
  by (simp add: extends_def)

lemma extends_bitsWritten:
  "ws_inv buf s \<Longrightarrow> extends buf e s s' \<Longrightarrow> ws_bitsWritten s' = ws_bitsWritten s + length e"
  using length_ws_bits [of buf s] length_ws_bits [of buf s'] by (simp add: extends_def)

lemma drop_store:
  "8 * q + 8 \<le> length xs \<Longrightarrow>
   drop (8 * Suc q) (take (8 * q) xs @ LE_bytes64 v @ drop (8 * q + 8) xs) = drop (8 * q + 8) xs"
  by (simp add: min_absorb2)

lemma tryWriteBits64_ok:
  assumes inv: "ws_inv buf s" and n: "n \<le> 64" and v: "take_bit n v = v"
    and fits: "ws_bitsWritten s + n \<le> ws_numBits s"
  shows "\<exists>s'. WriteStream_tryWriteBits64 s v n = Inr (True, s') \<and> extends buf (bits_of n v) s s'"
proof -
  note I = ws_invD [OF inv]
  let ?b = "ws_bitsWritten s"
  let ?sc = "ws_scratch s OR push_bit (?b mod 64) v"
  show ?thesis
  proof (cases "64 \<le> ?b mod 64 + n")
    case False
    note c = counters_stay [of ?b n]
    define s' where "s' = s\<lparr>ws_scratch := ?sc, ws_bitsWritten := ?b + n\<rparr>"
    have "WriteStream_tryWriteBits64 s v n = Inr (True, s')"
      using False fits by (simp add: WriteStream_tryWriteBits64_def and_63_nat s'_def Let_def)
    moreover have "ws_inv buf s'"
      using I fits c False take_bit_stay [OF I(5) v] by (simp add: ws_inv_def bw_inv_def s'_def)
    moreover have "ws_bits s' = ws_bits s @ bits_of n v"
      using packed_stay [OF I(5), of n "ws_data s" "?b div 64" v] c False
      by (simp add: ws_bits_def bw_bits_def s'_def)
    ultimately show ?thesis by (auto simp: extends_def s'_def)
  next
    case True
    note c = counters_spill [OF True n]
    have room: "8 * (?b div 64) + 8 \<le> length (ws_data s)"
      using word_room [OF True, of "length buf"] fits I(2,3) by simp
    define d where "d = take (8 * (?b div 64)) (ws_data s) @ LE_bytes64 ?sc @ drop (8 * (?b div 64) + 8) (ws_data s)"
    define s' where "s' = s\<lparr>ws_scratch := drop_bit (64 - ?b mod 64) v, ws_bitsWritten := ?b + n, ws_data := d\<rparr>"
    have "WriteStream_tryWriteBits64 s v n = Inr (True, s')"
      using True fits put_word_eq [OF room, of ?sc]
      by (simp add: WriteStream_tryWriteBits64_def and_63_nat qword_offset_eq s'_def d_def Let_def)
    note run = this
    have tail_kept: "drop (8 * Suc (?b div 64)) d = drop (8 * Suc (?b div 64)) buf"
    proof -
      have "drop (8 * Suc (?b div 64)) d = drop (8 * (?b div 64) + 8) (ws_data s)"
        unfolding d_def by (rule drop_store [OF room])
      also have "\<dots> = drop (8 * (?b div 64) + 8) buf" using I(6) by (metis add.commute drop_drop)
      finally show ?thesis by (simp add: add.commute)
    qed
    have "length d = length buf" using I(2) room by (simp add: d_def min_absorb2)
    moreover have "take_bit ((?b + n) mod 64) (drop_bit (64 - ?b mod 64) v) = drop_bit (64 - ?b mod 64) v"
      unfolding c(2) by (rule take_bit_spill [OF v _ True]) simp
    moreover have "drop (8 * ((?b + n) div 64)) d = drop (8 * ((?b + n) div 64)) buf" unfolding c(1) by (rule tail_kept)
    ultimately have inv': "ws_inv buf s'"
      using I(1,3) fits by (intro ws_invI) (simp_all add: s'_def del: take_bit_drop_bit)
    have "ws_bits s' = ws_bits s @ bits_of n v"
      using packed_spill [OF I(5) _ True room, of v] c
      by (simp add: ws_bits_def bw_bits_def s'_def d_def)
    with run inv' show ?thesis by (auto simp: extends_def s'_def)
  qed
qed

lemma tryWriteBits64_full:
  "ws_numBits s < ws_bitsWritten s + n \<Longrightarrow> WriteStream_tryWriteBits64 s v n = Inr (False, s)"
  by (simp add: WriteStream_tryWriteBits64_def)

interpretation ws: bit_sink
  "\<lambda>s n v. andThen (WriteStream_tryWriteBits64 s v n) (\<lambda>(_, s). Inr s)" "ws_inv buf" ws_bits ws_numBits 64
  for buf
proof unfold_locales
  fix s n and v :: u64
  assume "ws_inv buf s" and "n \<le> 64" and "take_bit n v = v" and "length (ws_bits s) + n \<le> ws_numBits s"
  then show "\<exists>s'. andThen (WriteStream_tryWriteBits64 s v n) (\<lambda>(_, s). Inr s) = Inr s' \<and> ws_inv buf s'
      \<and> ws_bits s' = ws_bits s @ bits_of n v \<and> ws_numBits s' = ws_numBits s"
    using tryWriteBits64_ok [of buf s n v] by (auto simp: length_ws_bits extends_def)
qed simp

text \<open>The byte loops of \<open>writeBytesStream\<close> are clients of the sink interface.\<close>

abbreviation put_byte :: "'c write_stream \<Rightarrow> u8 \<Rightarrow> 'c write_stream res" where
  "put_byte s b \<equiv> andThen (WriteStream_tryWriteBits s (ucast b) 8) (\<lambda>(_, s). Inr s)"

lemma put_byte_context: "put_byte s b = Inr s' \<Longrightarrow> ws_context s' = ws_context s"
  by (auto simp: WriteStream_tryWriteBits_def Let_def andThen_Inr_iff split: if_splits)

lemma put_bytes_context: "foldM put_byte s bs = Inr s' \<Longrightarrow> ws_context s' = ws_context s"
proof (induction bs arbitrary: s)
  case (Cons b bs)
  then obtain s1 where s1: "put_byte s b = Inr s1" "foldM put_byte s1 bs = Inr s'"
    by (simp add: andThen_Inr_iff) blast
  then show ?case using Cons.IH [OF s1(2)] put_byte_context [OF s1(1)] by simp
qed simp

lemma stream_byte_loop_ok:
  assumes inv: "ws_inv buf s" and fits: "ws_bitsWritten s + 8 * length bs \<le> ws_numBits s"
  shows "\<exists>s'. foldM put_byte s bs = Inr s' \<and> extends buf (bytes_bits bs) s s'"
proof -
  have u: "ucast (ucast (b::u8) :: u32) = (ucast b :: u64)" for b
    by (rule bit_word_eqI) (auto simp: bit_ucast_iff dest: bit_imp_le_length)
  obtain s' where s': "foldM put_byte s bs = Inr s'" "ws_inv buf s'" "ws_bits s' = ws_bits s @ bytes_bits bs"
    "ws_numBits s' = ws_numBits s"
    using ws.put_bytes [OF inv, of bs] fits inv unfolding tryWriteBits_64 u by (auto simp: length_ws_bits)
  then show ?thesis using put_bytes_context [OF s'(1)] by (auto simp: extends_def)
qed

lemma stream_copy_middle_ok:
  assumes inv: "ws_inv buf s" and aligned: "ws_bitsWritten s mod 64 = 0"
    and len: "length src = 8 * k" and fits: "ws_bitsWritten s + 64 * k \<le> ws_numBits s"
  shows "\<exists>d. copy_at (ws_data s) (drop_bit 3 (ws_bitsWritten s)) src = Inr d \<and>
     extends buf (bytes_bits src) s (s\<lparr>ws_data := d, ws_bitsWritten := ws_bitsWritten s + k * 64\<rparr>)"
proof -
  have at: "drop_bit 3 (ws_bitsWritten s) = ws_bitsWritten s div 64 * 8"
    using aligned by (auto simp: drop_bit_eq_div)
  obtain d where d: "copy_at (ws_data s) (ws_bitsWritten s div 64 * 8) src = Inr d"
    "bw_inv buf (bw_of s\<lparr>bw_data := d, bw_bitsWritten := ws_bitsWritten s + k * 64,
        bw_wordIndex := ws_bitsWritten s div 64 + k\<rparr>)"
    "bw_bits (bw_of s\<lparr>bw_data := d, bw_bitsWritten := ws_bitsWritten s + k * 64,
        bw_wordIndex := ws_bitsWritten s div 64 + k\<rparr>) = bw_bits (bw_of s) @ bytes_bits src"
    using copy_middle_ok [of buf "bw_of s" src k] inv aligned len fits unfolding ws_inv_def Let_def by auto
  have "bw_of s\<lparr>bw_data := d, bw_bitsWritten := ws_bitsWritten s + k * 64,
        bw_wordIndex := ws_bitsWritten s div 64 + k\<rparr>
      = bw_of (s\<lparr>ws_data := d, ws_bitsWritten := ws_bitsWritten s + k * 64\<rparr>)"
    by (simp add: bw_of_def)
  with d show ?thesis unfolding at by (auto simp: extends_def ws_inv_def ws_bits_def)
qed

lemma writeBytesStream_ok:
  assumes inv: "ws_inv buf s" and aligned: "ws_bitsWritten s mod 8 = 0"
    and fits: "ws_bitsWritten s + 8 * length bs \<le> ws_numBits s"
  shows "\<exists>s'. writeBytesStream s bs = Inr s' \<and> extends buf (bytes_bits bs) s s'"
proof -
  define n where "n = length bs"
  define h where "h = min ((8 - ws_bitsWritten s mod 64 div 8) mod 8) n"
  define k where "k = (n - h) div 8"
  have h: "h \<le> n" unfolding h_def by simp
  then have hf: "ws_bitsWritten s + 8 * length (take h bs) \<le> ws_numBits s"
    using fits by (simp add: n_def min_def)
  obtain s1 where s1: "foldM put_byte s (take h bs) = Inr s1" "extends buf (bytes_bits (take h bs)) s s1"
    using stream_byte_loop_ok [OF inv hf] by blast
  have b1: "ws_bitsWritten s1 = ws_bitsWritten s + 8 * h" "ws_inv buf s1" "ws_numBits s1 = ws_numBits s"
    using extends_bitsWritten [OF inv s1(2)] s1(2) h by (simp_all add: n_def extends_def)
  have op: "writeBytesStream s bs = (if h = n then Inr s1 else
      andThen (if 0 < k then
          andThen (copy_at (ws_data s1) (drop_bit 3 (ws_bitsWritten s1)) (take (k * 8) (drop h bs))) (\<lambda>d.
            Inr (s1\<lparr>ws_data := d, ws_bitsWritten := ws_bitsWritten s1 + k * 64\<rparr>))
        else Inr s1) (\<lambda>s. foldM put_byte s (drop (h + k * 8) bs)))"
    using aligned s1(1)
    by (simp add: writeBytesStream_def Let_def n_def [symmetric] h_def [symmetric] k_def [symmetric])
  show ?thesis
  proof (cases "h = n")
    case True
    then show ?thesis using op s1 by (simp add: n_def)
  next
    case False
    then have "h = (8 - ws_bitsWritten s mod 64 div 8) mod 8" unfolding h_def by simp
    then have al: "ws_bitsWritten s1 mod 64 = 0" using head_boundary [OF aligned] b1(1) by simp
    have k: "8 * k \<le> n - h" unfolding k_def by simp
    define mid where "mid = take (k * 8) (drop h bs)"
    have mid: "length mid = 8 * k" using k unfolding mid_def n_def by simp
    have "ws_bitsWritten s1 + 64 * k \<le> ws_numBits s1" using b1(1,3) fits k h unfolding n_def by linarith
    from stream_copy_middle_ok [OF b1(2) al mid this]
    obtain s2 where s2: "(if 0 < k then
          andThen (copy_at (ws_data s1) (drop_bit 3 (ws_bitsWritten s1)) (take (k * 8) (drop h bs))) (\<lambda>d.
            Inr (s1\<lparr>ws_data := d, ws_bitsWritten := ws_bitsWritten s1 + k * 64\<rparr>))
        else Inr s1) = Inr s2" "extends buf (bytes_bits mid) s1 s2"
      using b1(2) mid by (cases "0 < k") (auto simp: mid_def)
    have b2: "ws_bitsWritten s2 = ws_bitsWritten s1 + 64 * k" "ws_inv buf s2" "ws_numBits s2 = ws_numBits s1"
      using extends_bitsWritten [OF b1(2) s2(2)] s2(2) mid by (simp_all add: extends_def)
    have "ws_bitsWritten s2 + 8 * length (drop (h + k * 8) bs) \<le> ws_numBits s2"
      using b2(1,3) b1(1,3) fits k h unfolding n_def by (simp add: n_def)
    from stream_byte_loop_ok [OF b2(2) this] obtain s3 where s3:
      "foldM put_byte s2 (drop (h + k * 8) bs) = Inr s3" "extends buf (bytes_bits (drop (h + k * 8) bs)) s2 s3"
      by blast
    have "bs = take h bs @ mid @ drop (h + k * 8) bs"
      unfolding mid_def by (metis add.commute append_take_drop_id drop_drop)
    then have "bytes_bits bs = (bytes_bits (take h bs) @ bytes_bits mid) @ bytes_bits (drop (h + k * 8) bs)"
      by (metis bytes_bits_simps(3) append_assoc)
    moreover have "writeBytesStream s bs = Inr s3" using op False s2(1) s3(1) by simp
    moreover note extends_trans [OF extends_trans [OF s1(2) s2(2)] s3(2)]
    ultimately show ?thesis by simp
  qed
qed

end
