(* ===== verification/Write_Ops.thy ===== *)
theory Write_Ops
  imports Write_Stream
begin

text \<open>
  What every operation of \<open>WriteStream\<close> writes. \<open>emits run enc\<close> is the contract of an operation:
  from a stream at bit position \<open>p\<close> it either appends exactly the bits \<open>enc p\<close>, or, when they do
  not fit the room left, panics. Each operation meets it with the encoding of Wire_Format
  when the value conforms, and panics when it does not.
\<close>

section \<open>The contract of a write operation\<close>

definition emits :: "('c write_stream \<Rightarrow> 'c write_stream res) \<Rightarrow> (nat \<Rightarrow> bool list) \<Rightarrow> bool" where
  "emits run enc \<longleftrightarrow> (\<forall>buf s. ws_inv buf s \<longrightarrow>
     (if ws_bitsWritten s + length (enc (ws_bitsWritten s)) \<le> ws_numBits s
      then \<exists>s'. run s = Inr s' \<and> extends buf (enc (ws_bitsWritten s)) s s'
      else run s = Inl PanicWriteOverflow))"

lemma emitsI:
  assumes "\<And>buf s. ws_inv buf s \<Longrightarrow> ws_bitsWritten s + length (enc (ws_bitsWritten s)) \<le> ws_numBits s
      \<Longrightarrow> \<exists>s'. run s = Inr s' \<and> extends buf (enc (ws_bitsWritten s)) s s'"
    and "\<And>buf s. ws_inv buf s \<Longrightarrow> ws_numBits s < ws_bitsWritten s + length (enc (ws_bitsWritten s))
      \<Longrightarrow> run s = Inl PanicWriteOverflow"
  shows "emits run enc"
  using assms unfolding emits_def by (simp add: not_le)

lemma emitsD:
  "emits run enc \<Longrightarrow> ws_inv buf s \<Longrightarrow> ws_bitsWritten s + length (enc (ws_bitsWritten s)) \<le> ws_numBits s
    \<Longrightarrow> \<exists>s'. run s = Inr s' \<and> extends buf (enc (ws_bitsWritten s)) s s'"
  unfolding emits_def by meson

lemma emits_overflow:
  "emits run enc \<Longrightarrow> ws_inv buf s \<Longrightarrow> ws_numBits s < ws_bitsWritten s + length (enc (ws_bitsWritten s))
    \<Longrightarrow> run s = Inl PanicWriteOverflow"
  unfolding emits_def by (meson not_le)

lemma emits_skip: "emits Inr (\<lambda>_. [])"
  by (rule emitsI) (auto dest: ws_invD(4))

lemma emits_seq:
  fixes f g :: "'c write_stream \<Rightarrow> 'c write_stream res"
  assumes f: "emits f e" and g: "emits g h"
  shows "emits (\<lambda>s. andThen (f s) g) (\<lambda>p. e p @ h (p + length (e p)))"
proof (rule emitsI)
  fix buf and s :: "'c write_stream"
  let ?p = "ws_bitsWritten s"
  assume inv: "ws_inv buf s" and fits: "?p + length (e ?p @ h (?p + length (e ?p))) \<le> ws_numBits s"
  obtain s1 where s1: "f s = Inr s1" "extends buf (e ?p) s s1" using emitsD [OF f inv] fits by auto
  have b: "ws_bitsWritten s1 = ?p + length (e ?p)" "ws_inv buf s1" "ws_numBits s1 = ws_numBits s"
    using extends_bitsWritten [OF inv s1(2)] s1(2) by (simp_all add: extends_def)
  obtain s2 where s2: "g s1 = Inr s2" "extends buf (h (?p + length (e ?p))) s1 s2"
    using emitsD [OF g b(2)] fits b by auto
  then show "\<exists>s'. andThen (f s) g = Inr s' \<and> extends buf (e ?p @ h (?p + length (e ?p))) s s'"
    using s1 extends_trans [OF s1(2) s2(2)] by simp
next
  fix buf and s :: "'c write_stream"
  let ?p = "ws_bitsWritten s"
  assume inv: "ws_inv buf s" and full: "ws_numBits s < ?p + length (e ?p @ h (?p + length (e ?p)))"
  show "andThen (f s) g = Inl PanicWriteOverflow"
  proof (cases "?p + length (e ?p) \<le> ws_numBits s")
    case True
    obtain s1 where s1: "f s = Inr s1" "extends buf (e ?p) s s1" using emitsD [OF f inv True] by auto
    have b: "ws_bitsWritten s1 = ?p + length (e ?p)" "ws_inv buf s1" "ws_numBits s1 = ws_numBits s"
      using extends_bitsWritten [OF inv s1(2)] s1(2) by (simp_all add: extends_def)
    have "g s1 = Inl PanicWriteOverflow" by (rule emits_overflow [OF g b(2)]) (use full b in simp)
    then show ?thesis using s1 by simp
  next
    case False
    then show ?thesis using emits_overflow [OF f inv] by simp
  qed
qed

section \<open>The packing helpers\<close>

lemma writeBits64_emits:
  assumes "n \<le> 64" and "take_bit n v = v"
  shows "emits (\<lambda>s :: 'c write_stream. WriteStream_writeBits64 s v n) (\<lambda>_. bits_of n v)"
proof (rule emitsI)
  fix buf and s :: "'c write_stream"
  assume "ws_inv buf s" and "ws_bitsWritten s + length (bits_of n v) \<le> ws_numBits s"
  then show "\<exists>s'. WriteStream_writeBits64 s v n = Inr s' \<and> extends buf (bits_of n v) s s'"
    using tryWriteBits64_ok [of buf s n v] assms by (auto simp: WriteStream_writeBits64_def)
qed (simp add: WriteStream_writeBits64_def tryWriteBits64_full)

lemma writeBits_64: "WriteStream_writeBits s v n = WriteStream_writeBits64 s (ucast v) n"
  by (simp add: WriteStream_writeBits_def WriteStream_writeBits64_def tryWriteBits_64)

lemma writeBits_emits:
  assumes "n \<le> 32" and "take_bit n v = v"
  shows "emits (\<lambda>s. WriteStream_writeBits s v n) (\<lambda>_. bits_of n v)"
  using writeBits64_emits [of n "ucast v"] assms
  by (simp add: writeBits_64 take_bit_ucast_eq bits_of_ucast)

lemma writeBool_emits: "emits (\<lambda>s. WriteStream_writeBool s b) (\<lambda>_. [b])"
proof -
  have "bits_of 1 (1 :: u32) = [True]" by (simp add: bits_of_def)
  then show ?thesis
    using writeBits_emits [of 1 "1 :: u32"] writeBits_emits [of 1 "0 :: u32"]
    by (cases b) (simp_all add: WriteStream_writeBool_def)
qed

lemma room_simps:
  "ws_bitsWritten s + n \<le> ws_numBits s \<Longrightarrow> WriteStream_room s n = Inr ()"
  "ws_numBits s < ws_bitsWritten s + n \<Longrightarrow> WriteStream_room s n = Inl PanicWriteOverflow"
  by (simp_all add: WriteStream_room_def)

text \<open>A 128 bit field goes out as two halves, after one check for the room of both.\<close>

lemma halves_128:
  assumes "n \<le> 128" and "take_bit n (u128 x) = u128 x"
  shows "take_bit (min n 64) (Lo x) = Lo x" and "take_bit (n - 64) (Hi x) = Hi x"
    and "bits_of n (u128 x) = bits_of (min n 64) (Lo x) @ bits_of (n - 64) (Hi x)"
proof -
  have b: "i < n" if "bit (u128 x) i" for i using bit_imp_less_width [OF assms(2) that] .
  show "take_bit (min n 64) (Lo x) = Lo x"
  proof (rule bit_word_eqI)
    fix i assume "i < LENGTH(64)"
    then show "bit (take_bit (min n 64) (Lo x)) i \<longleftrightarrow> bit (Lo x) i" using b [of i] by (auto simp: bit_take_bit_iff bit_u128)
  qed
  show "take_bit (n - 64) (Hi x) = Hi x"
  proof (rule bit_word_eqI)
    fix i assume "i < LENGTH(64)"
    then show "bit (take_bit (n - 64) (Hi x)) i \<longleftrightarrow> bit (Hi x) i" using b [of "i + 64"] by (auto simp: bit_take_bit_iff bit_u128)
  qed
  show "bits_of n (u128 x) = bits_of (min n 64) (Lo x) @ bits_of (n - 64) (Hi x)"
    by (rule nth_equalityI) (auto simp: nth_append bit_u128 min_def)
qed

lemma put64_ok:
  assumes "ws_inv buf s" and "n \<le> 64" and "take_bit n v = v" and "ws_bitsWritten s + n \<le> ws_numBits s"
  shows "\<exists>s'. andThen (WriteStream_tryWriteBits64 s v n) (\<lambda>(_, s). Inr s) = Inr s' \<and> extends buf (bits_of n v) s s'
    \<and> ws_inv buf s' \<and> ws_bitsWritten s' = ws_bitsWritten s + n \<and> ws_numBits s' = ws_numBits s"
proof -
  obtain s' where s': "WriteStream_tryWriteBits64 s v n = Inr (True, s')" "extends buf (bits_of n v) s s'"
    using tryWriteBits64_ok [OF assms] by blast
  then show ?thesis using extends_bitsWritten [OF assms(1) s'(2)] by (auto simp: extends_def)
qed

lemma writeGroups128_ok:
  assumes inv: "ws_inv buf s" and n: "n \<le> 128" and v: "take_bit n (u128 x) = u128 x"
    and fits: "ws_bitsWritten s + n \<le> ws_numBits s"
  shows "\<exists>s'. WriteStream_writeGroups128 s x n = Inr s' \<and> extends buf (bits_of n (u128 x)) s s'"
proof (cases "n \<le> 64")
  case True
  note h = halves_128 [OF n v]
  obtain s' where "andThen (WriteStream_tryWriteBits64 s (Lo x) n) (\<lambda>(_, s). Inr s) = Inr s'"
    "extends buf (bits_of n (Lo x)) s s'"
    using put64_ok [OF inv True, of "Lo x"] h(1) fits True by (auto simp: min_def)
  then show ?thesis using True h(3) by (simp add: WriteStream_writeGroups128_def min_def)
next
  case False
  note h = halves_128 [OF n v]
  obtain s1 where s1: "WriteStream_tryWriteBits64 s (Lo x) 64 = Inr (True, s1)" "extends buf (bits_of 64 (Lo x)) s s1"
    using tryWriteBits64_ok [OF inv, of 64 "Lo x"] h(1) fits False by (auto simp: min_def)
  have b: "ws_bitsWritten s1 = ws_bitsWritten s + 64" "ws_inv buf s1" "ws_numBits s1 = ws_numBits s"
    using extends_bitsWritten [OF inv s1(2)] s1(2) by (simp_all add: extends_def)
  obtain s2 where s2: "WriteStream_tryWriteBits64 s1 (Hi x) (n - 64) = Inr (True, s2)"
    "extends buf (bits_of (n - 64) (Hi x)) s1 s2"
    using tryWriteBits64_ok [OF b(2) _ h(2)] fits False n b by fastforce
  have "bits_of n (u128 x) = bits_of 64 (Lo x) @ bits_of (n - 64) (Hi x)"
    using h(3) False by (simp add: min_absorb2)
  then show ?thesis
    using False s1(1) s2(1) extends_trans [OF s1(2) s2(2)] by (simp add: WriteStream_writeGroups128_def)
qed

lemma groups128_emits:
  assumes "n \<le> 128" and "take_bit n (u128 x) = u128 x"
  shows "emits (\<lambda>s. andThen (WriteStream_room s n) (\<lambda>_. WriteStream_writeGroups128 s x n)) (\<lambda>_. bits_of n (u128 x))"
  by (rule emitsI) (use assms in \<open>simp_all add: room_simps writeGroups128_ok\<close>)

section \<open>The operations\<close>

lemma emits_eq: "emits f e \<Longrightarrow> (\<And>s. g s = f s) \<Longrightarrow> (\<And>p. h p = e p) \<Longrightarrow> emits g h"
proof -
  assume "emits f e" and "\<And>s. g s = f s" and "\<And>p. h p = e p"
  then have "g = f" and "h = e" by auto
  with \<open>emits f e\<close> show "emits g h" by simp
qed

lemma SerializeBits_emits:
  assumes "ok_bits n v"
  shows "emits (\<lambda>s. WriteStream_SerializeBits s v n) (\<lambda>_. bits_of (nat n) v)"
proof -
  have k: "nat n \<le> 32" "nat (32 - n) = LENGTH(32) - nat n" and v: "take_bit (nat n) v = v"
    using assms by (auto simp: ok_bits_iff)
  show ?thesis
    by (rule emits_eq [OF writeBits_emits [OF k(1) v]])
      (use assms not_too_wide_iff [of "nat n" v] k v in \<open>auto simp: WriteStream_SerializeBits_def ok_bits_iff\<close>)
qed

lemma SerializeBits64_emits:
  assumes "ok_bits64 n v"
  shows "emits (\<lambda>s. WriteStream_SerializeBits64 s v n) (\<lambda>_. bits_of (nat n) v)"
proof -
  have k: "nat n \<le> 64" "nat (64 - n) = LENGTH(64) - nat n" and v: "take_bit (nat n) v = v"
    using assms by (auto simp: ok_bits64_iff)
  show ?thesis
    by (rule emits_eq [OF writeBits64_emits [OF k(1) v]])
      (use assms not_too_wide_iff [of "nat n" v] k v in \<open>auto simp: WriteStream_SerializeBits64_def ok_bits64_iff\<close>)
qed

lemma ok_int_trans: "ok_int mn mx v \<Longrightarrow> sint mn \<le> sint mx"
  by (simp add: ok_int_def)

lemma SerializeInt_emits:
  assumes "ok_int mn mx v"
  shows "emits (\<lambda>s. WriteStream_SerializeInt s v mn mx) (\<lambda>_. wire_int mn mx v)"
proof -
  have "take_bit (Len (mx - mn)) (v - mn) = v - mn" and k: "Len (mx - mn) \<le> 32"
    using assms range_offset(2) [of mn v mx] Len_le_length [of "mx - mn"] by (simp_all add: ok_int_def)
  then have e: "emits (\<lambda>s. WriteStream_writeBits s (v - mn) (Len (mx - mn))) (\<lambda>_. wire_int mn mx v)"
    unfolding wire_int_def by (intro writeBits_emits)
  show ?thesis
    by (rule emits_eq [OF e])
      (use assms ok_int_trans [OF assms] in \<open>auto simp: WriteStream_SerializeInt_def WriteStream_writeBits_def
        ok_int_def word_sless_alt BitsRequired_eq_Len\<close>)
qed

lemma SerializeInt64_emits:
  assumes "ok_int64 mn mx v"
  shows "emits (\<lambda>s. WriteStream_SerializeInt64 s v mn mx) (\<lambda>_. wire_int64 mn mx v)"
proof -
  have "take_bit (Len (mx - mn)) (v - mn) = v - mn" and k: "Len (mx - mn) \<le> 64"
    using assms range_offset(2) [of mn v mx] Len_le_length [of "mx - mn"] by (simp_all add: ok_int64_def)
  then have e: "emits (\<lambda>s. WriteStream_writeBits64 s (v - mn) (Len (mx - mn))) (\<lambda>_. wire_int64 mn mx v)"
    unfolding wire_int64_def by (intro writeBits64_emits)
  show ?thesis
    by (rule emits_eq [OF e])
      (use assms in \<open>auto simp: WriteStream_SerializeInt64_def ok_int64_def word_sless_alt BitsRequired64_eq_Len\<close>)
qed

lemma range_offset128:
  assumes "ok_int128 mn mx v"
  shows "take_bit (nat_len (unat (i128 mx - i128 mn))) (i128 v - i128 mn) = i128 v - i128 mn"
  using range_offset(2) [of "i128 mn" "i128 v" "i128 mx"] assms by (simp add: ok_int128_def Len_def)

lemma SerializeInt128_emits:
  assumes "ok_int128 mn mx v"
  shows "emits (\<lambda>s. WriteStream_SerializeInt128 s v mn mx) (\<lambda>_. wire_int128 mn mx v)"
proof -
  define n where "n = nat_len (unat (i128 mx - i128 mn))"
  let ?x = "Uint128_Sub (Int128_Uint128 v) (Int128_Uint128 mn)"
  have "n \<le> 128" "take_bit n (u128 ?x) = u128 ?x"
    using range_offset128 [OF assms] nat_len_128 [of "i128 mx - i128 mn"] by (simp_all add: n_def u128_Sub)
  note e = groups128_emits [OF this]
  show ?thesis
    by (rule emits_eq [OF e])
      (use assms in \<open>auto simp: WriteStream_SerializeInt128_def Int128_Cmp_sint ok_int128_def
        BitsRequired128_nat_len n_def wire_int128_def u128_Sub Let_def\<close>)
qed

lemma SerializeUint128_emits: "emits (\<lambda>s. WriteStream_SerializeUint128 s v) (\<lambda>_. bits_of 128 (u128 v))"
proof -
  have e: "emits (\<lambda>s. andThen (WriteStream_room s 128) (\<lambda>_. WriteStream_writeGroups128 s v 128)) (\<lambda>_. bits_of 128 (u128 v))"
    by (rule groups128_emits) simp_all
  show ?thesis
    by (rule emits_eq [OF e]) (simp_all add: WriteStream_SerializeUint128_def WriteStream_writeGroups128_def)
qed

lemma checkFixedPointParams_ok: "0 \<le> n \<Longrightarrow> checkFixedPointParams n = Inr ()"
  by (simp add: checkFixedPointParams_def fixedMisuseParams_def fixedMisuseBounds_def)

lemma SerializeFixed64_emits:
  assumes "ok_fixed64 ib fb mn mx v"
  shows "emits (\<lambda>s. WriteStream_SerializeFixed64 s v ib fb mn mx) (\<lambda>_. wire_fixed64 ib fb mn mx v)"
proof -
  obtain rawMin rawRange n where p: "fixedPointParams64 ib fb mn mx = (rawMin, rawRange, n)" by (metis prod_cases3)
  note ok = ok_fixed64_bits [OF assms p]
  have "nat n \<le> 64" using ok(2) by simp
  note e = writeBits64_emits [OF this ok(4)]
  have "\<not> rawRange < v - rawMin" using ok(3) by (simp only: not_less)
  then show ?thesis
    by (intro emits_eq [OF e])
      (simp_all add: WriteStream_SerializeFixed64_def p wire_fixed64_def checkFixedPointParams_ok [OF ok(1)] Let_def)
qed

lemma SerializeFixed128_emits:
  assumes "ok_fixed128 ib fb mn mx v"
  shows "emits (\<lambda>s. WriteStream_SerializeFixed128 s v ib fb mn mx) (\<lambda>_. wire_fixed128 ib fb mn mx v)"
proof -
  obtain rawMin rawRange n where p: "fixedPointParams128 ib fb mn mx = (rawMin, rawRange, n)" by (metis prod_cases3)
  note ok = ok_fixed128_bits [OF assms p]
  let ?x = "Uint128_Sub (Int128_Uint128 v) rawMin"
  have "nat n \<le> 128" "take_bit (nat n) (u128 ?x) = u128 ?x" using ok by (simp_all add: u128_Sub)
  note e = groups128_emits [OF this]
  have "\<not> 0 < Uint128_Cmp ?x rawRange" using ok(3) by (auto simp: u128_Cmp u128_Sub simp flip: u128_eq_iff)
  then show ?thesis
    by (intro emits_eq [OF e])
      (use ok in \<open>simp_all add: WriteStream_SerializeFixed128_def p wire_fixed128_def checkFixedPointParams_ok Let_def u128_Sub\<close>)
qed

lemma take_bit_ucast_small:
  "LENGTH('a) \<le> n \<Longrightarrow> take_bit n (ucast (v :: 'a::len word) :: 'b::len word) = ucast v"
  by (rule bit_word_eqI) (auto simp: bit_take_bit_iff bit_ucast_iff dest: bit_imp_le_length)

lemma SerializeUint8_emits: "emits (\<lambda>s. WriteStream_SerializeUint8 s v) (\<lambda>_. bits_of 8 v)"
  using writeBits_emits [of 8 "ucast v"]
  by (simp add: WriteStream_SerializeUint8_def take_bit_ucast_small bits_of_ucast)

lemma SerializeUint16_emits: "emits (\<lambda>s. WriteStream_SerializeUint16 s v) (\<lambda>_. bits_of 16 v)"
  using writeBits_emits [of 16 "ucast v"]
  by (simp add: WriteStream_SerializeUint16_def take_bit_ucast_small bits_of_ucast)

lemma SerializeUint32_emits: "emits (\<lambda>s. WriteStream_SerializeUint32 s v) (\<lambda>_. bits_of 32 v)"
  using writeBits_emits [of 32 v] by (simp add: WriteStream_SerializeUint32_def)

lemma SerializeUint64_emits: "emits (\<lambda>s. WriteStream_SerializeUint64 s v) (\<lambda>_. bits_of 64 v)"
  using writeBits64_emits [of 64 v] by (simp add: WriteStream_SerializeUint64_def)

lemma SerializeBool_emits: "emits (\<lambda>s. WriteStream_SerializeBool s v) (\<lambda>_. [v])"
  using writeBool_emits by (simp add: WriteStream_SerializeBool_def)

lemma SerializeFloat32_emits:
  "float32BitsAreFinite v \<Longrightarrow> emits (\<lambda>s. WriteStream_SerializeFloat32 s v) (\<lambda>_. bits_of 32 v)"
  using writeBits_emits [of 32 v] by (simp add: WriteStream_SerializeFloat32_def)

lemma SerializeFloat64_emits:
  "float64BitsAreFinite v \<Longrightarrow> emits (\<lambda>s. WriteStream_SerializeFloat64 s v) (\<lambda>_. bits_of 64 v)"
  using writeBits64_emits [of 64 v] by (simp add: WriteStream_SerializeFloat64_def)

section \<open>Alignment, bytes and strings\<close>

lemma align_len_le: "align_len p \<le> 7"
  by (simp add: align_len_def)

lemma bits_of_zero_align: "bits_of (align_len p) (0 :: 'a::len word) = wire_align p"
  by (simp add: wire_align_def)

lemma SerializeAlign_emits: "emits WriteStream_SerializeAlign wire_align"
proof (rule emitsI)
  fix buf and s :: "'c write_stream"
  let ?n = "align_len (ws_bitsWritten s)"
  assume inv: "ws_inv buf s" and "ws_bitsWritten s + length (wire_align (ws_bitsWritten s)) \<le> ws_numBits s"
  then show "\<exists>s'. WriteStream_SerializeAlign s = Inr s' \<and> extends buf (wire_align (ws_bitsWritten s)) s s'"
    using emitsD [OF writeBits_emits [of ?n 0] inv] align_len_le [of "ws_bitsWritten s"]
    by (auto simp: WriteStream_SerializeAlign_def neg_and_7_eq Let_def wire_align_def)
next
  fix buf and s :: "'c write_stream"
  let ?n = "align_len (ws_bitsWritten s)"
  assume inv: "ws_inv buf s" and full: "ws_numBits s < ws_bitsWritten s + length (wire_align (ws_bitsWritten s))"
  then have "?n \<noteq> 0" using ws_invD(4) [OF inv] by auto
  then show "WriteStream_SerializeAlign s = Inl PanicWriteOverflow"
    using emits_overflow [OF writeBits_emits [of ?n 0] inv] align_len_le [of "ws_bitsWritten s"] full
    by (simp add: WriteStream_SerializeAlign_def neg_and_7_eq Let_def)
qed

text \<open>The align and the payload, when the room for both has been checked.\<close>

lemma align_bytes_ok:
  assumes inv: "ws_inv buf s" and fits: "ws_bitsWritten s + length (wire_bytes bs (ws_bitsWritten s)) \<le> ws_numBits s"
  shows "\<exists>s1 s2. WriteStream_tryWriteBits s 0 (align_len (ws_bitsWritten s)) = Inr (True, s1)
    \<and> writeBytesStream s1 bs = Inr s2 \<and> extends buf (wire_bytes bs (ws_bitsWritten s)) s s2"
proof -
  let ?n = "align_len (ws_bitsWritten s)"
  have n: "?n \<le> 64" and len: "ws_bitsWritten s + ?n + 8 * length bs \<le> ws_numBits s"
    using align_len_le [of "ws_bitsWritten s"] fits by (simp_all add: wire_bytes_def)
  obtain s1 where s1: "WriteStream_tryWriteBits s 0 ?n = Inr (True, s1)" "extends buf (wire_align (ws_bitsWritten s)) s s1"
    using tryWriteBits64_ok [OF inv n, of 0] len unfolding tryWriteBits_64 by (auto simp: bits_of_zero_align simp del: bits_of_zero)
  have b: "ws_bitsWritten s1 = ws_bitsWritten s + ?n" "ws_inv buf s1" "ws_numBits s1 = ws_numBits s"
    using extends_bitsWritten [OF inv s1(2)] s1(2) by (simp_all add: extends_def)
  have "ws_bitsWritten s1 mod 8 = 0" unfolding b(1) by (rule align_len_aligned)
  then obtain s2 where s2: "writeBytesStream s1 bs = Inr s2" "extends buf (bytes_bits bs) s1 s2"
    using writeBytesStream_ok [OF b(2)] len b by auto
  show ?thesis using s1(1) s2(1) extends_trans [OF s1(2) s2(2)] unfolding wire_bytes_def by blast
qed

lemma SerializeBytes_emits: "emits (\<lambda>s. WriteStream_SerializeBytes s bs) (wire_bytes bs)"
proof (rule emitsI)
  fix buf and s :: "'c write_stream"
  assume "ws_inv buf s" and "ws_bitsWritten s + length (wire_bytes bs (ws_bitsWritten s)) \<le> ws_numBits s"
  then show "\<exists>s'. WriteStream_SerializeBytes s bs = Inr s' \<and> extends buf (wire_bytes bs (ws_bitsWritten s)) s s'"
    using align_bytes_ok [of buf s bs]
    by (auto simp: WriteStream_SerializeBytes_def neg_and_7_eq room_simps wire_bytes_def Let_def mult.commute)
qed (simp add: WriteStream_SerializeBytes_def neg_and_7_eq room_simps wire_bytes_def Let_def mult.commute)

lemma SerializeString_emits:
  assumes "ok_string bufferSize t"
  shows "emits (\<lambda>s. WriteStream_SerializeString s t bufferSize) (wire_string bufferSize t)"
proof -
  define n where "n = Len (word_of_int (bufferSize - 1) :: u32)"
  have ok: "bufferSizeValid bufferSize" "int (length t) < bufferSize" "checkStringText t = Inr ()"
    using assms by (simp_all add: ok_string_def checkStringText_ok_iff)
  have n: "n \<le> 64" using Len_le_length [of "word_of_int (bufferSize - 1) :: u32"] by (simp add: n_def)
  have lb: "BitsRequired 0 (word_of_int (bufferSize - 1)) = n" unfolding BitsRequired_eq_Len n_def diff_zero ..
  have v: "take_bit n (word_of_nat (length t)) = (word_of_nat (length t) :: u32)"
    using bufferSize_bits [OF ok(1,2)] unfolding lb .
  then have v': "take_bit n (ucast (word_of_nat (length t) :: u32)) = (ucast (word_of_nat (length t) :: u32) :: u64)"
    by (rule take_bit_ucast_eq)
  have op: "WriteStream_SerializeString s t bufferSize =
    andThen (WriteStream_room s (n + align_len (ws_bitsWritten s + n) + length t * 8)) (\<lambda>_.
      andThen (WriteStream_tryWriteBits s (word_of_nat (length t)) n) (\<lambda>(_, s').
      andThen (WriteStream_tryWriteBits s' 0 (align_len (ws_bitsWritten s + n))) (\<lambda>(_, s). writeBytesStream s t)))" for s :: "'c write_stream"
    using ok unfolding WriteStream_SerializeString_def lb Let_def neg_and_7_eq by simp
  have ws: "wire_string bufferSize t p = bits_of n (word_of_nat (length t) :: u32) @ wire_bytes t (p + n)" for p
    unfolding wire_string_def Let_def n_def ..
  have w: "length (wire_string bufferSize t p) = n + align_len (p + n) + 8 * length t" for p
    unfolding ws by (simp add: wire_bytes_def)
  show ?thesis
  proof (rule emitsI)
    fix buf and s :: "'c write_stream"
    assume inv: "ws_inv buf s" and fits: "ws_bitsWritten s + length (wire_string bufferSize t (ws_bitsWritten s)) \<le> ws_numBits s"
    obtain s1 where s1: "WriteStream_tryWriteBits s (word_of_nat (length t)) n = Inr (True, s1)"
      "extends buf (bits_of n (ucast (word_of_nat (length t) :: u32) :: u64)) s s1"
      using tryWriteBits64_ok [OF inv n v'] fits unfolding w tryWriteBits_64 by auto
    have b: "ws_bitsWritten s1 = ws_bitsWritten s + n" "ws_inv buf s1" "ws_numBits s1 = ws_numBits s"
      using extends_bitsWritten [OF inv s1(2)] s1(2) by (simp_all add: extends_def)
    have fit1: "ws_bitsWritten s1 + length (wire_bytes t (ws_bitsWritten s1)) \<le> ws_numBits s1"
      using fits unfolding w b by (simp add: wire_bytes_def)
    obtain s2 s3 where s3: "WriteStream_tryWriteBits s1 0 (align_len (ws_bitsWritten s1)) = Inr (True, s2)"
      "writeBytesStream s2 t = Inr s3" "extends buf (wire_bytes t (ws_bitsWritten s1)) s1 s3"
      using align_bytes_ok [OF b(2) fit1] by blast
    have u: "bits_of n (ucast (word_of_nat (length t) :: u32) :: u64) = bits_of n (word_of_nat (length t) :: u32)"
      using Len_le_length [of "word_of_int (bufferSize - 1) :: u32"] by (intro bits_of_ucast) (simp add: n_def)
    have "WriteStream_SerializeString s t bufferSize = Inr s3"
      using s1(1) s3(1,2) fits b(1) unfolding op w by (simp add: room_simps mult.commute)
    moreover have "wire_string bufferSize t (ws_bitsWritten s) = bits_of n (word_of_nat (length t) :: u32) @ wire_bytes t (ws_bitsWritten s1)"
      unfolding ws b(1) ..
    ultimately show "\<exists>s'. WriteStream_SerializeString s t bufferSize = Inr s' \<and> extends buf (wire_string bufferSize t (ws_bitsWritten s)) s s'"
      using extends_trans [OF s1(2) s3(3)] unfolding u by simp
  next
    fix buf and s :: "'c write_stream"
    assume "ws_numBits s < ws_bitsWritten s + length (wire_string bufferSize t (ws_bitsWritten s))"
    then show "WriteStream_SerializeString s t bufferSize = Inl PanicWriteOverflow"
      unfolding op w by (simp add: room_simps mult.commute)
  qed
qed

section \<open>int_relative\<close>

lemma write_buckets_emits:
  "buckets_from k bs \<Longrightarrow> k \<le> d \<Longrightarrow>
   emits (\<lambda>s :: 'c write_stream. write_buckets s d current bs) (\<lambda>_. wire_buckets d current bs)"
proof (induction bs arbitrary: k)
  case Nil
  then show ?case using writeBits_emits [of 32 current] by simp
next
  case (Cons b bs)
  obtain lo hi where b: "b = (lo, hi)" by (cases b)
  have B: "lo = k" "lo \<le> hi" "uint hi < 2 ^ 31" "buckets_from (hi + 1) bs" using Cons.prems(1) by (auto simp: b)
  show ?case
  proof (cases "d \<le> hi")
    case True
    then have "emits (\<lambda>s :: 'c write_stream. WriteStream_SerializeInt s d lo hi) (\<lambda>_. wire_int lo hi d)"
      using B Cons.prems(2) by (intro SerializeInt_emits bucket_ok) simp_all
    from emits_seq [OF writeBool_emits [of True] this] show ?thesis using True by (simp add: b)
  next
    case False
    have "hi + 1 \<le> d" using word_Suc_le [OF B(2,3) False] .
    from emits_seq [OF writeBool_emits [of False] Cons.IH [OF B(4) this]] show ?thesis using False by (simp add: b)
  qed
qed

lemma ok_int_relativeD:
  assumes "ok_int_relative previous current"
  shows "\<not> previous <s word_of_int intRelativeMin" and "\<not> current \<le>s previous"
    and "current - previous \<noteq> 1 \<Longrightarrow> 2 \<le> current - previous"
proof -
  show "\<not> previous <s word_of_int intRelativeMin" "\<not> current \<le>s previous"
    using assms by (simp_all add: ok_int_relative_def intRelativeMin_def word_sless_alt word_sle_eq)
  have "uint (current - previous) = sint current - sint previous"
    by (rule uint_diff_sint) (use assms in \<open>simp add: ok_int_relative_def\<close>)
  moreover assume "current - previous \<noteq> 1"
  then have "uint (current - previous) \<noteq> 1" using word_uint_eqI [of "current - previous" 1] by auto
  ultimately have "2 \<le> uint (current - previous)" using assms unfolding ok_int_relative_def by linarith
  then show "2 \<le> current - previous" by (simp add: word_le_def)
qed

lemma SerializeIntRelative_emits:
  assumes "ok_int_relative previous current"
  shows "emits (\<lambda>s. WriteStream_SerializeIntRelative s previous current) (\<lambda>_. wire_int_relative previous current)"
proof -
  define d where "d = current - previous"
  note R = ok_int_relativeD [OF assms, folded d_def]
  have op: "WriteStream_SerializeIntRelative s previous current =
      andThen (WriteStream_writeBool s (d = 1)) (\<lambda>s. if d = 1 then Inr s else write_buckets s d current intRelativeBuckets)"
    for s :: "'a write_stream"
    using R(1,2) unfolding WriteStream_SerializeIntRelative_def by (simp add: Let_def flip: d_def)
  show ?thesis
  proof (cases "d = 1")
    case True
    then show ?thesis using writeBool_emits [of True] emits_seq [OF writeBool_emits [of True] emits_skip]
      unfolding op wire_int_relative_buckets by (simp add: Let_def flip: d_def)
  next
    case False
    from emits_seq [OF writeBool_emits [of False] write_buckets_emits [OF buckets_from_2 R(3) [OF this]]]
    show ?thesis using False unfolding op wire_int_relative_buckets by (simp add: Let_def flip: d_def)
  qed
qed

section \<open>The start and the end of a write\<close>

lemma NewWriteStream_ok:
  "length buf mod 8 = 0 \<Longrightarrow> \<exists>s :: 'c write_stream. NewWriteStream buf = Inr s \<and> ws_inv buf s \<and> ws_bits s = []
     \<and> ws_bitsWritten s = 0 \<and> ws_numBits s = 8 * length buf \<and> ws_context s = None"
  by (auto simp: NewWriteStream_def WriteStream_Reset_def ws_bits_def bw_bits_def packed_def intro!: ws_invI)

lemma WriteStream_Reset_ok:
  assumes "length buf mod 8 = 0"
  shows "\<exists>s'. WriteStream_Reset s buf = Inr s' \<and> ws_inv buf s' \<and> ws_bits s' = []
     \<and> ws_bitsWritten s' = 0 \<and> ws_numBits s' = 8 * length buf \<and> ws_context s' = ws_context s"
  using assms by (auto simp: WriteStream_Reset_def ws_bits_def bw_bits_def packed_def intro!: ws_invI)

lemma Flush_FlushBits:
  assumes "ws_inv buf s" and "BitWriter_FlushBits (bw_of s) = Inr w"
  shows "WriteStream_Flush s = Inr (s\<lparr>ws_data := bw_data w\<rparr>)"
  using assms(2)
  by (auto simp: WriteStream_Flush_def BitWriter_FlushBits_def and_63_nat qword_offset_eq mult.commute andThen_Inr_iff
      split: if_splits)

lemma Flush_ok:
  assumes inv: "ws_inv buf s"
  defines "m \<equiv> (ws_bitsWritten s + 63) div 64"
  shows "\<exists>s' bs. WriteStream_Flush s = Inr s' \<and> WriteStream_Data s' = Inr bs
    \<and> length bs = WriteStream_BytesProcessed s
    \<and> bytes_bits bs = ws_bits s @ wire_align (ws_bitsWritten s)
    \<and> drop (8 * m) (ws_data s') = drop (8 * m) buf \<and> length (ws_data s') = length buf"
proof -
  have bi: "bw_inv buf (bw_of s)" using inv by (simp add: ws_inv_def)
  obtain w where w: "BitWriter_FlushBits (bw_of s) = Inr w" "length (bw_data w) = length buf"
    "bw_bitsWritten w = ws_bitsWritten s" "drop (8 * m) (bw_data w) = drop (8 * m) buf"
    using FlushBits_ok [OF bi] unfolding m_def by auto
  obtain bs where bs: "BitWriter_Data w = Inr bs" "length bs = BitWriter_BytesWritten (bw_of s)"
    "bytes_bits bs = ws_bits s @ wire_align (ws_bitsWritten s)"
    using Data_ok [OF bi w(1)] by (auto simp: ws_bits_def wire_align_def)
  note f = Flush_FlushBits [OF inv w(1)]
  have "WriteStream_Data (s\<lparr>ws_data := bw_data w\<rparr>) = Inr bs"
    using bs(1) w(3) by (simp add: WriteStream_Data_def BitWriter_Data_def WriteStream_BytesProcessed_def BitWriter_BytesWritten_def)
  with f bs w show ?thesis by (simp add: WriteStream_BytesProcessed_def BitWriter_BytesWritten_def)
qed

end
