(* ===== verification/Partial_Writes.thy ===== *)
theory Partial_Writes
  imports Write_Ops
begin

text \<open>
  What a write leaves in the stream when it panics. A caller may recover from a panic and look at the stream, and
  \<open>'a res\<close> has no place for it; here a panic carries the stream as it stood. A method that packs a value checks
  its room before its first store, except \<open>SerializeIntRelative\<close> (write_stream.go), a sequence of checked writes: it is
  translated again, with the calls it makes, and proved to be the operation of Write_Stream with
  the stream kept, and to leave the bits that fitted.
\<close>

section \<open>Writes that keep the stream\<close>

type_synonym 'c left = "'c write_stream \<times> panic option"

primrec left_then :: "'c left \<Rightarrow> ('c write_stream \<Rightarrow> 'c left) \<Rightarrow> 'c left" where
  "left_then (s, p) k = (case p of Some e \<Rightarrow> (s, Some e) | None \<Rightarrow> k s)"

text \<open>The last case is the runtime panic of the store, after the scratch and the count have changed; it needs a broken stream.\<close>

definition writeBits_left :: "'c write_stream \<Rightarrow> u32 \<Rightarrow> nat \<Rightarrow> 'c left" where
  "writeBits_left s value bits =
    (case WriteStream_tryWriteBits s value bits of
       Inr (ok, s) \<Rightarrow> if \<not> ok then (s, Some PanicWriteOverflow) else (s, None)
     | Inl p \<Rightarrow> (s\<lparr>ws_scratch := ws_scratch s OR push_bit (ws_bitsWritten s AND 63) (ucast value),
                   ws_bitsWritten := ws_bitsWritten s + bits\<rparr>, Some p))"

definition writeBool_left :: "'c write_stream \<Rightarrow> bool \<Rightarrow> 'c left" where
  "writeBool_left s value = writeBits_left s (if value then 1 else 0) 1"

definition SerializeInt_left :: "'c write_stream \<Rightarrow> i32 \<Rightarrow> i32 \<Rightarrow> i32 \<Rightarrow> 'c left" where
  "SerializeInt_left s v mn mx =
    (if mx <s mn then (s, Some PanicMinMax)
     else if v <s mn \<or> mx <s v then (s, Some PanicValueOutOfRange)
     else writeBits_left s (v - mn) (BitsRequired mn mx))"

fun buckets_left :: "'c write_stream \<Rightarrow> u32 \<Rightarrow> i32 \<Rightarrow> (u32 \<times> u32) list \<Rightarrow> 'c left" where
  "buckets_left s difference current [] = writeBits_left s current 32"
| "buckets_left s difference current ((bmin, bmax) # buckets) =
    left_then (writeBool_left s (difference \<le> bmax)) (\<lambda>s.
      if difference \<le> bmax then SerializeInt_left s difference bmin bmax
      else buckets_left s difference current buckets)"

definition SerializeIntRelative_left :: "'c write_stream \<Rightarrow> i32 \<Rightarrow> i32 \<Rightarrow> 'c left" where
  "SerializeIntRelative_left s previous current =
    (if previous <s word_of_int intRelativeMin then (s, Some PanicIntRelativeDomain)
     else if current \<le>s previous then (s, Some PanicIntRelativeOrder)
     else
       let difference = current - previous
       in left_then (writeBool_left s (difference = 1)) (\<lambda>s.
            if difference = 1 then (s, None)
            else buckets_left s difference current intRelativeBuckets))"

section \<open>The same operation\<close>

text \<open>\<open>outcome\<close> forgets the stream of a panic.\<close>

definition outcome :: "'c left \<Rightarrow> 'c write_stream res" where
  "outcome l = (case snd l of None \<Rightarrow> Inr (fst l) | Some p \<Rightarrow> Inl p)"

named_theorems outcomes

lemma outcome_pair [simp]: "outcome (s, None) = Inr s" "outcome (s, Some p) = Inl p"
  by (simp_all add: outcome_def)

lemma outcome_then [outcomes]: "outcome (left_then l k) = andThen (outcome l) (\<lambda>s. outcome (k s))"
  by (cases l; cases "snd l") simp_all

lemma outcome_writeBits [outcomes]: "outcome (writeBits_left s v n) = WriteStream_writeBits s v n"
  by (cases "WriteStream_tryWriteBits s v n") (auto simp: writeBits_left_def WriteStream_writeBits_def)

lemma outcome_writeBool [outcomes]: "outcome (writeBool_left s b) = WriteStream_writeBool s b"
  by (simp add: writeBool_left_def WriteStream_writeBool_def outcomes)

lemma outcome_SerializeInt [outcomes]: "outcome (SerializeInt_left s v mn mx) = WriteStream_SerializeInt s v mn mx"
  by (auto simp: SerializeInt_left_def WriteStream_SerializeInt_def WriteStream_writeBits_def outcomes)

lemma outcome_buckets [outcomes]: "outcome (buckets_left (s :: 'c write_stream) d current bs) = write_buckets s d current bs"
proof (induction bs arbitrary: s)
  case (Cons b bs)
  have "outcome (if d \<le> hi then SerializeInt_left s d lo hi else buckets_left s d current bs)
      = (if d \<le> hi then WriteStream_SerializeInt s d lo hi else write_buckets s d current bs)" for s :: "'c write_stream" and lo hi
    using Cons.IH by (simp add: outcomes)
  then show ?case by (cases b) (simp add: outcomes)
qed (simp add: outcomes)

lemma outcome_SerializeIntRelative:
  "outcome (SerializeIntRelative_left s previous current) = WriteStream_SerializeIntRelative s previous current"
proof -
  have "outcome (if d = 1 then (s, None) else buckets_left s d current bs) = (if d = 1 then Inr s else write_buckets s d current bs)"
    for s :: "'a write_stream" and d bs by (simp add: outcomes)
  then show ?thesis by (simp add: SerializeIntRelative_left_def WriteStream_SerializeIntRelative_def Let_def outcomes)
qed

section \<open>What has fitted\<close>

text \<open>
  \<open>leaves buf run wire flags s\<close>: the run writes the bits \<open>wire\<close> if they fit the room of \<open>s\<close>; if not it panics, and what it has written is
  what fits of the first \<open>flags\<close> of them, those that it writes one at a time.
\<close>

definition leaves :: "u8 list \<Rightarrow> ('c write_stream \<Rightarrow> 'c left) \<Rightarrow> bool list \<Rightarrow> nat \<Rightarrow> 'c write_stream \<Rightarrow> bool" where
  "leaves buf run wire flags s \<longleftrightarrow> (let room = ws_numBits s - ws_bitsWritten s in
     if length wire \<le> room then \<exists>s'. run s = (s', None) \<and> extends buf wire s s'
     else \<exists>s'. run s = (s', Some PanicWriteOverflow) \<and> extends buf (take flags (take room wire)) s s')"

lemma leaves_bits:
  assumes "ws_inv buf s" and "n \<le> 32" and "take_bit n v = v"
  shows "leaves buf (\<lambda>s. writeBits_left s v n) (bits_of n v) 0 s"
proof (cases "ws_bitsWritten s + n \<le> ws_numBits s")
  case True
  have v: "take_bit n (ucast v :: u64) = ucast v" by (rule take_bit_ucast_eq [OF assms(3)])
  obtain s' where "WriteStream_tryWriteBits s v n = Inr (True, s')" "extends buf (bits_of n (ucast v :: u64)) s s'"
    using tryWriteBits64_ok [OF assms(1) _ v True] assms(2) unfolding tryWriteBits_64 by auto
  then show ?thesis using True assms(2) by (simp add: leaves_def writeBits_left_def bits_of_ucast)
next
  case False
  then have "WriteStream_tryWriteBits s v n = Inr (False, s)" by (simp add: WriteStream_tryWriteBits_def Let_def)
  moreover have "\<not> n \<le> ws_numBits s - ws_bitsWritten s" using False ws_invD(4) [OF assms(1)] by linarith
  ultimately show ?thesis using assms(1) by (simp add: leaves_def writeBits_left_def)
qed

lemma leaves_flag:
  assumes "ws_inv buf s" and run: "\<And>s'. ws_inv buf s' \<Longrightarrow> leaves buf run wire flags s'"
  shows "leaves buf (\<lambda>s. left_then (writeBool_left s b) run) (b # wire) (Suc flags) s"
proof -
  have bool: "leaves buf (\<lambda>s. writeBool_left s b) [b] 0 s"
    using leaves_bits [OF assms(1), of 1 1] leaves_bits [OF assms(1), of 1 0]
    by (cases b) (simp_all add: writeBool_left_def bits_of_def)
  show ?thesis
  proof (cases "ws_numBits s - ws_bitsWritten s")
    case 0
    then show ?thesis using bool by (auto simp: leaves_def)
  next
    case (Suc room)
    obtain s1 where s1: "writeBool_left s b = (s1, None)" "extends buf [b] s s1" using bool Suc by (auto simp: leaves_def)
    have "ws_inv buf s1" "ws_numBits s1 - ws_bitsWritten s1 = room"
      using extends_bitsWritten [OF assms(1) s1(2)] s1(2) Suc by (simp_all add: extends_def)
    then show ?thesis
      using run [of s1] s1(1) extends_trans [OF s1(2)] Suc by (fastforce simp: leaves_def Let_def split: if_splits)
  qed
qed

text \<open>One flag for each bucket tried.\<close>

primrec bucket_flags :: "u32 \<Rightarrow> (u32 \<times> u32) list \<Rightarrow> nat" where
  "bucket_flags d [] = 0"
| "bucket_flags d (b # bs) = Suc (if d \<le> snd b then 0 else bucket_flags d bs)"

definition relative_flags :: "u32 \<Rightarrow> nat" where
  "relative_flags d = Suc (if d = 1 then 0 else bucket_flags d intRelativeBuckets)"

lemma SerializeInt_leaves:
  assumes "ws_inv buf s" and "ok_int mn mx v"
  shows "leaves buf (\<lambda>s. SerializeInt_left s v mn mx) (wire_int mn mx v) 0 s"
proof -
  have "take_bit (Len (mx - mn)) (v - mn) = v - mn" "Len (mx - mn) \<le> 32"
    using assms(2) range_offset(2) [of mn v mx] Len_le_length [of "mx - mn"] by (simp_all add: ok_int_def)
  from leaves_bits [OF assms(1) this(2,1)] show ?thesis
    using assms(2) ok_int_trans [OF assms(2)] by (auto simp: SerializeInt_left_def wire_int_def ok_int_def word_sless_alt BitsRequired_eq_Len)
qed

lemma buckets_leaves:
  "buckets_from k bs \<Longrightarrow> k \<le> d \<Longrightarrow> ws_inv buf s \<Longrightarrow>
   leaves buf (\<lambda>s. buckets_left s d current bs) (wire_buckets d current bs) (bucket_flags d bs) s"
proof (induction bs arbitrary: k s)
  case Nil
  then show ?case using leaves_bits [of buf s 32 current] by simp
next
  case (Cons b bs)
  obtain lo hi where b: "b = (lo, hi)" by (cases b)
  have B: "lo = k" "lo \<le> hi" "uint hi < 2 ^ 31" "buckets_from (hi + 1) bs" using Cons.prems(1) by (auto simp: b)
  show ?case
  proof (cases "d \<le> hi")
    case True
    then have "leaves buf (\<lambda>s. SerializeInt_left s d lo hi) (wire_int lo hi d) 0 s'" if "ws_inv buf s'" for s'
      using B Cons.prems(2) by (intro SerializeInt_leaves [OF that] bucket_ok) simp_all
    from leaves_flag [OF Cons.prems(3) this] show ?thesis using True by (simp add: b)
  next
    case False
    have "hi + 1 \<le> d" using word_Suc_le [OF B(2,3) False] .
    from leaves_flag [OF Cons.prems(3) Cons.IH [OF B(4) this]] show ?thesis using False by (simp add: b)
  qed
qed

text \<open>
  C28. An int_relative that does not fit is written in part. The operation asks for room one bit at a time: on any stream the
  version that keeps the stream of a panic has the outcome of \<open>SerializeIntRelative\<close>, and for a conforming pair it writes
  the encoding when that fits the room left; when it does not it panics, and in the stream are
  then as many as fitted of the flag bits (one, and one for each bucket tried), and nothing else.
\<close>

theorem int_relative_writes_before_panic:
  assumes "ws_inv buf s" and "ok_int_relative previous current"
  defines "room \<equiv> ws_numBits s - ws_bitsWritten s" and "wire \<equiv> wire_int_relative previous current"
  shows "(case SerializeIntRelative_left s previous current of
      (s', None) \<Rightarrow> WriteStream_SerializeIntRelative s previous current = Inr s'
        \<and> length wire \<le> room \<and> extends buf wire s s'
    | (s', Some p) \<Rightarrow> WriteStream_SerializeIntRelative s previous current = Inl p \<and> p = PanicWriteOverflow
        \<and> room < length wire \<and> extends buf (take (min room (relative_flags (current - previous))) wire) s s')"
proof -
  define d where "d = current - previous"
  note R = ok_int_relativeD [OF assms(2), folded d_def]
  have rest: "leaves buf (\<lambda>s. if d = 1 then (s, None) else buckets_left s d current intRelativeBuckets)
      (if d = 1 then [] else wire_buckets d current intRelativeBuckets) (if d = 1 then 0 else bucket_flags d intRelativeBuckets) s'"
    if "ws_inv buf s'" for s' :: "'a write_stream"
    using buckets_leaves [OF buckets_from_2 R(3) that] that by (cases "d = 1") (auto simp: leaves_def)
  have "leaves buf (\<lambda>s. SerializeIntRelative_left s previous current) wire (relative_flags d) s"
    using leaves_flag [OF assms(1) rest, of "d = 1"] R(1,2)
    by (cases "d = 1") (simp_all add: SerializeIntRelative_left_def wire_def wire_int_relative_buckets relative_flags_def Let_def flip: d_def)
  then show ?thesis
    using outcome_SerializeIntRelative [of s previous current]
    by (auto simp: leaves_def Let_def take_take min.commute simp flip: room_def d_def split: if_splits)
qed

theorem int_relative_writes_before_panic_witness:
  "\<exists>(s :: unit write_stream) s'. ws_numBits s = Suc (ws_bitsWritten s)
    \<and> SerializeIntRelative_left s 0 1000 = (s', Some PanicWriteOverflow) \<and> ws_bits s' = ws_bits s @ [False]"
proof -
  obtain s0 :: "unit write_stream" where s0: "ws_inv (replicate 8 0) s0" "ws_bits s0 = []" "ws_bitsWritten s0 = 0" "ws_numBits s0 = 64"
    using NewWriteStream_ok [of "replicate 8 0", where 'c = unit] by auto
  have "ok_bits64 63 0" by (simp add: ok_bits64_def)
  from emitsD [OF SerializeBits64_emits [OF this] s0(1)] s0(3,4) obtain s where "extends (replicate 8 0) (bits_of 63 (0 :: u64)) s0 s" by auto
  then have s: "ws_inv (replicate 8 0) s" "ws_numBits s = Suc (ws_bitsWritten s)"
    using s0(2,4) length_ws_bits [of "replicate 8 0" s] by (simp_all add: extends_def)
  have ok: "ok_int_relative 0 1000" by (simp add: ok_int_relative_def)
  have wire: "wire_int_relative 0 1000 = False # tl (wire_int_relative 0 1000)" "1 < length (wire_int_relative 0 1000)"
    by (simp_all add: wire_int_relative_def Let_def)
  then have "take (min 1 (relative_flags (1000 - 0))) (wire_int_relative 0 1000) = [False]"
    by (metis One_nat_def min_Suc_Suc min_0L relative_flags_def take_0 take_Suc_Cons)
  then obtain s' where "SerializeIntRelative_left s 0 1000 = (s', Some PanicWriteOverflow)" "extends (replicate 8 0) [False] s s'"
    using int_relative_writes_before_panic [OF s(1) ok] s(2) wire(2) by (auto split: prod.splits option.splits)
  then show ?thesis using s(2) by (auto simp: extends_def)
qed

end
