(* ===== verification/Writers.thy ===== *)
theory Writers
  imports Write_Ops
begin

text \<open>
  The two writers of the library against each other. \<open>WriteStream\<close> keeps its state flat and drops two
  of the counters of \<open>BitWriter\<close>; \<open>bw_of\<close> recovers them, and is a functional refinement: an
  operation of the stream under \<open>bw_of\<close> is the operation of the writer, panics included.
\<close>

section \<open>Calls both writers have\<close>

datatype bit_call = CallBits u32 int | CallAlign | CallBytes "u8 list"

fun writer_call :: "bit_writer \<Rightarrow> bit_call \<Rightarrow> bit_writer res" where
  "writer_call w (CallBits v bits) = BitWriter_WriteBits w v bits"
| "writer_call w CallAlign = BitWriter_WriteAlign w"
| "writer_call w (CallBytes bs) = andThen (BitWriter_WriteAlign w) (\<lambda>w. BitWriter_WriteBytes w bs)"

fun stream_call :: "'c write_stream \<Rightarrow> bit_call \<Rightarrow> 'c write_stream res" where
  "stream_call s (CallBits v bits) = WriteStream_SerializeBits s v bits"
| "stream_call s CallAlign = WriteStream_SerializeAlign s"
| "stream_call s (CallBytes bs) = WriteStream_SerializeBytes s bs"

definition writer_packet :: "u8 list \<Rightarrow> bit_call list \<Rightarrow> u8 list res" where
  "writer_packet buf cs =
    andThen (NewBitWriter buf) (\<lambda>w. andThen (foldM writer_call w cs) (\<lambda>w.
    andThen (BitWriter_FlushBits w) BitWriter_Data))"

definition stream_packet :: "u8 list \<Rightarrow> bit_call list \<Rightarrow> u8 list res" where
  "stream_packet buf cs =
    andThen (NewWriteStream buf) (\<lambda>s :: unit write_stream. andThen (foldM stream_call s cs) (\<lambda>s.
    andThen (WriteStream_Flush s) WriteStream_Data))"

section \<open>The refinement\<close>

text \<open>
  The memory of a writer is determined by its bits, so two runs that append the same bits end in
  the same state.
\<close>

lemma emits_refines:
  assumes emits: "emits run e" and inv: "ws_inv buf s"
    and fits: "ws_bitsWritten s + length (e (ws_bitsWritten s)) \<le> ws_numBits s \<Longrightarrow>
      \<exists>w. g (bw_of s) = Inr w \<and> bw_inv buf w \<and> bw_bits w = bw_bits (bw_of s) @ e (ws_bitsWritten s)"
    and full: "ws_numBits s < ws_bitsWritten s + length (e (ws_bitsWritten s)) \<Longrightarrow> g (bw_of s) = Inl PanicWriteOverflow"
  shows "g (bw_of s) = andThen (run s) (\<lambda>s'. Inr (bw_of s'))"
proof (cases "ws_bitsWritten s + length (e (ws_bitsWritten s)) \<le> ws_numBits s")
  case True
  obtain s' where s': "run s = Inr s'" "extends buf (e (ws_bitsWritten s)) s s'" using emitsD [OF emits inv True] by blast
  obtain w where w: "g (bw_of s) = Inr w" "bw_inv buf w" "bw_bits w = bw_bits (bw_of s) @ e (ws_bitsWritten s)"
    using fits [OF True] by blast
  have "w = bw_of s'" by (rule bw_state_eq [OF w(2)]) (use s'(2) w(3) in \<open>simp_all add: extends_def ws_inv_def ws_bits_def\<close>)
  then show ?thesis using s'(1) w(1) by simp
next
  case False
  then show ?thesis using emits_overflow [OF emits inv] full by simp
qed

lemma ok_bits_checks:
  "ok_bits bits (v :: u32) \<longleftrightarrow> \<not> (bits < 1 \<or> 32 < bits) \<and> \<not> drop_bit (nat (32 - bits)) (NOT 0) < v"
proof (cases "1 \<le> bits \<and> bits \<le> 32")
  case True
  then have "nat bits \<le> LENGTH(32)" "nat (32 - bits) = LENGTH(32) - nat bits" by auto
  then show ?thesis using True not_too_wide_iff [of "nat bits" v] by (auto simp only: ok_bits_iff)
qed (auto simp: ok_bits_iff)

lemma WriteBits_refines:
  assumes inv: "ws_inv buf s"
  shows "BitWriter_WriteBits (bw_of s) v bits = andThen (WriteStream_SerializeBits s v bits) (\<lambda>s'. Inr (bw_of s'))"
proof (cases "ok_bits bits v")
  case True
  then have ok: "1 \<le> bits" "bits \<le> 32" "take_bit (nat bits) v = v" by (simp_all add: ok_bits_iff)
  have "BitWriter_WriteBits (bw_of s) v bits = Inl PanicWriteOverflow" if "ws_numBits s < ws_bitsWritten s + nat bits"
    using True that unfolding ok_bits_checks BitWriter_WriteBits_def by (simp only: bw_of_simps if_True if_False)
  then show ?thesis
    using WriteBits_ok [OF _ ok, of buf "bw_of s"] inv
    by (intro emits_refines [OF SerializeBits_emits [OF True] inv]) (auto simp only: ws_inv_def bw_of_simps length_bits_of)
next
  case False
  then show ?thesis unfolding ok_bits_checks BitWriter_WriteBits_def WriteStream_SerializeBits_def by auto
qed

lemma WriteAlign_refines:
  assumes inv: "ws_inv buf s"
  shows "BitWriter_WriteAlign (bw_of s) = andThen (WriteStream_SerializeAlign s) (\<lambda>s'. Inr (bw_of s'))"
proof (rule emits_refines [OF SerializeAlign_emits inv])
  obtain w where w: "BitWriter_WriteAlign (bw_of s) = Inr w" "bw_inv buf w" "bw_bits w = bw_bits (bw_of s) @ wire_align (ws_bitsWritten s)"
    "bw_numBits w = ws_numBits s"
    using WriteAlign_ok [of buf "bw_of s"] inv by (auto simp: ws_inv_def wire_align_def)
  then show "\<exists>w. BitWriter_WriteAlign (bw_of s) = Inr w \<and> bw_inv buf w \<and> bw_bits w = bw_bits (bw_of s) @ wire_align (ws_bitsWritten s)"
    by blast
  have "length (bw_bits w) \<le> bw_numBits w" using length_bw_bits [OF w(2)] bw_invD(4) [OF w(2)] by simp
  then have "ws_bitsWritten s + length (wire_align (ws_bitsWritten s)) \<le> ws_numBits s"
    using w(3,4) length_bw_bits [of buf "bw_of s"] inv by (simp add: ws_inv_def)
  then show "BitWriter_WriteAlign (bw_of s) = Inl PanicWriteOverflow"
    if "ws_numBits s < ws_bitsWritten s + length (wire_align (ws_bitsWritten s))" using that by simp
qed

lemma WriteBytes_refines:
  assumes inv: "ws_inv buf s"
  shows "andThen (BitWriter_WriteAlign (bw_of s)) (\<lambda>w. BitWriter_WriteBytes w bs)
    = andThen (WriteStream_SerializeBytes s bs) (\<lambda>s'. Inr (bw_of s'))"
proof (rule emits_refines [OF SerializeBytes_emits inv])
  obtain w where w: "BitWriter_WriteAlign (bw_of s) = Inr w" "bw_inv buf w" "bw_bits w = bw_bits (bw_of s) @ wire_align (ws_bitsWritten s)"
    "bw_numBits w = ws_numBits s"
    using WriteAlign_ok [of buf "bw_of s"] inv by (auto simp: ws_inv_def wire_align_def)
  then have pos: "bw_bitsWritten w = ws_bitsWritten s + align_len (ws_bitsWritten s)"
    using length_bw_bits [OF w(2)] length_bw_bits [of buf "bw_of s"] inv by (simp add: ws_inv_def wire_align_def)
  then have aligned: "bw_bitsWritten w mod 8 = 0" by simp
  show "\<exists>w. andThen (BitWriter_WriteAlign (bw_of s)) (\<lambda>w. BitWriter_WriteBytes w bs) = Inr w \<and> bw_inv buf w
      \<and> bw_bits w = bw_bits (bw_of s) @ wire_bytes bs (ws_bitsWritten s)"
    if "ws_bitsWritten s + length (wire_bytes bs (ws_bitsWritten s)) \<le> ws_numBits s"
    using WriteBytes_ok [OF w(2) aligned, of bs] that w pos by (auto simp: wire_bytes_def wire_align_def)
  show "andThen (BitWriter_WriteAlign (bw_of s)) (\<lambda>w. BitWriter_WriteBytes w bs) = Inl PanicWriteOverflow"
    if "ws_numBits s < ws_bitsWritten s + length (wire_bytes bs (ws_bitsWritten s))"
    using that w pos aligned by (simp add: BitWriter_WriteBytes_def BitWriter_writeBytes_def wire_bytes_def wire_align_def)
qed

lemma call_refines:
  assumes "ws_inv buf s"
  shows "writer_call (bw_of s) c = andThen (stream_call s c) (\<lambda>s'. Inr (bw_of s'))"
proof (cases c)
  case (CallBytes bs)
  then show ?thesis using WriteBytes_refines [OF assms] by (simp only: writer_call.simps stream_call.simps)
qed (simp_all add: WriteBits_refines [OF assms] WriteAlign_refines [OF assms])

lemma emits_inv: "emits run e \<Longrightarrow> ws_inv buf s \<Longrightarrow> run s = Inr s' \<Longrightarrow> ws_inv buf s'"
  unfolding emits_def by (metis extends_def sum.inject(2) sum.simps(4))

lemma stream_call_inv:
  assumes inv: "ws_inv buf s" and run: "stream_call s c = Inr s'"
  shows "ws_inv buf s'"
proof (cases c)
  case (CallBits v bits)
  then have "WriteStream_SerializeBits s v bits = Inr s'" using run by simp
  moreover from this have "ok_bits bits v"
    unfolding ok_bits_checks WriteStream_SerializeBits_def by (auto simp only: split: if_splits)
  ultimately show ?thesis using emits_inv [OF SerializeBits_emits inv] by blast
qed (use run emits_inv [OF SerializeAlign_emits inv] emits_inv [OF SerializeBytes_emits inv] in simp_all)

lemma calls_refine:
  "ws_inv buf s \<Longrightarrow> foldM writer_call (bw_of s) cs = andThen (foldM stream_call s cs) (\<lambda>s'. Inr (bw_of s'))
    \<and> (\<forall>s'. foldM stream_call s cs = Inr s' \<longrightarrow> ws_inv buf s')"
proof (induction cs arbitrary: s)
  case (Cons c cs)
  show ?case
  proof (cases "stream_call s c")
    case (Inr s1)
    then show ?thesis
      using call_refines [OF Cons.prems, of c] Cons.IH [OF stream_call_inv [OF Cons.prems Inr]] by simp
  qed (simp add: call_refines [OF Cons.prems])
qed simp

lemma flush_refines:
  assumes "ws_inv buf s"
  shows "andThen (BitWriter_FlushBits (bw_of s)) BitWriter_Data = andThen (WriteStream_Flush s) WriteStream_Data"
proof -
  have inv: "bw_inv buf (bw_of s)" using assms by (simp add: ws_inv_def)
  obtain w where w: "BitWriter_FlushBits (bw_of s) = Inr w" using FlushBits_ok [OF inv] by blast
  obtain bs where bs: "BitWriter_Data w = Inr bs" "bytes_bits bs = bw_bits (bw_of s) @ wire_align (ws_bitsWritten s)"
    using Data_ok [OF inv w] by (auto simp: wire_align_def)
  obtain s' bs' where s': "WriteStream_Flush s = Inr s'" "WriteStream_Data s' = Inr bs'"
    "bytes_bits bs' = ws_bits s @ wire_align (ws_bitsWritten s)" using Flush_ok [OF assms] by blast
  have "bs = bs'" by (rule bytes_bits_inj) (simp add: bs(2) s'(3) ws_bits_def)
  then show ?thesis using w bs(1) s'(1,2) by simp
qed

section \<open>The packet\<close>

text \<open>
  C12. The bit stream of a \<open>WriteStream\<close> is that of a \<open>BitWriter\<close>: for every buffer and every list of
  calls both have (bits, align, bytes), in any order and with any arguments, the two hand on the
  same packet, byte for byte, or panic with the same message.
\<close>

theorem write_stream_is_bit_writer: "stream_packet buf cs = writer_packet buf cs"
proof (cases "length buf mod 8 = 0")
  case True
  obtain s :: "unit write_stream" where s: "NewWriteStream buf = Inr s" "ws_inv buf s" "ws_bits s = []"
    using NewWriteStream_ok [OF True] by blast
  obtain w where w: "NewBitWriter buf = Inr w" "bw_inv buf w" "bw_bits w = []" using NewBitWriter_ok [OF True] by blast
  have "w = bw_of s" by (rule bw_state_eq [OF w(2)]) (use s w(3) in \<open>simp_all add: ws_inv_def ws_bits_def\<close>)
  then show ?thesis
    using calls_refine [OF s(2), of cs] s(1) w(1)
    by (cases "foldM stream_call s cs") (auto simp: stream_packet_def writer_packet_def flush_refines)
next
  case False
  then show ?thesis
    by (simp add: stream_packet_def writer_packet_def NewWriteStream_def WriteStream_Reset_def NewBitWriter_def BitWriter_Reset_def)
qed

end
