(* ===== verification/Read_Stream.thy ===== *)
theory Read_Stream
  imports Stream_Params Bit_Reader
begin

text \<open>
  \<open>ReadStream\<close> (read_stream.go). An operation is given the stream and the value its destination
  pointer holds, and returns the stream, the value the destination then holds and the error.
  The result type has a panic branch because the bit reader's loads may panic in the model;
  that no operation takes it is a theorem.
\<close>

section \<open>State and operations\<close>

record 'c read_stream =
  rs_reader :: bit_reader
  rs_context :: "'c option"
  rs_err :: "go_error option"

type_synonym ('c, 'v) read_result = "('c read_stream \<times> 'v \<times> go_error option) res"

text \<open>\<open>data\<close> and \<open>slack\<close>: the slice's bytes, and the bytes of its backing array past them.\<close>

definition NewReadStream :: "u8 list \<Rightarrow> u8 list \<Rightarrow> 'c read_stream" where
  "NewReadStream data slack =
    \<lparr>rs_reader = BitReader_Reset zero_BitReader data slack, rs_context = None, rs_err = None\<rparr>"

definition ReadStream_Reset :: "'c read_stream \<Rightarrow> u8 list \<Rightarrow> u8 list \<Rightarrow> 'c read_stream" where
  "ReadStream_Reset s data slack =
    s\<lparr>rs_reader := BitReader_Reset (rs_reader s) data slack, rs_err := None\<rparr>"

definition ReadStream_IsWriting :: "'c read_stream \<Rightarrow> bool" where
  "ReadStream_IsWriting s = False"

definition ReadStream_IsReading :: "'c read_stream \<Rightarrow> bool" where
  "ReadStream_IsReading s = True"

definition ReadStream_fail :: "'c read_stream \<Rightarrow> go_error \<Rightarrow> 'c read_stream \<times> go_error option" where
  "ReadStream_fail s err =
    (let s = (if rs_err s = None then s\<lparr>rs_err := Some err\<rparr> else s) in (s, rs_err s))"

text \<open>\<open>return s.fail(reason)\<close>, with the destination left as it is.\<close>

definition refuse :: "'c read_stream \<Rightarrow> refusal \<Rightarrow> 'v \<Rightarrow> ('c, 'v) read_result" where
  "refuse s reason value = (let (s, err) = ReadStream_fail s (ErrRefusal reason) in Inr (s, value, err))"

abbreviation past_end :: "'c read_stream \<Rightarrow> nat \<Rightarrow> bool" where
  "past_end s bits \<equiv> br_numBits (rs_reader s) < br_bitsRead (rs_reader s) + bits"

definition ReadStream_readBits :: "'c read_stream \<Rightarrow> u32 \<Rightarrow> nat \<Rightarrow> ('c, u32) read_result" where
  "ReadStream_readBits s value bits =
    (if rs_err s \<noteq> None then Inr (s, value, rs_err s)
     else if past_end s bits then refuse s ErrPastEnd value
     else andThen (BitReader_readBits (rs_reader s) bits) (\<lambda>(v, r).
            Inr (s\<lparr>rs_reader := r\<rparr>, v, None)))"

definition ReadStream_SerializeBits :: "'c read_stream \<Rightarrow> u32 \<Rightarrow> int \<Rightarrow> ('c, u32) read_result" where
  "ReadStream_SerializeBits s value bits =
    (if bits < 1 \<or> 32 < bits then refuse s ErrValueOutOfRange value
     else ReadStream_readBits s value (nat bits))"

definition ReadStream_SerializeBits64 :: "'c read_stream \<Rightarrow> u64 \<Rightarrow> int \<Rightarrow> ('c, u64) read_result" where
  "ReadStream_SerializeBits64 s value bits =
    (if bits < 1 \<or> 64 < bits then refuse s ErrValueOutOfRange value
     else if rs_err s \<noteq> None then Inr (s, value, rs_err s)
     else if past_end s (nat bits) then refuse s ErrPastEnd value
     else andThen (BitReader_readBits64 (rs_reader s) (nat bits)) (\<lambda>(v, r).
            Inr (s\<lparr>rs_reader := r\<rparr>, v, None)))"

definition ReadStream_SerializeInt :: "'c read_stream \<Rightarrow> i32 \<Rightarrow> i32 \<Rightarrow> i32 \<Rightarrow> ('c, i32) read_result" where
  "ReadStream_SerializeInt s value mn mx =
    (if mx <s mn then refuse s ErrValueOutOfRange value
     else if rs_err s \<noteq> None then Inr (s, value, rs_err s)
     else let bits = BitsRequired mn mx
          in if past_end s bits then refuse s ErrPastEnd value
             else andThen (BitReader_readBits (rs_reader s) bits) (\<lambda>(unsigned, r).
                    let s = s\<lparr>rs_reader := r\<rparr>
                    in if mx - mn < unsigned then refuse s ErrValueOutOfRange value
                       else Inr (s, unsigned + mn, None)))"

definition ReadStream_SerializeInt64 :: "'c read_stream \<Rightarrow> i64 \<Rightarrow> i64 \<Rightarrow> i64 \<Rightarrow> ('c, i64) read_result" where
  "ReadStream_SerializeInt64 s value mn mx =
    (if mx <s mn then refuse s ErrValueOutOfRange value
     else if rs_err s \<noteq> None then Inr (s, value, rs_err s)
     else let bits = BitsRequired64 mn mx
          in if past_end s bits then refuse s ErrPastEnd value
             else andThen (BitReader_readBits64 (rs_reader s) bits) (\<lambda>(unsigned, r).
                    let s = s\<lparr>rs_reader := r\<rparr>
                    in if mx - mn < unsigned then refuse s ErrValueOutOfRange value
                       else Inr (s, unsigned + mn, None)))"

definition ReadStream_readGroups128 :: "'c read_stream \<Rightarrow> nat \<Rightarrow> (uint128 \<times> 'c read_stream) res" where
  "ReadStream_readGroups128 s numBits =
    (if numBits \<le> 64 then
       andThen (BitReader_readBits64 (rs_reader s) numBits) (\<lambda>(lo, r).
         Inr (Uint128 lo 0, s\<lparr>rs_reader := r\<rparr>))
     else
       andThen (BitReader_readBits64 (rs_reader s) 64) (\<lambda>(lo, r).
       andThen (BitReader_readBits64 r (numBits - 64)) (\<lambda>(hi, r).
         Inr (Uint128 lo hi, s\<lparr>rs_reader := r\<rparr>))))"

definition ReadStream_SerializeInt128 :: "'c read_stream \<Rightarrow> int128 \<Rightarrow> int128 \<Rightarrow> int128 \<Rightarrow> ('c, int128) read_result" where
  "ReadStream_SerializeInt128 s value mn mx =
    (if 0 < Int128_Cmp mn mx then refuse s ErrValueOutOfRange value
     else if rs_err s \<noteq> None then Inr (s, value, rs_err s)
     else let numBits = BitsRequired128 (Int128_Uint128 mn) (Int128_Uint128 mx)
          in if past_end s numBits then refuse s ErrPastEnd value
             else andThen (ReadStream_readGroups128 s numBits) (\<lambda>(offset, s).
                    if 0 < Uint128_Cmp offset (Uint128_Sub (Int128_Uint128 mx) (Int128_Uint128 mn))
                    then refuse s ErrValueOutOfRange value
                    else Inr (s, Uint128_Int128 (Uint128_Add offset (Int128_Uint128 mn)), None)))"

definition ReadStream_SerializeUint128 :: "'c read_stream \<Rightarrow> uint128 \<Rightarrow> ('c, uint128) read_result" where
  "ReadStream_SerializeUint128 s value =
    (if rs_err s \<noteq> None then Inr (s, value, rs_err s)
     else if past_end s 128 then refuse s ErrPastEnd value
     else andThen (BitReader_readBits64 (rs_reader s) 64) (\<lambda>(lo, r).
          andThen (BitReader_readBits64 r 64) (\<lambda>(hi, r).
            Inr (s\<lparr>rs_reader := r\<rparr>, Uint128 lo hi, None))))"

definition ReadStream_SerializeFixed64 ::
  "'c read_stream \<Rightarrow> i64 \<Rightarrow> int \<Rightarrow> int \<Rightarrow> i64 \<Rightarrow> i64 \<Rightarrow> ('c, i64) read_result" where
  "ReadStream_SerializeFixed64 s value integerBits fractionBits mn mx =
    (let (rawMin, rawRange, numBits) = fixedPointParams64 integerBits fractionBits mn mx
     in if rs_err s \<noteq> None then Inr (s, value, rs_err s)
        else if numBits < 0 then refuse s ErrValueOutOfRange value
        else if past_end s (nat numBits) then refuse s ErrPastEnd value
        else andThen (BitReader_readBits64 (rs_reader s) (nat numBits)) (\<lambda>(offset, r).
               let s = s\<lparr>rs_reader := r\<rparr>
               in if rawRange < offset then refuse s ErrValueOutOfRange value
                  else Inr (s, rawMin + offset, None)))"

definition ReadStream_SerializeFixed128 ::
  "'c read_stream \<Rightarrow> int128 \<Rightarrow> int \<Rightarrow> int \<Rightarrow> i64 \<Rightarrow> i64 \<Rightarrow> ('c, int128) read_result" where
  "ReadStream_SerializeFixed128 s value integerBits fractionBits mn mx =
    (let (rawMin, rawRange, numBits) = fixedPointParams128 integerBits fractionBits mn mx
     in if rs_err s \<noteq> None then Inr (s, value, rs_err s)
        else if numBits < 0 then refuse s ErrValueOutOfRange value
        else if past_end s (nat numBits) then refuse s ErrPastEnd value
        else andThen (ReadStream_readGroups128 s (nat numBits)) (\<lambda>(offset, s).
               if 0 < Uint128_Cmp offset rawRange then refuse s ErrValueOutOfRange value
               else Inr (s, Uint128_Int128 (Uint128_Add rawMin offset), None)))"

definition ReadStream_SerializeUint8 :: "'c read_stream \<Rightarrow> u8 \<Rightarrow> ('c, u8) read_result" where
  "ReadStream_SerializeUint8 s value =
    (if rs_err s \<noteq> None then Inr (s, value, rs_err s)
     else andThen (BitReader_tryReadBits (rs_reader s) 8) (\<lambda>(v, ok, r).
            let s = s\<lparr>rs_reader := r\<rparr>
            in if \<not> ok then refuse s ErrPastEnd value else Inr (s, ucast v, None)))"

definition ReadStream_SerializeUint16 :: "'c read_stream \<Rightarrow> u16 \<Rightarrow> ('c, u16) read_result" where
  "ReadStream_SerializeUint16 s value =
    (if rs_err s \<noteq> None then Inr (s, value, rs_err s)
     else andThen (BitReader_tryReadBits (rs_reader s) 16) (\<lambda>(v, ok, r).
            let s = s\<lparr>rs_reader := r\<rparr>
            in if \<not> ok then refuse s ErrPastEnd value else Inr (s, ucast v, None)))"

definition ReadStream_SerializeUint32 :: "'c read_stream \<Rightarrow> u32 \<Rightarrow> ('c, u32) read_result" where
  "ReadStream_SerializeUint32 s value = ReadStream_readBits s value 32"

definition ReadStream_SerializeUint64 :: "'c read_stream \<Rightarrow> u64 \<Rightarrow> ('c, u64) read_result" where
  "ReadStream_SerializeUint64 s value =
    (if rs_err s \<noteq> None then Inr (s, value, rs_err s)
     else if past_end s 64 then refuse s ErrPastEnd value
     else andThen (BitReader_readBits64 (rs_reader s) 64) (\<lambda>(v, r).
            Inr (s\<lparr>rs_reader := r\<rparr>, v, None)))"

definition ReadStream_SerializeBool :: "'c read_stream \<Rightarrow> bool \<Rightarrow> ('c, bool) read_result" where
  "ReadStream_SerializeBool s value =
    (if rs_err s \<noteq> None then Inr (s, value, rs_err s)
     else andThen (BitReader_tryReadBits (rs_reader s) 1) (\<lambda>(v, ok, r).
            let s = s\<lparr>rs_reader := r\<rparr>
            in if \<not> ok then refuse s ErrPastEnd value else Inr (s, v \<noteq> 0, None)))"

definition ReadStream_SerializeFloat32 :: "'c read_stream \<Rightarrow> u32 \<Rightarrow> ('c, u32) read_result" where
  "ReadStream_SerializeFloat32 s value =
    (if rs_err s \<noteq> None then Inr (s, value, rs_err s)
     else andThen (BitReader_tryReadBits (rs_reader s) 32) (\<lambda>(v, ok, r).
            let s = s\<lparr>rs_reader := r\<rparr>
            in if \<not> ok then refuse s ErrPastEnd value
               else if \<not> float32BitsAreFinite v then refuse s ErrNonFiniteFloat value
               else Inr (s, v, None)))"

definition ReadStream_SerializeFloat64 :: "'c read_stream \<Rightarrow> u64 \<Rightarrow> ('c, u64) read_result" where
  "ReadStream_SerializeFloat64 s value =
    (if rs_err s \<noteq> None then Inr (s, value, rs_err s)
     else if past_end s 64 then refuse s ErrPastEnd value
     else andThen (BitReader_readBits64 (rs_reader s) 64) (\<lambda>(v, r).
            let s = s\<lparr>rs_reader := r\<rparr>
            in if \<not> float64BitsAreFinite v then refuse s ErrNonFiniteFloat value
               else Inr (s, v, None)))"

definition ReadStream_readAlign :: "'c read_stream \<Rightarrow> nat \<Rightarrow> ('c read_stream \<times> go_error option) res" where
  "ReadStream_readAlign s alignBits =
    (if rs_err s \<noteq> None then Inr (s, rs_err s)
     else if past_end s alignBits then Inr (ReadStream_fail s (ErrRefusal ErrPastEnd))
     else andThen (BitReader_readBits (rs_reader s) alignBits) (\<lambda>(v, r).
            let s = s\<lparr>rs_reader := r\<rparr>
            in if v \<noteq> 0 then Inr (ReadStream_fail s (ErrRefusal ErrNonzeroPadding)) else Inr (s, None)))"

definition ReadStream_SerializeAlign :: "'c read_stream \<Rightarrow> ('c read_stream \<times> go_error option) res" where
  "ReadStream_SerializeAlign s =
    (let alignBits = nat ((- int (br_bitsRead (rs_reader s))) AND 7)
     in if alignBits = 0 then Inr (s, rs_err s) else ReadStream_readAlign s alignBits)"

text \<open>\<open>data\<close> is the caller's buffer: what it holds before, then after.\<close>

definition ReadStream_SerializeBytes :: "'c read_stream \<Rightarrow> u8 list \<Rightarrow> ('c, u8 list) read_result" where
  "ReadStream_SerializeBytes s data =
    andThen (ReadStream_SerializeAlign s) (\<lambda>(s, err).
      if err \<noteq> None then Inr (s, data, err)
      else if BitReader_BitsRemaining (rs_reader s) div 8 < int (length data) then refuse s ErrPastEnd data
      else andThen (BitReader_readSlice (rs_reader s) (length data)) (\<lambda>(src, r).
             andThen (copy_at data 0 src) (\<lambda>data. Inr (s\<lparr>rs_reader := r\<rparr>, data, None))))"

definition ReadStream_SerializeString :: "'c read_stream \<Rightarrow> u8 list \<Rightarrow> int \<Rightarrow> ('c, u8 list) read_result" where
  "ReadStream_SerializeString s value bufferSize =
    (if \<not> bufferSizeValid bufferSize then refuse s ErrValueOutOfRange value
     else if rs_err s \<noteq> None then Inr (s, value, rs_err s)
     else andThen (ReadStream_SerializeInt s 0 0 (word_of_int (bufferSize - 1))) (\<lambda>(s, len, err).
       if err \<noteq> None then Inr (s, value, err)
       else andThen (ReadStream_SerializeAlign s) (\<lambda>(s, err).
         if err \<noteq> None then Inr (s, value, err)
         else if BitReader_BitsRemaining (rs_reader s) div 8 < sint len then refuse s ErrPastEnd value
         else andThen (BitReader_readSlice (rs_reader s) (nat (sint len))) (\<lambda>(data, r).
           let s = s\<lparr>rs_reader := r\<rparr>
           in if 0 \<le> IndexByte data 0 then refuse s ErrEmbeddedNul value
              else if \<not> utf8_valid data then refuse s ErrInvalidUTF8 value
              else Inr (s, if value \<noteq> data then data else value, None)))))"

definition ReadStream_SerializeEnd :: "'c read_stream \<Rightarrow> ('c read_stream \<times> go_error option) res" where
  "ReadStream_SerializeEnd s =
    (if rs_err s \<noteq> None then Inr (s, rs_err s)
     else let remaining = int (br_numBits (rs_reader s)) - int (br_bitsRead (rs_reader s))
          in if 8 \<le> remaining then Inr (ReadStream_fail s (ErrRefusal ErrTrailingData))
             else if 0 < remaining then
               andThen (BitReader_readBits (rs_reader s) (nat remaining)) (\<lambda>(v, r).
                 let s = s\<lparr>rs_reader := r\<rparr>
                 in if v \<noteq> 0 then Inr (ReadStream_fail s (ErrRefusal ErrNonzeroPadding)) else Inr (s, None))
             else Inr (s, None))"

text \<open>
  \<open>SerializeObject\<close>: the object is the caller's serialize function, given the stream and what the object
  holds, its destinations; it is not called on a stream that has refused.
\<close>

definition ReadStream_SerializeObject ::
  "'c read_stream \<Rightarrow> ('c read_stream \<Rightarrow> 'o \<Rightarrow> ('c read_stream \<times> 'o \<times> go_error option) res) \<Rightarrow> 'o
    \<Rightarrow> ('c read_stream \<times> 'o \<times> go_error option) res" where
  "ReadStream_SerializeObject s object held =
    (if rs_err s \<noteq> None then Inr (s, held, rs_err s)
     else andThen (object s held) (\<lambda>(s, held, err).
            case err of
              Some e \<Rightarrow>
                if rs_err s \<noteq> None then Inr (s, held, rs_err s)
                else (let (s, err) = ReadStream_fail s (rejection e) in Inr (s, held, err))
            | None \<Rightarrow> Inr (s, held, rs_err s)))"

definition ReadStream_Reject :: "'c read_stream \<Rightarrow> 'c read_stream \<times> go_error option" where
  "ReadStream_Reject s = ReadStream_fail s (ErrRefusal ErrRejected)"

definition ReadStream_Fail :: "'c read_stream \<Rightarrow> refusal \<Rightarrow> 'c read_stream \<times> go_error option" where
  "ReadStream_Fail s reason = ReadStream_fail s (ErrRefusal (closedRefusal reason))"

definition intRelativeResult :: "'c read_stream \<Rightarrow> i32 \<Rightarrow> int \<Rightarrow> i32 \<Rightarrow> ('c, i32) read_result" where
  "intRelativeResult s previous reconstructed current =
    (if intRelativeMax < reconstructed \<or> reconstructed \<le> sint previous then refuse s ErrValueOutOfRange current
     else Inr (s, word_of_int reconstructed, None))"

text \<open>The loop over the buckets with the absolute tier after the last; \<open>flag\<close> is the local variable.\<close>

fun read_buckets :: "'c read_stream \<Rightarrow> bool \<Rightarrow> i32 \<Rightarrow> i32 \<Rightarrow> (u32 \<times> u32) list \<Rightarrow> ('c, i32) read_result" where
  "read_buckets s flag previous current [] =
    andThen (ReadStream_readBits s 0 32) (\<lambda>(s, v, err).
      if err \<noteq> None then Inr (s, current, err)
      else let absolute = uint v
           in if absolute \<le> intRelativeMax \<and> sint previous < absolute \<and> absolute - sint previous \<le> intRelativeBoundedMax
              then refuse s ErrNonCanonical current
              else intRelativeResult s previous absolute current)"
| "read_buckets s flag previous current ((bmin, bmax) # buckets) =
    andThen (ReadStream_SerializeBool s flag) (\<lambda>(s, flag, err).
      if err \<noteq> None then Inr (s, current, err)
      else if flag then
        andThen (ReadStream_SerializeInt s 0 bmin bmax) (\<lambda>(s, difference, err).
          if err \<noteq> None then Inr (s, current, err)
          else intRelativeResult s previous (sint previous + sint difference) current)
      else read_buckets s flag previous current buckets)"

definition ReadStream_SerializeIntRelative :: "'c read_stream \<Rightarrow> i32 \<Rightarrow> i32 \<Rightarrow> ('c, i32) read_result" where
  "ReadStream_SerializeIntRelative s previous current =
    (if previous <s word_of_int intRelativeMin then refuse s ErrValueOutOfRange current
     else if rs_err s \<noteq> None then Inr (s, current, rs_err s)
     else andThen (ReadStream_SerializeBool s False) (\<lambda>(s, flag, err).
            if err \<noteq> None then Inr (s, current, err)
            else if flag then intRelativeResult s previous (sint previous + 1) current
            else read_buckets s flag previous current intRelativeBuckets))"

definition ReadStream_AlignBits :: "'c read_stream \<Rightarrow> nat" where
  "ReadStream_AlignBits s = BitReader_AlignBits (rs_reader s)"

definition ReadStream_BitsProcessed :: "'c read_stream \<Rightarrow> nat" where
  "ReadStream_BitsProcessed s = BitReader_BitsRead (rs_reader s)"

definition ReadStream_BytesProcessed :: "'c read_stream \<Rightarrow> nat" where
  "ReadStream_BytesProcessed s = (BitReader_BitsRead (rs_reader s) + 7) div 8"

definition ReadStream_Err :: "'c read_stream \<Rightarrow> go_error option" where
  "ReadStream_Err s = rs_err s"

definition ReadStream_SetContext :: "'c read_stream \<Rightarrow> 'c option \<Rightarrow> 'c read_stream" where
  "ReadStream_SetContext s context = s\<lparr>rs_context := context\<rparr>"

definition ReadStream_Context :: "'c read_stream \<Rightarrow> 'c option" where
  "ReadStream_Context s = rs_context s"

end
