(* ===== verification/Decoders.thy ===== *)
theory Decoders
  imports Wire_Format
begin

text \<open>
  The specification of a reader: for each operation a decoder, a function of the bit position
  and the bits left that either names the refusal or gives the value and the number of bits it
  took. A decoder is right when it inverts the encoding of Wire_Format on every conforming
  value (\<open>complete\<close>) and accepts nothing else (\<open>sound\<close>), so that a value has one encoding.
\<close>

type_synonym 'v decoder = "nat \<Rightarrow> bool list \<Rightarrow> refusal + 'v \<times> nat"

section \<open>Combinators\<close>

definition dec_fail :: "refusal \<Rightarrow> 'v decoder" where
  "dec_fail r p bs = Inl r"

definition dec_return :: "'v \<Rightarrow> 'v decoder" where
  "dec_return x p bs = Inr (x, 0)"

text \<open>A field of \<open>n\<close> bits, converted or refused by \<open>f\<close>.\<close>

definition dec_field :: "nat \<Rightarrow> ('a::len word \<Rightarrow> refusal + 'v) \<Rightarrow> 'v decoder" where
  "dec_field n f p bs =
    (if length bs < n then Inl ErrPastEnd
     else case f (of_bits (take n bs)) of Inl r \<Rightarrow> Inl r | Inr x \<Rightarrow> Inr (x, n))"

definition dec_bind :: "'a decoder \<Rightarrow> ('a \<Rightarrow> 'b decoder) \<Rightarrow> 'b decoder" where
  "dec_bind d h p bs =
    (case d p bs of
       Inl r \<Rightarrow> Inl r
     | Inr (x, n) \<Rightarrow> (case h x (p + n) (drop n bs) of Inl r \<Rightarrow> Inl r | Inr (y, m) \<Rightarrow> Inr (y, n + m)))"

text \<open>Reading \<open>n\<close> whole bytes off the bits.\<close>

primrec bytes_of :: "nat \<Rightarrow> bool list \<Rightarrow> u8 list" where
  "bytes_of 0 bs = []"
| "bytes_of (Suc n) bs = of_bits (take 8 bs) # bytes_of n (drop 8 bs)"

definition dec_payload :: "nat \<Rightarrow> (u8 list \<Rightarrow> refusal + 'v) \<Rightarrow> 'v decoder" where
  "dec_payload n f p bs =
    (if length bs < 8 * n then Inl ErrPastEnd
     else case f (bytes_of n bs) of Inl r \<Rightarrow> Inl r | Inr x \<Rightarrow> Inr (x, 8 * n))"

section \<open>The decoders\<close>

definition dec_align :: "unit decoder" where
  "dec_align p bs =
    (let n = align_len p
     in if length bs < n then Inl ErrPastEnd
        else if take n bs = replicate n False then Inr ((), n) else Inl ErrNonzeroPadding)"

text \<open>The end of a message: less than a byte may be left, and it must be zero.\<close>

definition dec_end :: "unit decoder" where
  "dec_end p bs =
    (let n = length bs
     in if 8 \<le> n then Inl ErrTrailingData
        else if bs = replicate n False then Inr ((), n) else Inl ErrNonzeroPadding)"

definition dec_bits :: "int \<Rightarrow> u32 decoder" where
  "dec_bits n = (if 1 \<le> n \<and> n \<le> 32 then dec_field (nat n) Inr else dec_fail ErrValueOutOfRange)"

definition dec_bits64 :: "int \<Rightarrow> u64 decoder" where
  "dec_bits64 n = (if 1 \<le> n \<and> n \<le> 64 then dec_field (nat n) Inr else dec_fail ErrValueOutOfRange)"

definition dec_range :: "'a::len word \<Rightarrow> 'a word \<Rightarrow> 'a word decoder" where
  "dec_range mn mx =
    (if sint mn \<le> sint mx
     then dec_field (Len (mx - mn)) (\<lambda>u. if u \<le> mx - mn then Inr (u + mn) else Inl ErrValueOutOfRange)
     else dec_fail ErrValueOutOfRange)"

definition int128_of :: "128 word \<Rightarrow> int128" where
  "int128_of w = Int128 (ucast w) (ucast (drop_bit 64 w))"

definition dec_int128 :: "int128 \<Rightarrow> int128 \<Rightarrow> int128 decoder" where
  "dec_int128 mn mx =
    (if sint (i128 mn) \<le> sint (i128 mx)
     then dec_field (nat_len (unat (i128 mx - i128 mn)))
            (\<lambda>u. if u \<le> i128 mx - i128 mn then Inr (int128_of (u + i128 mn)) else Inl ErrValueOutOfRange)
     else dec_fail ErrValueOutOfRange)"

definition dec_uint128 :: "uint128 decoder" where
  "dec_uint128 = dec_field 128 (\<lambda>u :: 128 word. Inr (Int128_Uint128 (int128_of u)))"

definition dec_fixed64 :: "int \<Rightarrow> int \<Rightarrow> i64 \<Rightarrow> i64 \<Rightarrow> i64 decoder" where
  "dec_fixed64 ib fb mn mx =
    (let (rawMin, rawRange, n) = fixedPointParams64 ib fb mn mx
     in if n < 0 then dec_fail ErrValueOutOfRange
        else dec_field (nat n) (\<lambda>u. if u \<le> rawRange then Inr (rawMin + u) else Inl ErrValueOutOfRange))"

definition dec_fixed128 :: "int \<Rightarrow> int \<Rightarrow> i64 \<Rightarrow> i64 \<Rightarrow> int128 decoder" where
  "dec_fixed128 ib fb mn mx =
    (let (rawMin, rawRange, n) = fixedPointParams128 ib fb mn mx
     in if n < 0 then dec_fail ErrValueOutOfRange
        else dec_field (nat n) (\<lambda>u. if u \<le> u128 rawRange then Inr (int128_of (u128 rawMin + u)) else Inl ErrValueOutOfRange))"

definition dec_bool :: "bool decoder" where
  "dec_bool = dec_field 1 (\<lambda>u :: u32. Inr (u \<noteq> 0))"

definition dec_float32 :: "u32 decoder" where
  "dec_float32 = dec_field 32 (\<lambda>u. if float32BitsAreFinite u then Inr u else Inl ErrNonFiniteFloat)"

definition dec_float64 :: "u64 decoder" where
  "dec_float64 = dec_field 64 (\<lambda>u. if float64BitsAreFinite u then Inr u else Inl ErrNonFiniteFloat)"

definition dec_bytes :: "nat \<Rightarrow> u8 list decoder" where
  "dec_bytes n = dec_bind dec_align (\<lambda>_. dec_payload n Inr)"

definition text_check :: "u8 list \<Rightarrow> refusal + u8 list" where
  "text_check t = (if 0 \<in> set t then Inl ErrEmbeddedNul else if \<not> utf8_valid t then Inl ErrInvalidUTF8 else Inr t)"

definition dec_string :: "int \<Rightarrow> u8 list decoder" where
  "dec_string bufferSize =
    (if bufferSizeValid bufferSize
     then dec_bind (dec_range 0 (word_of_int (bufferSize - 1) :: i32)) (\<lambda>len.
          dec_bind dec_align (\<lambda>_. dec_payload (nat (sint len)) text_check))
     else dec_fail ErrValueOutOfRange)"

definition dec_relative_result :: "i32 \<Rightarrow> int \<Rightarrow> i32 decoder" where
  "dec_relative_result previous r =
    (if intRelativeMax < r \<or> r \<le> sint previous then dec_fail ErrValueOutOfRange else dec_return (word_of_int r))"

definition dec_absolute :: "i32 \<Rightarrow> i32 decoder" where
  "dec_absolute previous = dec_bind (dec_field 32 (\<lambda>u :: u32. Inr u)) (\<lambda>v.
     if uint v \<le> intRelativeMax \<and> sint previous < uint v \<and> uint v - sint previous \<le> intRelativeBoundedMax
     then dec_fail ErrNonCanonical else dec_relative_result previous (uint v))"

fun dec_buckets :: "i32 \<Rightarrow> (u32 \<times> u32) list \<Rightarrow> i32 decoder" where
  "dec_buckets previous [] = dec_absolute previous"
| "dec_buckets previous ((lo, hi) # bs) = dec_bind dec_bool (\<lambda>flag.
     if flag then dec_bind (dec_range lo hi) (\<lambda>d. dec_relative_result previous (sint previous + sint d))
     else dec_buckets previous bs)"

definition dec_int_relative :: "i32 \<Rightarrow> i32 decoder" where
  "dec_int_relative previous =
    (if sint previous < 0 then dec_fail ErrValueOutOfRange
     else dec_bind dec_bool (\<lambda>flag. if flag then dec_relative_result previous (sint previous + 1)
            else dec_buckets previous intRelativeBuckets))"

section \<open>Right decoders\<close>

definition complete :: "'v decoder \<Rightarrow> ('v \<Rightarrow> bool) \<Rightarrow> ('v \<Rightarrow> nat \<Rightarrow> bool list) \<Rightarrow> bool" where
  "complete d ok enc \<longleftrightarrow> (\<forall>v p rest. ok v \<longrightarrow> d p (enc v p @ rest) = Inr (v, length (enc v p)))"

definition sound :: "'v decoder \<Rightarrow> ('v \<Rightarrow> bool) \<Rightarrow> ('v \<Rightarrow> nat \<Rightarrow> bool list) \<Rightarrow> bool" where
  "sound d ok enc \<longleftrightarrow> (\<forall>v p bs n. d p bs = Inr (v, n) \<longrightarrow>
     ok v \<and> n = length (enc v p) \<and> n \<le> length bs \<and> take n bs = enc v p)"

lemma completeD: "complete d ok enc \<Longrightarrow> ok v \<Longrightarrow> d p (enc v p @ rest) = Inr (v, length (enc v p))"
  by (simp add: complete_def)

lemma soundD:
  assumes "sound d ok enc" and "d p bs = Inr (v, n)"
  shows "ok v" and "n = length (enc v p)" and "n \<le> length bs" and "take n bs = enc v p"
  using assms unfolding sound_def by blast+

text \<open>A field decoder is right when its conversion inverts the packing of the field.\<close>

lemma field_complete:
  fixes raw :: "'v \<Rightarrow> 'a::len word"
  assumes "\<And>v. ok v \<Longrightarrow> take_bit n (raw v) = raw v \<and> f (raw v) = Inr v"
    and "\<And>v p. ok v \<Longrightarrow> enc v p = bits_of n (raw v)"
  shows "complete (dec_field n f) ok enc"
  using assms by (simp add: complete_def dec_field_def)

lemma field_sound:
  fixes raw :: "'v \<Rightarrow> 'a::len word"
  assumes "n \<le> LENGTH('a)"
    and "\<And>w v. take_bit n w = w \<Longrightarrow> f w = Inr v \<Longrightarrow> ok v \<and> raw v = w"
    and "\<And>v p. ok v \<Longrightarrow> enc v p = bits_of n (raw v)"
  shows "sound (dec_field n f) ok enc"
  unfolding sound_def
proof (intro allI impI)
  fix v p bs k
  assume "dec_field n f p bs = Inr (v, k)"
  then have len: "n \<le> length bs" and f: "f (of_bits (take n bs)) = Inr v" and k: "k = n"
    by (auto simp: dec_field_def split: if_splits sum.splits)
  have "take_bit n (of_bits (take n bs) :: 'a word) = of_bits (take n bs)"
    by (rule take_bit_of_bits) simp
  from assms(2) [OF this f] have v: "ok v" "raw v = of_bits (take n bs)" by simp_all
  have "take n bs = bits_of n (raw v)"
    unfolding v(2) using len assms(1) bits_of_of_bits [of "take n bs", where 'a = 'a] by simp
  then show "ok v \<and> k = length (enc v p) \<and> k \<le> length bs \<and> take k bs = enc v p"
    using v(1) assms(3) k len by simp
qed

lemma fail_right: "(\<And>v. \<not> ok v) \<Longrightarrow> complete (dec_fail r) ok enc" "sound (dec_fail r) ok enc"
  by (simp_all add: complete_def sound_def dec_fail_def)

lemma bind_complete:
  assumes d: "complete d okd encd" and h: "\<And>x. okd x \<Longrightarrow> complete (h x) (\<lambda>v. ok v \<and> k v = x) (ench x)"
    and k: "\<And>v. ok v \<Longrightarrow> okd (k v)"
    and enc: "\<And>v p. ok v \<Longrightarrow> enc v p = encd (k v) p @ ench (k v) v (p + length (encd (k v) p))"
  shows "complete (dec_bind d h) ok enc"
  unfolding complete_def
proof (intro allI impI)
  fix v p rest
  assume v: "ok v"
  let ?e = "encd (k v) p"
  let ?f = "ench (k v) v (p + length ?e)"
  have "d p (?e @ ?f @ rest) = Inr (k v, length ?e)" by (rule completeD [OF d k [OF v]])
  moreover have "h (k v) (p + length ?e) (?f @ rest) = Inr (v, length ?f)"
    by (rule completeD [OF h [OF k [OF v]]]) (simp add: v)
  ultimately show "dec_bind d h p (enc v p @ rest) = Inr (v, length (enc v p))"
    by (simp add: dec_bind_def enc [OF v])
qed

lemma bind_sound:
  assumes d: "sound d okd encd" and h: "\<And>x. okd x \<Longrightarrow> sound (h x) (\<lambda>v. ok v \<and> k v = x) (ench x)"
    and enc: "\<And>v p. ok v \<Longrightarrow> enc v p = encd (k v) p @ ench (k v) v (p + length (encd (k v) p))"
  shows "sound (dec_bind d h) ok enc"
  unfolding sound_def
proof (intro allI impI)
  fix v p bs n
  assume "dec_bind d h p bs = Inr (v, n)"
  then obtain x m j where x: "d p bs = Inr (x, m)" and v: "h x (p + m) (drop m bs) = Inr (v, j)" and n: "n = m + j"
    by (auto simp: dec_bind_def split: sum.splits)
  note D = soundD [OF d x]
  note H = soundD [OF h [OF D(1)] v]
  have "take n bs = take m bs @ take j (drop m bs)" unfolding n by (rule take_add)
  then show "ok v \<and> n = length (enc v p) \<and> n \<le> length bs \<and> take n bs = enc v p"
    using D H n enc [of v p] by simp
qed

section \<open>Each decoder is right\<close>

definition encodes :: "'v decoder \<Rightarrow> ('v \<Rightarrow> bool) \<Rightarrow> ('v \<Rightarrow> nat \<Rightarrow> bool list) \<Rightarrow> bool" where
  "encodes d ok enc \<longleftrightarrow> complete d ok enc \<and> sound d ok enc"

lemma encodesD: "encodes d ok enc \<Longrightarrow> complete d ok enc" "encodes d ok enc \<Longrightarrow> sound d ok enc"
  by (simp_all add: encodes_def)

text \<open>The two halves at once, for a single field: \<open>raw\<close> is the packed form of a value.\<close>

lemma field_encodes:
  fixes raw :: "'v \<Rightarrow> 'a::len word"
  assumes "n \<le> LENGTH('a)"
    and "\<And>v. ok v \<Longrightarrow> take_bit n (raw v) = raw v \<and> f (raw v) = Inr v"
    and "\<And>w v. take_bit n w = w \<Longrightarrow> f w = Inr v \<Longrightarrow> ok v \<and> raw v = w"
    and "\<And>v p. ok v \<Longrightarrow> enc v p = bits_of n (raw v)"
  shows "encodes (dec_field n f) ok enc"
  unfolding encodes_def using assms field_complete [of ok n raw f enc] field_sound [of n f ok raw enc] by blast

lemma bind_encodes:
  assumes "encodes d okd encd" and "\<And>x. okd x \<Longrightarrow> encodes (h x) (\<lambda>v. ok v \<and> k v = x) (ench x)"
    and "\<And>v. ok v \<Longrightarrow> okd (k v)"
    and "\<And>v p. ok v \<Longrightarrow> enc v p = encd (k v) p @ ench (k v) v (p + length (encd (k v) p))"
  shows "encodes (dec_bind d h) ok enc"
  using assms bind_complete [of d okd encd h ok k ench enc] bind_sound [of d okd encd h ok k ench enc]
  unfolding encodes_def by blast

lemma fail_encodes: "(\<And>v. \<not> ok v) \<Longrightarrow> encodes (dec_fail r) ok enc"
  by (simp add: encodes_def fail_right)

lemma bits_encodes: "encodes (dec_bits n) (ok_bits n) (\<lambda>v _. bits_of (nat n) v)"
proof (cases "1 \<le> n \<and> n \<le> 32")
  case True
  then show ?thesis unfolding dec_bits_def
    by (simp, intro field_encodes [where raw = "\<lambda>v. v"]) (auto simp: ok_bits_iff)
next
  case False
  then show ?thesis unfolding dec_bits_def by (auto simp: ok_bits_iff intro!: fail_encodes)
qed

lemma bits64_encodes: "encodes (dec_bits64 n) (ok_bits64 n) (\<lambda>v _. bits_of (nat n) v)"
proof (cases "1 \<le> n \<and> n \<le> 64")
  case True
  then show ?thesis unfolding dec_bits64_def
    by (simp, intro field_encodes [where raw = "\<lambda>v. v"]) (auto simp: ok_bits64_iff)
next
  case False
  then show ?thesis unfolding dec_bits64_def by (auto simp: ok_bits64_iff intro!: fail_encodes)
qed

lemma range_encodes:
  fixes mn mx :: "'a::len word"
  shows "encodes (dec_range mn mx) (\<lambda>v. sint mn \<le> sint v \<and> sint v \<le> sint mx) (\<lambda>v _. bits_of (Len (mx - mn)) (v - mn))"
proof (cases "sint mn \<le> sint mx")
  case True
  then show ?thesis unfolding dec_range_def
    by (simp, intro field_encodes [where raw = "\<lambda>v. v - mn"])
      (auto simp: Len_le_length range_offset offset_range split: if_splits)
next
  case False
  then show ?thesis unfolding dec_range_def by (auto intro!: fail_encodes)
qed

lemma int_encodes: "encodes (dec_range mn mx) (ok_int mn mx) (\<lambda>v _. wire_int mn mx v)"
  using range_encodes [of mn mx] by (simp add: ok_int_def [abs_def] wire_int_def)

lemma int64_encodes: "encodes (dec_range mn mx) (ok_int64 mn mx) (\<lambda>v _. wire_int64 mn mx v)"
  using range_encodes [of mn mx] by (simp add: ok_int64_def [abs_def] wire_int64_def)

lemma i128_int128_of [simp]: "i128 (int128_of w) = w"
  by (rule bit_word_eqI) (auto simp: bit_i128 int128_of_def bit_ucast_iff bit_drop_bit_eq)

lemma int128_of_i128 [simp]: "int128_of (i128 v) = v"
  by (simp flip: i128_eq_iff)

lemma int128_encodes: "encodes (dec_int128 mn mx) (ok_int128 mn mx) (\<lambda>v _. wire_int128 mn mx v)"
proof (cases "sint (i128 mn) \<le> sint (i128 mx)")
  case True
  then show ?thesis unfolding dec_int128_def
    by (simp, intro field_encodes [where raw = "\<lambda>v. i128 v - i128 mn"])
      (use nat_len_le_iff [of "unat (i128 mx - i128 mn)" 128] unsigned_less [of "i128 mx - i128 mn", where 'a = nat]
        in \<open>auto simp: ok_int128_def range_offset [of "i128 mn" _ "i128 mx"] offset_range wire_int128_def
          range_offset(2) [of "i128 mn" _ "i128 mx", unfolded Len_def] split: if_splits\<close>)
next
  case False
  then show ?thesis unfolding dec_int128_def by (auto simp: ok_int128_def intro!: fail_encodes)
qed

lemma u128_cast [simp]: "i128 (Uint128_Int128 v) = u128 v" "Int128_Uint128 (int128_of (u128 v)) = v"
  by (simp_all flip: u128_eq_iff)

lemma uint128_encodes: "encodes dec_uint128 (\<lambda>_. True) (\<lambda>v _. bits_of 128 (u128 v))"
  unfolding dec_uint128_def by (intro field_encodes [where raw = u128]) auto

lemma fixed64_encodes: "encodes (dec_fixed64 ib fb mn mx) (ok_fixed64 ib fb mn mx) (\<lambda>v _. wire_fixed64 ib fb mn mx v)"
proof -
  obtain rawMin rawRange n where p: "fixedPointParams64 ib fb mn mx = (rawMin, rawRange, n)" by (metis prod_cases3)
  show ?thesis
  proof (cases "n < 0")
    case True
    then show ?thesis unfolding dec_fixed64_def p by (auto simp: ok_fixed64_def p intro!: fail_encodes)
  next
    case False
    then have n: "nat n \<le> LENGTH(64)" using fixedPointParams64_bits [OF p] by (auto simp: fixedMisuseParams_def fixedMisuseBounds_def)
    have ok: "ok_fixed64 ib fb mn mx v \<longleftrightarrow> v - rawMin \<le> rawRange" for v
      using False by (simp add: ok_fixed64_def p)
    have "encodes (dec_field (nat n) (\<lambda>u. if u \<le> rawRange then Inr (rawMin + u) else Inl ErrValueOutOfRange))
        (ok_fixed64 ib fb mn mx) (\<lambda>v _. bits_of (nat n) (v - rawMin))"
    proof (rule field_encodes [where raw = "\<lambda>v. v - rawMin"])
      fix v assume v: "ok_fixed64 ib fb mn mx v"
      then show "take_bit (nat n) (v - rawMin) = v - rawMin \<and>
          (if v - rawMin \<le> rawRange then Inr (rawMin + (v - rawMin)) else Inl ErrValueOutOfRange) = Inr v"
        using ok_fixed64_bits(4) [OF v p] by (simp add: ok)
    next
      fix w v
      assume "(if w \<le> rawRange then Inr (rawMin + w) else Inl ErrValueOutOfRange) = Inr v"
      then show "ok_fixed64 ib fb mn mx v \<and> v - rawMin = w" by (auto simp: ok split: if_splits)
    qed (use n in simp_all)
    then show ?thesis using False by (simp add: dec_fixed64_def p wire_fixed64_def)
  qed
qed

lemma fixed128_encodes:
  assumes "go_int ib" and "go_int fb"
  shows "encodes (dec_fixed128 ib fb mn mx) (ok_fixed128 ib fb mn mx) (\<lambda>v _. wire_fixed128 ib fb mn mx v)"
proof -
  obtain rawMin rawRange n where p: "fixedPointParams128 ib fb mn mx = (rawMin, rawRange, n)" by (metis prod_cases3)
  show ?thesis
  proof (cases "n < 0")
    case True
    then show ?thesis unfolding dec_fixed128_def p by (auto simp: ok_fixed128_def p intro!: fail_encodes)
  next
    case False
    then have n: "nat n \<le> LENGTH(128)" using fixed128_fits(1) [OF assms p] by simp
    have ok: "ok_fixed128 ib fb mn mx v \<longleftrightarrow> i128 v - u128 rawMin \<le> u128 rawRange" for v
      using False assms by (simp add: ok_fixed128_def p)
    have "encodes (dec_field (nat n) (\<lambda>u. if u \<le> u128 rawRange then Inr (int128_of (u128 rawMin + u)) else Inl ErrValueOutOfRange))
        (ok_fixed128 ib fb mn mx) (\<lambda>v _. bits_of (nat n) (i128 v - u128 rawMin))"
    proof (rule field_encodes [where raw = "\<lambda>v. i128 v - u128 rawMin"])
      fix v assume v: "ok_fixed128 ib fb mn mx v"
      then show "take_bit (nat n) (i128 v - u128 rawMin) = i128 v - u128 rawMin \<and>
          (if i128 v - u128 rawMin \<le> u128 rawRange then Inr (int128_of (u128 rawMin + (i128 v - u128 rawMin)))
           else Inl ErrValueOutOfRange) = Inr v"
        using ok_fixed128_bits(4) [OF v p] by (simp add: ok)
    next
      fix w v
      assume "(if w \<le> u128 rawRange then Inr (int128_of (u128 rawMin + w)) else Inl ErrValueOutOfRange) = Inr v"
      then show "ok_fixed128 ib fb mn mx v \<and> i128 v - u128 rawMin = w" by (auto simp: ok split: if_splits)
    qed (use n in simp_all)
    then show ?thesis using False by (simp add: dec_fixed128_def p wire_fixed128_def)
  qed
qed

lemma bool_encodes: "encodes dec_bool (\<lambda>_. True) (\<lambda>v _. [v])"
proof -
  have 1: "w = (if w \<noteq> 0 then 1 else 0)" if "take_bit 1 w = w" for w :: u32
  proof -
    have "w = of_bool (bit w 0)" using that by (simp add: take_bit_Suc mod_2_eq_odd bit_0)
    then show ?thesis by (cases "bit w 0") auto
  qed
  show ?thesis unfolding dec_bool_def
  proof (rule field_encodes [where raw = "\<lambda>b. if b then 1 else 0"])
    fix w :: u32 and v
    assume "take_bit 1 w = w" and "(Inr (w \<noteq> 0) :: refusal + bool) = Inr v"
    then show "True \<and> (if v then 1 else 0) = w" using 1 [of w] by simp
  qed (auto simp: bits_of_def)
qed

lemma float32_encodes: "encodes dec_float32 float32BitsAreFinite (\<lambda>v _. bits_of 32 v)"
  unfolding dec_float32_def by (intro field_encodes [where raw = "\<lambda>v. v"]) (auto split: if_splits)

lemma float64_encodes: "encodes dec_float64 float64BitsAreFinite (\<lambda>v _. bits_of 64 v)"
  unfolding dec_float64_def by (intro field_encodes [where raw = "\<lambda>v. v"]) (auto split: if_splits)

lemma uint_encodes: "n \<le> LENGTH('a) \<Longrightarrow> (\<And>w :: 'a::len word. take_bit n w = w) \<Longrightarrow> encodes (dec_field n Inr) (\<lambda>_. True) (\<lambda>v _. bits_of n (v :: 'a word))"
  by (intro field_encodes [where raw = "\<lambda>v. v"]) auto

text \<open>A narrow unsigned integer is read as a \<open>uint32\<close> and converted.\<close>

lemma narrow_encodes:
  assumes "LENGTH('a::len) \<le> 32"
  shows "encodes (dec_field LENGTH('a) (\<lambda>u :: u32. Inr (ucast u :: 'a word))) (\<lambda>_. True) (\<lambda>v _. bits_of LENGTH('a) v)"
proof (rule field_encodes [where raw = "\<lambda>v. ucast v"])
  fix v :: "'a word"
  show "take_bit LENGTH('a) (ucast v :: u32) = ucast v \<and> (Inr (ucast (ucast v :: u32)) :: refusal + 'a word) = Inr v"
    using assms by (auto intro!: bit_word_eqI simp: bit_take_bit_iff bit_ucast_iff dest: bit_imp_le_length)
next
  fix w :: u32 and v :: "'a word"
  assume "take_bit LENGTH('a) w = w" and "(Inr (ucast w) :: refusal + 'a word) = Inr v"
  then show "True \<and> ucast v = w"
    by (auto intro!: bit_word_eqI simp: bit_ucast_iff dest: bit_imp_less_width)
qed (use assms in \<open>simp_all add: bits_of_ucast\<close>)

lemma encodes_cong:
  assumes "encodes d ok enc" and "\<And>v. ok' v \<longleftrightarrow> ok v" and "\<And>v p. ok v \<Longrightarrow> enc' v p = enc v p"
  shows "encodes d ok' enc'"
  using assms unfolding encodes_def complete_def sound_def by (metis (no_types, lifting))

section \<open>Alignment, bytes and strings\<close>

lemma align_encodes: "encodes dec_align (\<lambda>_. True) (\<lambda>_ p. wire_align p)"
  by (auto simp: encodes_def complete_def sound_def dec_align_def wire_align_def Let_def split: if_splits)

lemma length_bytes_of [simp]: "length (bytes_of n bs) = n"
  by (induction n arbitrary: bs) simp_all

lemma bytes_of_bytes_bits: "length xs = n \<Longrightarrow> bytes_of n (bytes_bits xs @ t) = xs"
proof (induction n arbitrary: xs)
  case (Suc n)
  then obtain y ys where "xs = y # ys" by (cases xs) auto
  moreover have "take_bit 8 y = y" for y :: u8 by (rule bit_word_eqI) (simp add: bit_take_bit_iff)
  ultimately show ?case using Suc by simp
qed simp

lemma bytes_bits_bytes_of: "8 * n \<le> length bs \<Longrightarrow> bytes_bits (bytes_of n bs) = take (8 * n) bs"
proof (induction n arbitrary: bs)
  case (Suc n)
  have "bits_of 8 (of_bits (take 8 bs) :: u8) = take 8 bs" by (rule bits_of_of_bits) (use Suc.prems in simp_all)
  moreover have "take (8 * Suc n) bs = take 8 bs @ take (8 * n) (drop 8 bs)" by (simp add: take_add)
  ultimately show ?case using Suc by simp
qed simp

lemma payload_encodes:
  assumes "\<And>v. ok v \<Longrightarrow> length (raw v) = n \<and> f (raw v) = Inr v"
    and "\<And>w v. length w = n \<Longrightarrow> f w = Inr v \<Longrightarrow> ok v \<and> raw v = w"
  shows "encodes (dec_payload n f) ok (\<lambda>v _. bytes_bits (raw v))"
  unfolding encodes_def complete_def sound_def
proof (intro conjI allI impI)
  fix v p and rest :: "bool list"
  assume "ok v"
  then show "dec_payload n f p (bytes_bits (raw v) @ rest) = Inr (v, length (bytes_bits (raw v)))"
    using assms(1) [of v] by (simp add: dec_payload_def bytes_of_bytes_bits)
next
  fix v p bs k
  assume "dec_payload n f p bs = Inr (v, k)"
  then have r: "f (bytes_of n bs) = Inr v" "8 * n \<le> length bs" "k = 8 * n"
    by (auto simp: dec_payload_def not_less split: if_splits sum.splits)
  note v = assms(2) [OF length_bytes_of r(1)]
  show "ok v" and "k \<le> length bs" using v r by simp_all
  show "k = length (bytes_bits (raw v))" using v r by simp
  show "take k bs = bytes_bits (raw v)" using v r bytes_bits_bytes_of [OF r(2)] by simp
qed

lemma bytes_encodes: "encodes (dec_bytes n) (\<lambda>v. length v = n) wire_bytes"
  unfolding dec_bytes_def
proof (rule bind_encodes [OF align_encodes, where k = "\<lambda>_. ()" and ench = "\<lambda>_ v _. bytes_bits v"])
  fix x :: unit
  show "encodes (dec_payload n Inr) (\<lambda>v. length v = n \<and> () = x) (\<lambda>v _. bytes_bits v)"
    by (rule payload_encodes) auto
qed (simp_all add: wire_bytes_def)

lemma string_encodes: "encodes (dec_string bufferSize) (ok_string bufferSize) (\<lambda>v p. wire_string bufferSize v p)"
proof (cases "bufferSizeValid bufferSize")
  case False
  then show ?thesis unfolding dec_string_def by (auto simp: ok_string_def intro!: fail_encodes)
next
  case True
  let ?mx = "word_of_int (bufferSize - 1) :: i32"
  have mx: "sint ?mx = bufferSize - 1"
    using True unfolding bufferSizeValid_def by (simp add: signed_of_int signed_take_bit_int_eq_self del: of_int_diff)
  have len: "sint (word_of_nat (length t) :: i32) = int (length t)" if "int (length t) < bufferSize" for t :: "u8 list"
    using that True unfolding bufferSizeValid_def by (simp add: signed_of_nat signed_take_bit_int_eq_self)
  have of_len: "word_of_nat (nat (sint x)) = x" if "0 \<le> sint x" for x :: i32 using that by simp
  have "encodes (dec_bind (dec_range 0 ?mx) (\<lambda>len. dec_bind dec_align (\<lambda>_. dec_payload (nat (sint len)) text_check)))
     (ok_string bufferSize) (\<lambda>v p. wire_string bufferSize v p)"
  proof (rule bind_encodes [OF range_encodes, where k = "\<lambda>t. word_of_nat (length t)" and ench = "\<lambda>_ t p. wire_bytes t p"])
    fix x :: i32
    assume x: "sint (0 :: i32) \<le> sint x \<and> sint x \<le> sint ?mx"
    show "encodes (dec_bind dec_align (\<lambda>_. dec_payload (nat (sint x)) text_check))
        (\<lambda>v. ok_string bufferSize v \<and> word_of_nat (length v) = x) wire_bytes"
    proof (rule bind_encodes [OF align_encodes, where k = "\<lambda>_. ()" and ench = "\<lambda>_ v _. bytes_bits v"])
      fix u :: unit
      show "encodes (dec_payload (nat (sint x)) text_check) (\<lambda>v. (ok_string bufferSize v \<and> word_of_nat (length v) = x) \<and> () = u)
          (\<lambda>v _. bytes_bits v)"
        by (rule payload_encodes)
          (use x mx len of_len True in \<open>auto simp: text_check_def ok_string_def split: if_splits\<close>)
    qed (simp_all add: wire_bytes_def)
  next
    fix t assume "ok_string bufferSize t"
    then show "sint (0 :: i32) \<le> sint (word_of_nat (length t) :: i32) \<and> sint (word_of_nat (length t) :: i32) \<le> sint ?mx"
      using len [of t] mx by (simp add: ok_string_def)
  next
    fix t p
    show "wire_string bufferSize t p = bits_of (Len (?mx - 0)) (word_of_nat (length t) - 0 :: i32)
        @ wire_bytes t (p + length (bits_of (Len (?mx - 0)) (word_of_nat (length t) - 0 :: i32)))"
      unfolding wire_string_def Let_def diff_zero length_bits_of ..
  qed
  then show ?thesis using True unfolding dec_string_def by simp
qed

section \<open>int_relative\<close>

lemma result_encodes:
  "encodes (dec_relative_result previous r) (\<lambda>v. 0 \<le> sint previous \<and> sint previous < sint v \<and> sint v = r) (\<lambda>_ _. [])"
  if "0 \<le> sint previous"
proof -
  have max: "\<not> intRelativeMax < sint v" for v :: i32 using sint_less [of v] by (simp add: intRelativeMax_def)
  have "sint (word_of_int r :: i32) = r" if "sint previous < r" "r \<le> intRelativeMax"
    using that \<open>0 \<le> sint previous\<close> by (simp add: signed_of_int signed_take_bit_int_eq_self intRelativeMax_def)
  then show ?thesis
    using that
    by (auto simp: max encodes_def complete_def sound_def dec_relative_result_def dec_fail_def dec_return_def not_less not_le split: if_splits)
qed

lemma ok_relative_diff:
  assumes "ok_int_relative previous v"
  shows "uint (v - previous) = sint v - sint previous" and "1 \<le> uint (v - previous)"
  using uint_diff_sint [of previous v] assms by (simp_all add: ok_int_relative_def)

lemma absolute_encodes:
  assumes p: "0 \<le> sint previous"
  shows "encodes (dec_absolute previous) (\<lambda>v. ok_int_relative previous v \<and> word_of_int (intRelativeBoundedMax + 1) \<le> v - previous)
     (\<lambda>v _. bits_of 32 v)"
  unfolding dec_absolute_def
proof (rule bind_encodes [OF uint_encodes, where k = "\<lambda>v. v" and ench = "\<lambda>_ _ _. []"])
  fix x :: u32
  have far: "word_of_int (intRelativeBoundedMax + 1) \<le> v - previous \<longleftrightarrow> intRelativeBoundedMax < sint v - sint previous"
    if "ok_int_relative previous v" for v
    using ok_relative_diff(1) [OF that] by (simp add: word_le_def intRelativeBoundedMax_def) arith
  have xs: "sint x = uint x" if "uint x \<le> intRelativeMax"
    using that by (intro sint_small) (simp add: intRelativeMax_def)
  have vx: "sint v = uint v" if "ok_int_relative previous v" for v
    using that sint_uint_msb [of v] sint_less_0_iff [of v] by (auto simp: ok_int_relative_def)
  have max: "sint v \<le> intRelativeMax" for v :: i32 using sint_less [of v] by (simp add: intRelativeMax_def)
  show "encodes (if uint x \<le> intRelativeMax \<and> sint previous < uint x \<and> uint x - sint previous \<le> intRelativeBoundedMax
        then dec_fail ErrNonCanonical else dec_relative_result previous (uint x))
      (\<lambda>v. (ok_int_relative previous v \<and> word_of_int (intRelativeBoundedMax + 1) \<le> v - previous) \<and> v = x) (\<lambda>_ _. [])"
  proof (cases "uint x \<le> intRelativeMax \<and> sint previous < uint x \<and> uint x - sint previous \<le> intRelativeBoundedMax")
    case True
    then show ?thesis using far vx by (auto intro!: fail_encodes)
  next
    case False
    have "encodes (dec_relative_result previous (uint x)) 
      (\<lambda>v. (ok_int_relative previous v \<and> word_of_int (intRelativeBoundedMax + 1) \<le> v - previous) \<and> v = x) (\<lambda>_ _. [])"
    proof (rule encodes_cong [OF result_encodes [OF p]])
      fix v
      show "((ok_int_relative previous v \<and> word_of_int (intRelativeBoundedMax + 1) \<le> v - previous) \<and> v = x) \<longleftrightarrow>
        (0 \<le> sint previous \<and> sint previous < sint v \<and> sint v = uint x)"
      proof
        assume l: "(ok_int_relative previous v \<and> word_of_int (intRelativeBoundedMax + 1) \<le> v - previous) \<and> v = x"
        then have "sint v = uint v" using vx by blast
        then show "0 \<le> sint previous \<and> sint previous < sint v \<and> sint v = uint x" using l by (auto simp: ok_int_relative_def)
      next
        assume r: "0 \<le> sint previous \<and> sint previous < sint v \<and> sint v = uint x"
        then have ok: "ok_int_relative previous v" by (simp add: ok_int_relative_def)
        have "uint v = uint x" using vx [OF ok] r by linarith
        then have "v = x" by (rule word_uint_eqI)
        moreover have "intRelativeBoundedMax < sint v - sint previous"
          using False r max [of v] by linarith
        ultimately show "(ok_int_relative previous v \<and> word_of_int (intRelativeBoundedMax + 1) \<le> v - previous) \<and> v = x"
          using ok far [OF ok] by blast
      qed
    qed simp
    then show ?thesis unfolding if_not_P [OF False] .
  qed
qed simp_all

lemma buckets_encode:
  "0 \<le> sint previous \<Longrightarrow> buckets_from k bs \<Longrightarrow>
   encodes (dec_buckets previous bs) (\<lambda>v. ok_int_relative previous v \<and> k \<le> v - previous)
     (\<lambda>v _. wire_buckets (v - previous) v bs)"
proof (induction bs arbitrary: k)
  case Nil
  then show ?case using absolute_encodes by simp
next
  case (Cons b bs)
  obtain lo hi where b: "b = (lo, hi)" by (cases b)
  have B: "lo = k" "lo \<le> hi" "uint hi < 2 ^ 31" "buckets_from (hi + 1) bs" using Cons.prems(2) by (auto simp: b)
  have diff: "uint (v - previous) = sint v - sint previous" if "ok_int_relative previous v" for v
    using ok_relative_diff(1) [OF that] .
  have "encodes (dec_bind dec_bool (\<lambda>flag. if flag then dec_bind (dec_range lo hi) (\<lambda>d. dec_relative_result previous (sint previous + sint d))
         else dec_buckets previous bs)) (\<lambda>v. ok_int_relative previous v \<and> k \<le> v - previous)
     (\<lambda>v _. wire_buckets (v - previous) v (b # bs))"
  proof (rule bind_encodes [OF bool_encodes, where k = "\<lambda>v. v - previous \<le> hi"
        and ench = "\<lambda>f v _. if f then wire_int lo hi (v - previous) else wire_buckets (v - previous) v bs"])
    fix flag
    show "encodes (if flag then dec_bind (dec_range lo hi) (\<lambda>d. dec_relative_result previous (sint previous + sint d))
         else dec_buckets previous bs)
      (\<lambda>v. (ok_int_relative previous v \<and> k \<le> v - previous) \<and> (v - previous \<le> hi) = flag)
      (\<lambda>v _. if flag then wire_int lo hi (v - previous) else wire_buckets (v - previous) v bs)"
    proof (cases flag)
      case True
      have "encodes (dec_bind (dec_range lo hi) (\<lambda>d. dec_relative_result previous (sint previous + sint d)))
        (\<lambda>v. (ok_int_relative previous v \<and> k \<le> v - previous) \<and> v - previous \<le> hi)
        (\<lambda>v _. wire_int lo hi (v - previous))"
      proof (rule bind_encodes [OF int_encodes, where k = "\<lambda>v. v - previous" and ench = "\<lambda>_ _ _. []"])
        fix d assume d: "ok_int lo hi d"
        have small: "sint hi = uint hi" "sint lo = uint lo" using B(2,3) by (simp_all add: sint_small word_le_def)
        have sd: "sint d = uint d"
          using d small(2) sint_uint_msb [of d] sint_less_0_iff [of d] by (auto simp: ok_int_def) (smt (verit) unsigned_greater_eq)
        have dr: "lo \<le> d" "d \<le> hi" using d unfolding ok_int_def small sd by (simp_all add: word_le_def)
        show "encodes (dec_relative_result previous (sint previous + sint d))
          (\<lambda>v. ((ok_int_relative previous v \<and> k \<le> v - previous) \<and> v - previous \<le> hi) \<and> v - previous = d) (\<lambda>_ _. [])"
        proof (rule encodes_cong [OF result_encodes [OF Cons.prems(1)]])
          fix v
          show "((ok_int_relative previous v \<and> k \<le> v - previous) \<and> v - previous \<le> hi) \<and> v - previous = d \<longleftrightarrow>
            (0 \<le> sint previous \<and> sint previous < sint v \<and> sint v = sint previous + sint d)"
          proof
            assume l: "((ok_int_relative previous v \<and> k \<le> v - previous) \<and> v - previous \<le> hi) \<and> v - previous = d"
            then have "uint d = sint v - sint previous" using diff by blast
            then show "0 \<le> sint previous \<and> sint previous < sint v \<and> sint v = sint previous + sint d"
              using l sd by (simp add: ok_int_relative_def)
          next
            assume r: "0 \<le> sint previous \<and> sint previous < sint v \<and> sint v = sint previous + sint d"
            then have ok: "ok_int_relative previous v" by (simp add: ok_int_relative_def)
            have "uint (v - previous) = uint d" using diff [OF ok] r sd by linarith
            then have "v - previous = d" by (rule word_uint_eqI)
            then show "((ok_int_relative previous v \<and> k \<le> v - previous) \<and> v - previous \<le> hi) \<and> v - previous = d"
              using ok dr B(1) by simp
          qed
        qed simp
      next
        fix v assume "(ok_int_relative previous v \<and> k \<le> v - previous) \<and> v - previous \<le> hi"
        then show "ok_int lo hi (v - previous)" using bucket_ok B by blast
      qed simp
      then show ?thesis using True by simp
    next
      case False
      have step: "\<not> d \<le> hi \<and> k \<le> d \<longleftrightarrow> hi + 1 \<le> d" for d
      proof
        assume "\<not> d \<le> hi \<and> k \<le> d"
        then show "hi + 1 \<le> d" using word_Suc_le [OF B(2,3)] by blast
      next
        assume s: "hi + 1 \<le> d"
        have "uint (hi + 1) = uint hi + 1" using B(3) by (simp add: uint_word_ariths)
        then have "uint hi < uint d" using s by (simp add: word_le_def)
        then show "\<not> d \<le> hi \<and> k \<le> d" using B(1,2) by (simp add: word_le_def)
      qed
      have "encodes (dec_buckets previous bs) (\<lambda>v. (ok_int_relative previous v \<and> k \<le> v - previous) \<and> \<not> v - previous \<le> hi)
        (\<lambda>v _. wire_buckets (v - previous) v bs)"
        by (rule encodes_cong [OF Cons.IH [OF Cons.prems(1) B(4)]]) (use step in blast)+
      then show ?thesis using False by simp
    qed
  next
    fix v p
    show "wire_buckets (v - previous) v (b # bs) = [v - previous \<le> hi]
        @ (if v - previous \<le> hi then wire_int lo hi (v - previous) else wire_buckets (v - previous) v bs)"
      by (simp add: b)
  qed simp
  then show ?case by (simp add: b)
qed

lemma int_relative_encodes: "encodes (dec_int_relative previous) (ok_int_relative previous) (\<lambda>v _. wire_int_relative previous v)"
proof (cases "sint previous < 0")
  case True
  then show ?thesis unfolding dec_int_relative_def by (auto simp: ok_int_relative_def intro!: fail_encodes)
next
  case False
  then have p: "0 \<le> sint previous" by simp
  have "encodes (dec_bind dec_bool (\<lambda>flag. if flag then dec_relative_result previous (sint previous + 1)
            else dec_buckets previous intRelativeBuckets)) (ok_int_relative previous) (\<lambda>v _. wire_int_relative previous v)"
  proof (rule bind_encodes [OF bool_encodes, where k = "\<lambda>v. v - previous = 1"
        and ench = "\<lambda>f v _. if f then [] else wire_buckets (v - previous) v intRelativeBuckets"])
    fix flag
    have one: "v - previous = 1 \<longleftrightarrow> sint v = sint previous + 1" and two: "v - previous \<noteq> 1 \<longleftrightarrow> 2 \<le> v - previous"
      if "ok_int_relative previous v" for v
    proof -
      note d = ok_relative_diff [OF that]
      have "v - previous = 1 \<longleftrightarrow> uint (v - previous) = 1" using word_uint_eqI [of "v - previous" 1] by auto
      then show "v - previous = 1 \<longleftrightarrow> sint v = sint previous + 1" and "v - previous \<noteq> 1 \<longleftrightarrow> 2 \<le> v - previous"
        using d by (auto simp: word_le_def)
    qed
    show "encodes (if flag then dec_relative_result previous (sint previous + 1) else dec_buckets previous intRelativeBuckets)
      (\<lambda>v. ok_int_relative previous v \<and> (v - previous = 1) = flag)
      (\<lambda>v _. if flag then [] else wire_buckets (v - previous) v intRelativeBuckets)"
    proof (cases flag)
      case True
      have "encodes (dec_relative_result previous (sint previous + 1)) (\<lambda>v. ok_int_relative previous v \<and> v - previous = 1) (\<lambda>_ _. [])"
        by (rule encodes_cong [OF result_encodes [OF p]]) (use one in \<open>auto simp: ok_int_relative_def\<close>)
      then show ?thesis using True by simp
    next
      case False
      have "encodes (dec_buckets previous intRelativeBuckets) (\<lambda>v. ok_int_relative previous v \<and> v - previous \<noteq> 1)
        (\<lambda>v _. wire_buckets (v - previous) v intRelativeBuckets)"
        by (rule encodes_cong [OF buckets_encode [OF p buckets_from_2]]) (use two in blast)+
      then show ?thesis using False by simp
    qed
  next
    fix v q
    show "wire_int_relative previous v = [v - previous = 1] @ (if v - previous = 1 then []
        else wire_buckets (v - previous) v intRelativeBuckets)"
      by (simp add: wire_int_relative_buckets Let_def)
  qed simp
  then show ?thesis using False unfolding dec_int_relative_def by simp
qed

end
