(* ===== verification/Read_Ops.thy ===== *)
theory Read_Ops
  imports Read_Stream Decoders
begin

text \<open>
  What every operation of \<open>ReadStream\<close> reads. \<open>reads pre run dec\<close> is the contract of an operation:
  on a stream that has not refused it follows the decoder \<open>dec\<close>, either delivering the decoded
  value and moving past its bits, or latching the decoder's refusal and leaving the destination
  as it was; on a stream that has refused it does nothing. Each operation meets it with its
  decoder of Decoders, so the loads of the bit reader never panic.
\<close>

section \<open>The contract of a read operation\<close>

definition advance :: "nat \<Rightarrow> 'c read_stream \<Rightarrow> 'c read_stream" where
  "advance n s = s\<lparr>rs_reader := (rs_reader s)\<lparr>br_bitsRead := br_bitsRead (rs_reader s) + n\<rparr>\<rparr>"

definition latch :: "refusal \<Rightarrow> 'c read_stream \<Rightarrow> 'c read_stream" where
  "latch r s = s\<lparr>rs_err := Some (ErrRefusal r)\<rparr>"

abbreviation rs_pos :: "'c read_stream \<Rightarrow> nat" where
  "rs_pos s \<equiv> br_bitsRead (rs_reader s)"

abbreviation rs_rest :: "'c read_stream \<Rightarrow> bool list" where
  "rs_rest s \<equiv> br_rest (rs_reader s)"

text \<open>\<open>follows s v res d\<close>: the result of an operation on the stream \<open>s\<close> with destination \<open>v\<close> is that of the decoder.\<close>

definition follows ::
  "'c read_stream \<Rightarrow> 'v \<Rightarrow> ('c, 'v) read_result \<Rightarrow> refusal + 'v \<times> nat \<Rightarrow> bool" where
  "follows s v res d =
    (case d of
       Inr (x, n) \<Rightarrow> n \<le> length (rs_rest s) \<and> res = Inr (advance n s, x, None)
     | Inl r \<Rightarrow> in_closed_list r \<and>
         (\<exists>k \<le> length (rs_rest s). res = Inr (latch r (advance k s), v, Some (ErrRefusal r))))"

definition reads0 ::
  "(nat \<Rightarrow> 'v \<Rightarrow> bool) \<Rightarrow> ('c read_stream \<Rightarrow> 'v \<Rightarrow> ('c, 'v) read_result) \<Rightarrow> 'v decoder \<Rightarrow> bool" where
  "reads0 pre run dec \<longleftrightarrow> (\<forall>s v. br_inv (rs_reader s) \<longrightarrow> rs_err s = None \<longrightarrow> pre (rs_pos s) v \<longrightarrow>
     follows s v (run s v) (dec (rs_pos s) (rs_rest s)))"

definition terminal :: "('c read_stream \<Rightarrow> 'v \<Rightarrow> ('c, 'v) read_result) \<Rightarrow> bool" where
  "terminal run \<longleftrightarrow> (\<forall>s v. rs_err s \<noteq> None \<longrightarrow> run s v = Inr (s, v, rs_err s))"

definition reads ::
  "(nat \<Rightarrow> 'v \<Rightarrow> bool) \<Rightarrow> ('c read_stream \<Rightarrow> 'v \<Rightarrow> ('c, 'v) read_result) \<Rightarrow> 'v decoder \<Rightarrow> bool" where
  "reads pre run dec \<longleftrightarrow> terminal run \<and> reads0 pre run dec"

lemma advance_simps [simp]:
  "rs_pos (advance n s) = rs_pos s + n" "rs_rest (advance n s) = drop n (rs_rest s)"
  "br_numBits (rs_reader (advance n s)) = br_numBits (rs_reader s)"
  "rs_err (advance n s) = rs_err s" "rs_context (advance n s) = rs_context s"
  "advance 0 s = s" "advance m (advance n s) = advance (n + m) s"
  by (simp_all add: advance_def br_rest_advance add.assoc)

lemma latch_simps [simp]:
  "rs_reader (latch r s) = rs_reader s" "rs_err (latch r s) = Some (ErrRefusal r)"
  "rs_context (latch r s) = rs_context s"
  by (simp_all add: latch_def)

lemma rs_rest_length: "br_inv (rs_reader s) \<Longrightarrow> length (rs_rest s) = br_numBits (rs_reader s) - rs_pos s"
  by (rule length_br_rest)

lemma past_end_iff: "br_inv (rs_reader s) \<Longrightarrow> past_end s n \<longleftrightarrow> length (rs_rest s) < n"
  using length_br_rest [of "rs_reader s"] br_invD(5) [of "rs_reader s"] by auto

lemma br_inv_advance_stream:
  "br_inv (rs_reader s) \<Longrightarrow> n \<le> length (rs_rest s) \<Longrightarrow> br_inv (rs_reader (advance n s))"
  using br_inv_advance [of "rs_reader s" n] rs_rest_length [of s] br_invD(5) [of "rs_reader s"]
  by (simp add: advance_def)

lemma refuse_simps:
  "rs_err s = None \<Longrightarrow> refuse s r v = Inr (latch r s, v, Some (ErrRefusal r))"
  "rs_err s \<noteq> None \<Longrightarrow> refuse s r v = Inr (s, v, rs_err s)"
  by (auto simp: refuse_def ReadStream_fail_def latch_def)

section \<open>Rules for the contract\<close>

lemma reads0I:
  "(\<And>s v. br_inv (rs_reader s) \<Longrightarrow> rs_err s = None \<Longrightarrow> pre (rs_pos s) v \<Longrightarrow>
     follows s v (run s v) (dec (rs_pos s) (rs_rest s))) \<Longrightarrow> reads0 pre run dec"
  by (simp add: reads0_def)

lemma reads0D:
  "reads0 pre run dec \<Longrightarrow> br_inv (rs_reader s) \<Longrightarrow> rs_err s = None \<Longrightarrow> pre (rs_pos s) v \<Longrightarrow>
     follows s v (run s v) (dec (rs_pos s) (rs_rest s))"
  by (simp add: reads0_def)

lemma follows_refuse:
  "in_closed_list r \<Longrightarrow> k \<le> length (rs_rest s) \<Longrightarrow> rs_err s = None \<Longrightarrow> follows s v (refuse (advance k s) r v) (Inl r)"
  by (auto simp: follows_def refuse_simps)

lemma follows_refuse_here: "in_closed_list r \<Longrightarrow> rs_err s = None \<Longrightarrow> follows s v (refuse s r v) (Inl r)"
  using follows_refuse [of r 0 s v] by simp

lemma follows_value: "n \<le> length (rs_rest s) \<Longrightarrow> follows s v (Inr (advance n s, x, None)) (Inr (x, n))"
  by (simp add: follows_def)

lemma follows_here: "follows s v (Inr (s, x, None)) (Inr (x, 0))"
  by (simp add: follows_def)

lemma reads0_fail: "in_closed_list r \<Longrightarrow> reads0 pre (\<lambda>s v. refuse s r v) (dec_fail r)"
  by (rule reads0I) (simp add: dec_fail_def follows_refuse_here)

lemma reads0_return: "reads0 pre (\<lambda>s v. Inr (s, x, None)) (dec_return x)"
  by (rule reads0I) (simp add: dec_return_def follows_def)

lemma reads0_cong:
  "reads0 pre run dec \<Longrightarrow> (\<And>s v. rs_err s = None \<Longrightarrow> run' s v = run s v) \<Longrightarrow> reads0 pre run' dec"
  by (simp add: reads0_def)

lemma readsI: "terminal run \<Longrightarrow> reads0 pre run dec \<Longrightarrow> reads pre run dec"
  by (simp add: reads_def)

lemma readsD: "reads pre run dec \<Longrightarrow> terminal run" "reads pre run dec \<Longrightarrow> reads0 pre run dec"
  by (simp_all add: reads_def)

lemma follows_advance:
  assumes n: "n \<le> length (rs_rest s)" and F: "follows (advance n s) v res d"
  shows "follows s v res (case d of Inl r \<Rightarrow> Inl r | Inr (y, m) \<Rightarrow> Inr (y, n + m))"
proof (cases d)
  case (Inl r)
  then obtain k where "in_closed_list r" "k \<le> length (rs_rest s) - n"
    "res = Inr (latch r (advance (n + k) s), v, Some (ErrRefusal r))" using F by (auto simp: follows_def)
  then show ?thesis using Inl n by (auto simp: follows_def intro!: exI [of _ "n + k"])
next
  case (Inr ym)
  then show ?thesis using F n by (auto simp: follows_def split: prod.splits)
qed

text \<open>One operation after another, as the code chains them: an error of the first is returned.\<close>

lemma reads0_bind:
  fixes f :: "'c read_stream \<Rightarrow> 'a \<Rightarrow> ('c, 'a) read_result"
  assumes f: "reads0 prea f d" and a: "\<And>p. prea p init"
    and g: "\<And>x p bs n. d p bs = Inr (x, n) \<Longrightarrow> reads0 (pre' x) (g x) (h x)"
    and pre: "\<And>p v x bs n. pre p v \<Longrightarrow> d p bs = Inr (x, n) \<Longrightarrow> pre' x (p + n) v"
  shows "reads0 pre (\<lambda>s v. andThen (f s init) (\<lambda>(s, x, err). if err \<noteq> None then Inr (s, v, err) else g x s v)) (dec_bind d h)"
proof (rule reads0I)
  fix s :: "'c read_stream" and v
  assume inv: "br_inv (rs_reader s)" and none: "rs_err s = None" and p: "pre (rs_pos s) v"
  let ?run = "andThen (f s init) (\<lambda>(s, x, err). if err \<noteq> None then Inr (s, v, err) else g x s v)"
  have F: "follows s init (f s init) (d (rs_pos s) (rs_rest s))" by (rule reads0D [OF f inv none a])
  show "follows s v ?run (dec_bind d h (rs_pos s) (rs_rest s))"
  proof (cases "d (rs_pos s) (rs_rest s)")
    case (Inl r)
    then show ?thesis using F by (auto simp: follows_def dec_bind_def)
  next
    case (Inr xn)
    obtain x n where x: "d (rs_pos s) (rs_rest s) = Inr (x, n)" using Inr by (cases xn) simp
    then have n: "n \<le> length (rs_rest s)" and run: "f s init = Inr (advance n s, x, None)"
      using F by (simp_all add: follows_def)
    have "follows (advance n s) v (g x (advance n s) v) (h x (rs_pos s + n) (drop n (rs_rest s)))"
      using reads0D [OF g [OF x] br_inv_advance_stream [OF inv n], of v] pre [OF p x] none by simp
    from follows_advance [OF n this] show ?thesis using x run by (simp add: dec_bind_def)
  qed
qed

lemma terminal_bind:
  "terminal f \<Longrightarrow> terminal (\<lambda>s v. andThen (f s init) (\<lambda>(s, x, err). if err \<noteq> None then Inr (s, v, err) else g x s v))"
  by (auto simp: terminal_def)

lemma terminal_guard: "terminal (\<lambda>s v. if rs_err s \<noteq> None then Inr (s, v, rs_err s) else run s v)"
  by (simp add: terminal_def)

lemma terminal_refuse: "terminal (\<lambda>s v. refuse s r v)"
  by (simp add: terminal_def refuse_simps)

section \<open>Fields\<close>

text \<open>
  The interface of a hot path that takes \<open>n\<close> bits off the stream. Its client is the reading of a
  field: the room check, the load, then the conversion or refusal \<open>f\<close> of what was read.
\<close>

locale field_source =
  fixes get :: "'c read_stream \<Rightarrow> nat \<Rightarrow> (('w::len) word \<times> 'c read_stream) res"
    and width :: nat
  assumes get_eq: "br_inv (rs_reader s) \<Longrightarrow> n \<le> width \<Longrightarrow> n \<le> length (rs_rest s) \<Longrightarrow>
      get s n = Inr (of_bits (take n (rs_rest s)), advance n s)"
begin

lemma field:
  assumes "n \<le> width" and closed: "\<And>u r. f u = Inl r \<Longrightarrow> in_closed_list r"
    and run: "\<And>s v. rs_err s = None \<Longrightarrow> run s v =
      (if past_end s n then refuse s ErrPastEnd v
       else andThen (get s n) (\<lambda>(u, s). case f u of Inl r \<Rightarrow> refuse s r v | Inr x \<Rightarrow> Inr (s, x, None)))"
  shows "reads0 pre run (dec_field n f)"
proof (rule reads0I)
  fix s :: "'c read_stream" and v
  assume inv: "br_inv (rs_reader s)" and none: "rs_err s = None"
  show "follows s v (run s v) (dec_field n f (rs_pos s) (rs_rest s))"
  proof (cases "length (rs_rest s) < n")
    case True
    then show ?thesis
      unfolding run [OF none] past_end_iff [OF inv] by (simp add: dec_field_def follows_refuse_here none)
  next
    case False
    then have n: "n \<le> length (rs_rest s)" by simp
    show ?thesis
    proof (cases "f (of_bits (take n (rs_rest s)))")
      case (Inl r)
      then show ?thesis
        using n none closed [OF Inl] unfolding run [OF none] past_end_iff [OF inv] get_eq [OF inv assms(1) n]
        by (simp add: dec_field_def follows_refuse)
    next
      case (Inr x)
      then show ?thesis
        using n unfolding run [OF none] past_end_iff [OF inv] get_eq [OF inv assms(1) n]
        by (simp add: dec_field_def follows_def)
    qed
  qed
qed

end

lemma fits_rest: "br_inv (rs_reader s) \<Longrightarrow> n \<le> length (rs_rest s) \<Longrightarrow> rs_pos s + n \<le> br_numBits (rs_reader s)"
  using rs_rest_length [of s] br_invD(5) [of "rs_reader s"] by simp

interpretation f32: field_source
  "\<lambda>s n. andThen (BitReader_readBits (rs_reader s) n) (\<lambda>(u, r). Inr (u, s\<lparr>rs_reader := r\<rparr>))" 32
  by unfold_locales (simp add: readBits_eq fits_rest advance_def)

interpretation f64: field_source
  "\<lambda>s n. andThen (BitReader_readBits64 (rs_reader s) n) (\<lambda>(u, r). Inr (u, s\<lparr>rs_reader := r\<rparr>))" 64
  by unfold_locales (simp add: readBits64_eq fits_rest advance_def)

lemma u128_halves:
  assumes "length bs \<le> 128"
  shows "u128 (Uint128 (of_bits (take 64 bs)) (of_bits (drop 64 bs))) = of_bits bs"
  by (rule bit_word_eqI) (use assms in \<open>auto simp: bit_u128 bit_of_bits\<close>)

interpretation f128: field_source
  "\<lambda>s n. andThen (ReadStream_readGroups128 s n) (\<lambda>(x, s). Inr (u128 x, s))" 128
proof unfold_locales
  fix s :: "'c read_stream" and n :: nat
  assume inv: "br_inv (rs_reader s)" and n: "n \<le> 128" "n \<le> length (rs_rest s)"
  show "andThen (ReadStream_readGroups128 s n) (\<lambda>(x, s). Inr (u128 x, s)) = Inr (of_bits (take n (rs_rest s)), advance n s)"
  proof (cases "n \<le> 64")
    case True
    then show ?thesis
      using u128_halves [of "take n (rs_rest s)"] f64.get_eq [OF inv True n(2)] n(1)
      by (auto simp: ReadStream_readGroups128_def andThen_Inr_iff min_absorb1)
  next
    case False
    define r where "r = rs_reader (advance 64 s)"
    have inv1: "br_inv r" unfolding r_def by (rule br_inv_advance_stream [OF inv]) (use False n in simp)
    have "BitReader_readBits64 (rs_reader s) 64 = Inr (of_bits (take 64 (rs_rest s)), r)"
      using readBits64_eq [OF inv, of 64] fits_rest [OF inv, of 64] False n by (simp add: r_def advance_def)
    moreover have "BitReader_readBits64 r (n - 64) = Inr (of_bits (take (n - 64) (drop 64 (rs_rest s))), rs_reader (advance n s))"
      using readBits64_eq [OF inv1, of "n - 64"] fits_rest [OF inv n(2)] False n(1)
      by (simp add: r_def advance_def br_rest_advance)
    moreover have "u128 (Uint128 (of_bits (take 64 (rs_rest s))) (of_bits (take (n - 64) (drop 64 (rs_rest s))))) = of_bits (take n (rs_rest s))"
      using u128_halves [of "take n (rs_rest s)"] n False by (simp add: drop_take min_absorb1)
    ultimately show ?thesis using False by (simp add: ReadStream_readGroups128_def advance_def)
  qed
qed

section \<open>The operations of fixed width\<close>

lemmas run_simps = andThen_assoc case_prod_unfold Let_def

lemma terminal_iff: "(\<And>s v. rs_err s \<noteq> None \<Longrightarrow> run s v = Inr (s, v, rs_err s)) \<Longrightarrow> terminal run"
  by (simp add: terminal_def)

lemma readBits_reads: "n \<le> 32 \<Longrightarrow> reads pre (\<lambda>s v. ReadStream_readBits s v n) (dec_field n Inr)"
  by (intro readsI terminal_iff f32.field) (simp_all add: ReadStream_readBits_def run_simps)

lemma SerializeBits_reads: "reads pre (\<lambda>s v. ReadStream_SerializeBits s v n) (dec_bits n)"
proof (cases "1 \<le> n \<and> n \<le> 32")
  case True
  then have "nat n \<le> 32" by auto
  from readBits_reads [OF this] show ?thesis using True by (simp add: ReadStream_SerializeBits_def dec_bits_def)
next
  case False
  then show ?thesis
    by (auto simp: ReadStream_SerializeBits_def dec_bits_def intro!: readsI terminal_refuse reads0_fail)
qed

lemma SerializeBits64_reads: "reads pre (\<lambda>s v. ReadStream_SerializeBits64 s v n) (dec_bits64 n)"
proof (cases "1 \<le> n \<and> n \<le> 64")
  case True
  then have "nat n \<le> 64" by auto
  then have "reads pre (\<lambda>s v. ReadStream_SerializeBits64 s v n) (dec_field (nat n) Inr)"
    using True by (intro readsI terminal_iff f64.field) (auto simp: ReadStream_SerializeBits64_def run_simps)
  then show ?thesis using True by (simp add: dec_bits64_def)
next
  case False
  then show ?thesis
    by (auto simp: ReadStream_SerializeBits64_def dec_bits64_def intro!: readsI terminal_refuse reads0_fail)
qed

lemma SerializeInt_reads: "reads pre (\<lambda>s v. ReadStream_SerializeInt s v mn mx) (dec_range mn mx)"
proof (cases "sint mn \<le> sint mx")
  case True
  have "reads pre (\<lambda>s v. ReadStream_SerializeInt s v mn mx)
      (dec_field (Len (mx - mn)) (\<lambda>u. if u \<le> mx - mn then Inr (u + mn) else Inl ErrValueOutOfRange))"
    using True Len_le_length [of "mx - mn"]
    by (intro readsI terminal_iff f32.field)
      (auto simp: ReadStream_SerializeInt_def run_simps word_sless_alt BitsRequired_eq_Len not_less intro!: arg_cong2 [of _ _ _ _ andThen] ext split: if_splits)
  then show ?thesis using True by (simp add: dec_range_def)
next
  case False
  then show ?thesis
    by (auto simp: ReadStream_SerializeInt_def dec_range_def word_sless_alt intro!: readsI terminal_refuse reads0_fail)
qed

lemma SerializeInt64_reads: "reads pre (\<lambda>s v. ReadStream_SerializeInt64 s v mn mx) (dec_range mn mx)"
proof (cases "sint mn \<le> sint mx")
  case True
  have "reads pre (\<lambda>s v. ReadStream_SerializeInt64 s v mn mx)
      (dec_field (Len (mx - mn)) (\<lambda>u. if u \<le> mx - mn then Inr (u + mn) else Inl ErrValueOutOfRange))"
    using True Len_le_length [of "mx - mn"]
    by (intro readsI terminal_iff f64.field)
      (auto simp: ReadStream_SerializeInt64_def run_simps word_sless_alt BitsRequired64_eq_Len not_less intro!: arg_cong2 [of _ _ _ _ andThen] ext split: if_splits)
  then show ?thesis using True by (simp add: dec_range_def)
next
  case False
  then show ?thesis
    by (auto simp: ReadStream_SerializeInt64_def dec_range_def word_sless_alt intro!: readsI terminal_refuse reads0_fail)
qed

lemma SerializeUint8_reads: "reads pre (\<lambda>s v. ReadStream_SerializeUint8 s v) (dec_field 8 (\<lambda>u :: u32. Inr (ucast u)))"
  by (intro readsI terminal_iff f32.field)
    (auto simp: ReadStream_SerializeUint8_def BitReader_tryReadBits_def run_simps)

lemma SerializeUint16_reads: "reads pre (\<lambda>s v. ReadStream_SerializeUint16 s v) (dec_field 16 (\<lambda>u :: u32. Inr (ucast u)))"
  by (intro readsI terminal_iff f32.field)
    (auto simp: ReadStream_SerializeUint16_def BitReader_tryReadBits_def run_simps)

lemma SerializeUint32_reads: "reads pre (\<lambda>s v. ReadStream_SerializeUint32 s v) (dec_field 32 Inr)"
  unfolding ReadStream_SerializeUint32_def by (rule readBits_reads) simp

lemma SerializeUint64_reads: "reads pre (\<lambda>s v. ReadStream_SerializeUint64 s v) (dec_field 64 Inr)"
  by (intro readsI terminal_iff f64.field) (auto simp: ReadStream_SerializeUint64_def run_simps)

lemma SerializeBool_reads: "reads pre (\<lambda>s v. ReadStream_SerializeBool s v) dec_bool"
  unfolding dec_bool_def
  by (intro readsI terminal_iff f32.field) (auto simp: ReadStream_SerializeBool_def BitReader_tryReadBits_def run_simps)

lemma SerializeFloat32_reads: "reads pre (\<lambda>s v. ReadStream_SerializeFloat32 s v) dec_float32"
  unfolding dec_float32_def
  by (intro readsI terminal_iff f32.field)
    (auto simp: ReadStream_SerializeFloat32_def BitReader_tryReadBits_def run_simps intro!: arg_cong2 [of _ _ _ _ andThen] split: if_splits)

lemma SerializeFloat64_reads: "reads pre (\<lambda>s v. ReadStream_SerializeFloat64 s v) dec_float64"
  unfolding dec_float64_def
  by (intro readsI terminal_iff f64.field)
    (auto simp: ReadStream_SerializeFloat64_def run_simps intro!: arg_cong2 [of _ _ _ _ andThen] split: if_splits)

section \<open>The 128 bit and the fixed point operations\<close>

lemma int128_of_Add: "int128_of (u128 x + i128 y) = Uint128_Int128 (Uint128_Add x (Int128_Uint128 y))"
  "int128_of (u128 x + u128 z) = Uint128_Int128 (Uint128_Add x z)"
  using int128_of_i128 [of "Uint128_Int128 (Uint128_Add x (Int128_Uint128 y))"]
    int128_of_i128 [of "Uint128_Int128 (Uint128_Add x z)"] by (simp_all add: u128_Add)

lemma Uint128_Cmp_pos: "0 < Uint128_Cmp x y \<longleftrightarrow> u128 y < u128 x"
  by (auto simp: u128_Cmp simp del: u128_eq_iff)

lemma SerializeInt128_reads: "reads pre (\<lambda>s v. ReadStream_SerializeInt128 s v mn mx) (dec_int128 mn mx)"
proof (cases "sint (i128 mn) \<le> sint (i128 mx)")
  case True
  have "reads pre (\<lambda>s v. ReadStream_SerializeInt128 s v mn mx)
      (dec_field (nat_len (unat (i128 mx - i128 mn)))
            (\<lambda>u. if u \<le> i128 mx - i128 mn then Inr (int128_of (u + i128 mn)) else Inl ErrValueOutOfRange))"
    using True nat_len_128 [of "i128 mx - i128 mn"]
    by (intro readsI terminal_iff f128.field)
      (auto simp: ReadStream_SerializeInt128_def run_simps Int128_Cmp_sint BitsRequired128_nat_len Uint128_Cmp_pos u128_Sub int128_of_Add
        not_less intro!: arg_cong2 [of _ _ _ _ andThen] ext split: if_splits)
  then show ?thesis using True by (simp add: dec_int128_def)
next
  case False
  then show ?thesis
    by (auto simp: ReadStream_SerializeInt128_def dec_int128_def Int128_Cmp_sint intro!: readsI terminal_refuse reads0_fail)
qed

lemma SerializeUint128_reads: "reads pre (\<lambda>s v. ReadStream_SerializeUint128 s v) dec_uint128"
proof -
  have two: "ReadStream_readGroups128 s 128 = andThen (BitReader_readBits64 (rs_reader s) 64) (\<lambda>(lo, r).
       andThen (BitReader_readBits64 r 64) (\<lambda>(hi, r). Inr (Uint128 lo hi, s\<lparr>rs_reader := r\<rparr>)))" for s :: "'a read_stream"
    by (simp add: ReadStream_readGroups128_def)
  have run: "ReadStream_SerializeUint128 s v = (if past_end s 128 then refuse s ErrPastEnd v
      else andThen (ReadStream_readGroups128 s 128) (\<lambda>(x, s). Inr (s, x, None)))" if "rs_err s = None" for s :: "'a read_stream" and v
    using that by (simp add: ReadStream_SerializeUint128_def two run_simps)
  show ?thesis
    unfolding dec_uint128_def
    by (intro readsI terminal_iff f128.field)
      (simp add: ReadStream_SerializeUint128_def, simp_all add: run run_simps)
qed

lemma SerializeFixed64_reads: "reads pre (\<lambda>s v. ReadStream_SerializeFixed64 s v ib fb mn mx) (dec_fixed64 ib fb mn mx)"
proof -
  obtain rawMin rawRange n where p: "fixedPointParams64 ib fb mn mx = (rawMin, rawRange, n)" by (metis prod_cases3)
  show ?thesis
  proof (cases "n < 0")
    case True
    then show ?thesis
      by (auto simp: ReadStream_SerializeFixed64_def dec_fixed64_def p intro!: readsI terminal_iff reads0_cong [OF reads0_fail])
  next
    case False
    have "nat n \<le> 64" using fixedPointParams64_bits [OF p] False by (auto simp: fixedMisuseParams_def fixedMisuseBounds_def)
    then have "reads pre (\<lambda>s v. ReadStream_SerializeFixed64 s v ib fb mn mx)
        (dec_field (nat n) (\<lambda>u. if u \<le> rawRange then Inr (rawMin + u) else Inl ErrValueOutOfRange))"
      using False
      by (intro readsI terminal_iff f64.field)
        (auto simp: ReadStream_SerializeFixed64_def run_simps p not_less intro!: arg_cong2 [of _ _ _ _ andThen] ext split: if_splits)
    then show ?thesis using False by (simp add: dec_fixed64_def p)
  qed
qed

lemma SerializeFixed128_reads:
  assumes "go_int ib" and "go_int fb"
  shows "reads pre (\<lambda>s v. ReadStream_SerializeFixed128 s v ib fb mn mx) (dec_fixed128 ib fb mn mx)"
proof -
  obtain rawMin rawRange n where p: "fixedPointParams128 ib fb mn mx = (rawMin, rawRange, n)" by (metis prod_cases3)
  show ?thesis
  proof (cases "n < 0")
    case True
    then show ?thesis
      by (auto simp: ReadStream_SerializeFixed128_def dec_fixed128_def p intro!: readsI terminal_iff reads0_cong [OF reads0_fail])
  next
    case False
    have "nat n \<le> 128" using fixed128_fits(1) [OF assms p] False by simp
    then have "reads pre (\<lambda>s v. ReadStream_SerializeFixed128 s v ib fb mn mx)
        (dec_field (nat n) (\<lambda>u. if u \<le> u128 rawRange then Inr (int128_of (u128 rawMin + u)) else Inl ErrValueOutOfRange))"
      using False
      by (intro readsI terminal_iff f128.field)
        (auto simp: ReadStream_SerializeFixed128_def run_simps p Uint128_Cmp_pos int128_of_Add not_less
          intro!: arg_cong2 [of _ _ _ _ andThen] ext split: if_splits)
    then show ?thesis using False by (simp add: dec_fixed128_def p)
  qed
qed

section \<open>Alignment and whole bytes\<close>

text \<open>An operation without a destination, as one whose destination is the unit.\<close>

definition no_value :: "('c read_stream \<Rightarrow> ('c read_stream \<times> go_error option) res) \<Rightarrow> 'c read_stream \<Rightarrow> unit \<Rightarrow> ('c, unit) read_result" where
  "no_value op s u = andThen (op s) (\<lambda>(s, err). Inr (s, (), err))"

lemma align_len_and: "nat ((- int p) AND 7) = align_len p"
proof -
  have "(- int p) AND 7 = (- int p) AND mask 3" by (simp add: mask_eq_exp_minus_1)
  also have "\<dots> = (- int p) mod 8" by (simp add: take_bit_eq_mask [symmetric] take_bit_eq_mod)
  also have "\<dots> = int (align_len p)"
  proof -
    have m: "int p mod 8 = int (p mod 8)" "p mod 8 < 8" by (simp_all add: zmod_int)
    show ?thesis unfolding align_len_cases zmod_zminus1_eq_if m(1) using m(2) by (simp add: of_nat_diff)
  qed
  finally show ?thesis by simp
qed

lemma SerializeAlign_reads: "reads pre (no_value ReadStream_SerializeAlign) dec_align"
proof (rule readsI)
  show "terminal (no_value (ReadStream_SerializeAlign :: 'c read_stream \<Rightarrow> _))"
    by (auto simp: terminal_def no_value_def ReadStream_SerializeAlign_def ReadStream_readAlign_def Let_def)
  show "reads0 pre (no_value (ReadStream_SerializeAlign :: 'c read_stream \<Rightarrow> _)) dec_align"
  proof (rule reads0I)
    fix s :: "'c read_stream" and v
    assume inv: "br_inv (rs_reader s)" and none: "rs_err s = None"
    define n where "n = align_len (rs_pos s)"
    have n: "n \<le> 32" "n \<le> length (rs_rest s)" "rs_pos s + n \<le> br_numBits (rs_reader s)"
      using br_data_whole_bytes [OF inv] rs_rest_length [OF inv] unfolding n_def by (auto simp: align_len_def intro: less_imp_le [OF less_trans [OF mod_less_divisor]])
    define u :: u32 where "u = of_bits (take n (rs_rest s))"
    have u: "u = 0 \<longleftrightarrow> take n (rs_rest s) = replicate n False"
      unfolding u_def using of_bits_eq_0_iff [of "take n (rs_rest s)", where 'a = 32] n by simp
    have read: "BitReader_readBits (rs_reader s) n = Inr (u, rs_reader (advance n s))"
      using readBits_eq [OF inv n(1,3)] by (simp add: advance_def u_def)
    have upd: "s\<lparr>rs_reader := rs_reader (advance n s)\<rparr> = advance n s" by (simp add: advance_def)
    have "no_value ReadStream_SerializeAlign s v =
        (if n = 0 then Inr (s, (), None)
         else if u \<noteq> 0 then refuse (advance n s) ErrNonzeroPadding () else Inr (advance n s, (), None))"
      using n(3) none read
      by (simp add: no_value_def ReadStream_SerializeAlign_def align_len_and ReadStream_readAlign_def upd refuse_def Let_def case_prod_unfold flip: n_def)
    then show "follows s v (no_value ReadStream_SerializeAlign s v) (dec_align (rs_pos s) (rs_rest s))"
      using n u none by (auto simp: dec_align_def Let_def follows_refuse follows_value follows_here not_less simp flip: n_def)
  qed
qed

lemma SerializeEnd_reads: "reads pre (no_value ReadStream_SerializeEnd) dec_end"
proof (rule readsI)
  show "terminal (no_value (ReadStream_SerializeEnd :: 'c read_stream \<Rightarrow> _))"
    by (auto simp: terminal_def no_value_def ReadStream_SerializeEnd_def)
  show "reads0 pre (no_value (ReadStream_SerializeEnd :: 'c read_stream \<Rightarrow> _)) dec_end"
  proof (rule reads0I)
    fix s :: "'c read_stream" and v
    assume inv: "br_inv (rs_reader s)" and none: "rs_err s = None"
    define n where "n = length (rs_rest s)"
    have n: "int (br_numBits (rs_reader s)) - int (rs_pos s) = int n" "rs_pos s + n = br_numBits (rs_reader s)"
      using rs_rest_length [OF inv] br_invD(5) [OF inv] by (simp_all add: n_def)
    define u :: u32 where "u = of_bits (rs_rest s)"
    have op: "no_value ReadStream_SerializeEnd s v =
        (if 8 \<le> n then refuse s ErrTrailingData ()
         else if n = 0 then Inr (s, (), None)
         else andThen (BitReader_readBits (rs_reader s) n) (\<lambda>(u, r).
           if u \<noteq> 0 then refuse (s\<lparr>rs_reader := r\<rparr>) ErrNonzeroPadding () else Inr (s\<lparr>rs_reader := r\<rparr>, (), None)))"
      using none by (auto simp: no_value_def ReadStream_SerializeEnd_def n(1) refuse_def Let_def case_prod_unfold andThen_assoc
          intro!: arg_cong2 [of _ _ _ _ andThen])
    have u: "u = 0 \<longleftrightarrow> rs_rest s = replicate n False" if "n \<le> 8"
      unfolding u_def n_def using of_bits_eq_0_iff [of "rs_rest s", where 'a = 32] that by (simp add: n_def)
    have read: "BitReader_readBits (rs_reader s) n = Inr (u, rs_reader (advance n s))" if "n \<le> 8"
      using readBits_eq [OF inv, of n] that n(2) by (simp add: advance_def u_def n_def)
    have upd: "s\<lparr>rs_reader := rs_reader (advance n s)\<rparr> = advance n s" by (simp add: advance_def)
    show "follows s v (no_value ReadStream_SerializeEnd s v) (dec_end (rs_pos s) (rs_rest s))"
    proof (cases "8 \<le> n")
      case True
      then show ?thesis unfolding op using none by (simp add: dec_end_def follows_refuse_here flip: n_def)
    next
      case False
      have "n = 0 \<Longrightarrow> rs_rest s = []" by (simp add: n_def)
      with False show ?thesis
        unfolding op using read u none
        by (auto simp: dec_end_def upd follows_here follows_value follows_refuse simp flip: n_def)
    qed
  qed
qed

section \<open>Bytes and strings\<close>

lemma length_readSlice:
  assumes "br_inv (rs_reader s)" and "rs_pos s mod 8 = 0" and "8 * n \<le> length (rs_rest s)"
  shows "BitReader_readSlice (rs_reader s) n = Inr (bytes_of n (rs_rest s), rs_reader (advance (8 * n) s))"
proof -
  obtain bs where bs: "BitReader_readSlice (rs_reader s) n = Inr (bs, rs_reader (advance (8 * n) s))"
    "length bs = n" "bytes_bits bs = take (8 * n) (rs_rest s)"
    using readSlice_eq [OF assms(1,2), of n] fits_rest [OF assms(1,3)] by (auto simp: mult.commute advance_def)
  have "bytes_bits bs = bytes_bits (bytes_of n (rs_rest s))"
    using bs(3) assms(3) by (simp add: bytes_bits_bytes_of)
  then show ?thesis using bs(1) by (simp add: bytes_bits_inj)
qed

lemma payload_reads:
  fixes run :: "'c read_stream \<Rightarrow> 'v \<Rightarrow> ('c, 'v) read_result"
  assumes closed: "\<And>t r. f t = Inl r \<Longrightarrow> in_closed_list r"
    and pre: "\<And>p v. pre p v \<Longrightarrow> p mod 8 = 0"
    and run: "\<And>s v. rs_err s = None \<Longrightarrow> pre (rs_pos s) v \<Longrightarrow> run s v =
      (if BitReader_BitsRemaining (rs_reader s) div 8 < int n then refuse s ErrPastEnd v
       else andThen (BitReader_readSlice (rs_reader s) n) (\<lambda>(src, r).
              let s = s\<lparr>rs_reader := r\<rparr> in case f src of Inl r \<Rightarrow> refuse s r v | Inr x \<Rightarrow> Inr (s, x, None)))"
  shows "reads0 pre run (dec_payload n f)"
proof (rule reads0I)
  fix s :: "'c read_stream" and v
  assume inv: "br_inv (rs_reader s)" and none: "rs_err s = None" and p: "pre (rs_pos s) v"
  have "BitReader_BitsRemaining (rs_reader s) = int (length (rs_rest s))"
    using rs_rest_length [OF inv] br_invD(5) [OF inv] by (simp add: BitReader_BitsRemaining_def)
  then have room: "BitReader_BitsRemaining (rs_reader s) div 8 < int n \<longleftrightarrow> length (rs_rest s) < 8 * n"
    by (simp add: div_less_iff_less_mult flip: zdiv_int) linarith
  have upd: "s\<lparr>rs_reader := rs_reader (advance k s)\<rparr> = advance k s" for k by (simp add: advance_def)
  show "follows s v (run s v) (dec_payload n f (rs_pos s) (rs_rest s))"
  proof (cases "length (rs_rest s) < 8 * n")
    case True
    then show ?thesis unfolding run [OF none p] room by (simp add: dec_payload_def follows_refuse_here none)
  next
    case False
    then have n: "8 * n \<le> length (rs_rest s)" by simp
    show ?thesis
      unfolding run [OF none p] room length_readSlice [OF inv pre [OF p] n]
      using False closed none n
      by (cases "f (bytes_of n (rs_rest s))") (auto simp: dec_payload_def upd follows_refuse follows_value)
  qed
qed

lemma readSlice_length: "BitReader_readSlice r n = Inr x \<Longrightarrow> length (fst x) = n"
  by (auto simp: BitReader_readSlice_def slice_range_def Let_def split: if_splits)

lemma no_value_bind:
  "andThen (no_value op s ()) (\<lambda>(s, u, err). k s err) = andThen (op s) (\<lambda>(s, err). k s err)"
  by (cases "op s") (auto simp: no_value_def split: prod.splits)

lemma align_result: "dec_align p bs = Inr (x, n) \<Longrightarrow> (p + n) mod 8 = 0"
  by (auto simp: dec_align_def Let_def split: if_splits)

lemma SerializeBytes_reads: "reads (\<lambda>_ v. length v = n) ReadStream_SerializeBytes (dec_bytes n)"
proof (rule readsI)
  have run: "ReadStream_SerializeBytes s v =
    andThen (no_value ReadStream_SerializeAlign s ()) (\<lambda>(s, u, err). if err \<noteq> None then Inr (s, v, err) else
      (if BitReader_BitsRemaining (rs_reader s) div 8 < int (length v) then refuse s ErrPastEnd v
       else andThen (BitReader_readSlice (rs_reader s) (length v)) (\<lambda>(src, r).
             andThen (copy_at v 0 src) (\<lambda>data. Inr (s\<lparr>rs_reader := r\<rparr>, data, None)))))"
    for s :: "'c read_stream" and v
    unfolding ReadStream_SerializeBytes_def no_value_bind by (simp add: case_prod_unfold)
  show "terminal (ReadStream_SerializeBytes :: 'c read_stream \<Rightarrow> _)"
    using readsD(1) [OF SerializeAlign_reads] by (auto simp: terminal_def run)
  show "reads0 (\<lambda>_ v. length v = n) (ReadStream_SerializeBytes :: 'c read_stream \<Rightarrow> _) (dec_bytes n)"
    unfolding dec_bytes_def
  proof (rule reads0_cong [OF reads0_bind [OF readsD(2) [OF SerializeAlign_reads], where prea = "\<lambda>_ _. True" and init = "()" and pre' = "\<lambda>_ p v. p mod 8 = 0 \<and> length v = n"]])
    fix x p bs m
    show "reads0 (\<lambda>p v. p mod 8 = 0 \<and> length v = n)
      (\<lambda>s v. if BitReader_BitsRemaining (rs_reader s) div 8 < int (length v) then refuse s ErrPastEnd v
       else andThen (BitReader_readSlice (rs_reader s) (length v)) (\<lambda>(src, r).
             andThen (copy_at v 0 src) (\<lambda>data. Inr (s\<lparr>rs_reader := r\<rparr>, data, None)))) (dec_payload n Inr)"
      by (rule payload_reads)
        (auto simp: case_prod_unfold copy_at_eq dest: readSlice_length intro!: andThen_cong [OF refl])
  qed (simp_all add: align_result run)
qed

lemma text_check_closed: "text_check t = Inl r \<Longrightarrow> in_closed_list r"
  by (auto simp: text_check_def split: if_splits)

definition string_payload :: "i32 \<Rightarrow> 'c read_stream \<Rightarrow> u8 list \<Rightarrow> ('c, u8 list) read_result" where
  "string_payload len s value =
    (if BitReader_BitsRemaining (rs_reader s) div 8 < sint len then refuse s ErrPastEnd value
     else andThen (BitReader_readSlice (rs_reader s) (nat (sint len))) (\<lambda>(data, r).
       let s = s\<lparr>rs_reader := r\<rparr>
       in if 0 \<le> IndexByte data 0 then refuse s ErrEmbeddedNul value
          else if \<not> utf8_valid data then refuse s ErrInvalidUTF8 value
          else Inr (s, if value \<noteq> data then data else value, None)))"

lemma string_payload_reads:
  assumes "0 \<le> sint len"
  shows "reads0 (\<lambda>p v. p mod 8 = 0) (string_payload len) (dec_payload (nat (sint len)) text_check)"
proof (rule payload_reads)
  have nul: "0 \<le> IndexByte t 0 \<longleftrightarrow> 0 \<in> set t" for t using IndexByte_neg_iff [of t 0] by linarith
  fix s :: "'c read_stream" and v
  have len: "int (nat (sint len)) = sint len" using assms by simp
  show "string_payload len s v =
      (if BitReader_BitsRemaining (rs_reader s) div 8 < int (nat (sint len)) then refuse s ErrPastEnd v
       else andThen (BitReader_readSlice (rs_reader s) (nat (sint len))) (\<lambda>(src, r).
              let s = s\<lparr>rs_reader := r\<rparr> in case text_check src of Inl r \<Rightarrow> refuse s r v | Inr x \<Rightarrow> Inr (s, x, None)))"
    unfolding string_payload_def len nul text_check_def
    by (auto simp: case_prod_unfold Let_def intro!: andThen_cong [OF refl])
qed (simp_all add: text_check_closed)

lemma range_result: "dec_range mn mx p bs = Inr (x, n) \<Longrightarrow> sint mn \<le> sint x \<and> sint x \<le> sint mx"
  using soundD(1) [OF encodesD(2) [OF range_encodes]] by blast

lemma SerializeString_reads: "reads pre (\<lambda>s v. ReadStream_SerializeString s v bufferSize) (dec_string bufferSize)"
proof (cases "bufferSizeValid bufferSize")
  case False
  then show ?thesis
    by (auto simp: ReadStream_SerializeString_def dec_string_def intro!: readsI terminal_refuse reads0_fail)
next
  case True
  let ?mx = "word_of_int (bufferSize - 1) :: i32"
  have run: "ReadStream_SerializeString s v bufferSize =
      (if rs_err s \<noteq> None then Inr (s, v, rs_err s)
       else andThen (ReadStream_SerializeInt s 0 0 ?mx) (\<lambda>(s, len, err). if err \<noteq> None then Inr (s, v, err)
         else andThen (no_value ReadStream_SerializeAlign s ()) (\<lambda>(s, u, err). if err \<noteq> None then Inr (s, v, err)
           else string_payload len s v)))" for s :: "'c read_stream" and v
    using True unfolding ReadStream_SerializeString_def string_payload_def no_value_bind by simp
  have tail: "reads0 (\<lambda>_ _. True) (\<lambda>s v. andThen (no_value ReadStream_SerializeAlign s ()) (\<lambda>(s, u, err). if err \<noteq> None then Inr (s, v, err)
           else string_payload len s v)) (dec_bind dec_align (\<lambda>_. dec_payload (nat (sint len)) text_check))" if "0 \<le> sint len" for len
    by (rule reads0_bind [OF readsD(2) [OF SerializeAlign_reads], where pre' = "\<lambda>_ p _. p mod 8 = 0"])
      (simp_all add: align_result string_payload_reads that)
  have "reads0 pre (\<lambda>s v. ReadStream_SerializeString s v bufferSize)
      (dec_bind (dec_range 0 ?mx) (\<lambda>len. dec_bind dec_align (\<lambda>_. dec_payload (nat (sint len)) text_check)))"
    by (rule reads0_cong [OF reads0_bind [OF readsD(2) [OF SerializeInt_reads], where pre' = "\<lambda>_ _ _. True", OF _ tail]])
      (auto simp: run dest: range_result)
  then show ?thesis using True by (simp add: reads_def terminal_def run dec_string_def)
qed

section \<open>int_relative\<close>

lemma relative_result_reads:
  "reads0 pre (\<lambda>s v. intRelativeResult s previous r v) (dec_relative_result previous r)"
  by (auto simp: dec_relative_result_def intRelativeResult_def intro!: reads0_fail reads0_return)

lemma absolute_reads: "reads0 pre (\<lambda>s v. read_buckets s flag previous v []) (dec_absolute previous)"
  unfolding dec_absolute_def read_buckets.simps Let_def
  by (rule reads0_bind [OF readsD(2) [OF readBits_reads [of 32]], where pre' = "\<lambda>_ _ _. True"])
    (auto intro!: reads0_fail relative_result_reads)

lemma buckets_read: "reads0 pre (\<lambda>s v. read_buckets s flag previous v bs) (dec_buckets previous bs)"
proof (induction bs arbitrary: pre flag)
  case Nil
  then show ?case using absolute_reads by simp
next
  case (Cons b bs)
  obtain lo hi where b: "b = (lo, hi)" by (cases b)
  have bounded: "reads0 (\<lambda>_ _. True) (\<lambda>s v. andThen (ReadStream_SerializeInt s 0 lo hi) (\<lambda>(s, d, err).
      if err \<noteq> None then Inr (s, v, err) else intRelativeResult s previous (sint previous + sint d) v))
    (dec_bind (dec_range lo hi) (\<lambda>d. dec_relative_result previous (sint previous + sint d)))"
    by (rule reads0_bind [OF readsD(2) [OF SerializeInt_reads], where pre' = "\<lambda>_ _ _. True"]) (simp_all add: relative_result_reads)
  show ?case
    unfolding b dec_buckets.simps read_buckets.simps
    by (rule reads0_bind [OF readsD(2) [OF SerializeBool_reads], where pre' = "\<lambda>_ _ _. True"])
      (auto simp: bounded Cons.IH simp del: not_None_eq)
qed

lemma SerializeIntRelative_reads:
  "reads pre (\<lambda>s v. ReadStream_SerializeIntRelative s previous v) (dec_int_relative previous)"
proof (cases "sint previous < 0")
  case True
  then show ?thesis
    by (auto simp: ReadStream_SerializeIntRelative_def dec_int_relative_def intRelativeMin_def word_sless_alt
        intro!: readsI terminal_refuse reads0_fail)
next
  case False
  have run: "ReadStream_SerializeIntRelative s previous v =
     (if rs_err s \<noteq> None then Inr (s, v, rs_err s)
      else andThen (ReadStream_SerializeBool s False) (\<lambda>(s, flag, err). if err \<noteq> None then Inr (s, v, err)
        else if flag then intRelativeResult s previous (sint previous + 1) v
        else read_buckets s flag previous v intRelativeBuckets))" for s :: "'c read_stream" and v
    using False by (simp add: ReadStream_SerializeIntRelative_def intRelativeMin_def word_sless_alt)
  have "reads0 pre (\<lambda>s v. ReadStream_SerializeIntRelative s previous v)
    (dec_bind dec_bool (\<lambda>flag. if flag then dec_relative_result previous (sint previous + 1) else dec_buckets previous intRelativeBuckets))"
    by (rule reads0_cong [OF reads0_bind [OF readsD(2) [OF SerializeBool_reads], where pre' = "\<lambda>_ _ _. True" and init = False
      and g = "\<lambda>flag s v. if flag then intRelativeResult s previous (sint previous + 1) v
        else read_buckets s flag previous v intRelativeBuckets"]])
      (auto simp: run relative_result_reads intro!: buckets_read)
  then show ?thesis using False by (simp add: reads_def terminal_def run dec_int_relative_def)
qed

end
