(* ===== verification/Measure_Stream.thy ===== *)
theory Measure_Stream
  imports Write_Stream
begin

text \<open>
  \<open>MeasureStream\<close> (measure_stream.go): the record, every operation except the compressed floats,
  and what it shares with the write stream. \<open>checked ok cost run wrun\<close> is the contract of a
  measure operation against its write operation: a conforming value costs \<open>cost\<close> bits, any other
  panics on both streams with the same message.
\<close>

section \<open>State and operations\<close>

record 'c measure_stream =
  ms_bitsWritten :: nat
  ms_context :: "'c option"

definition NewMeasureStream :: "'c measure_stream" where
  "NewMeasureStream = \<lparr>ms_bitsWritten = 0, ms_context = None\<rparr>"

definition MeasureStream_Reset :: "'c measure_stream \<Rightarrow> 'c measure_stream" where
  "MeasureStream_Reset s = s\<lparr>ms_bitsWritten := 0\<rparr>"

definition MeasureStream_IsWriting :: "'c measure_stream \<Rightarrow> bool" where
  "MeasureStream_IsWriting s = True"

definition MeasureStream_IsReading :: "'c measure_stream \<Rightarrow> bool" where
  "MeasureStream_IsReading s = False"

definition MeasureStream_measure :: "'c measure_stream \<Rightarrow> nat \<Rightarrow> 'c measure_stream res" where
  "MeasureStream_measure s bits = Inr (s\<lparr>ms_bitsWritten := ms_bitsWritten s + bits\<rparr>)"

definition MeasureStream_AlignBits :: "'c measure_stream \<Rightarrow> nat" where
  "MeasureStream_AlignBits s = 7"

definition MeasureStream_SerializeBits :: "'c measure_stream \<Rightarrow> u32 \<Rightarrow> int \<Rightarrow> 'c measure_stream res" where
  "MeasureStream_SerializeBits s v bits =
    (if bits < 1 \<or> 32 < bits then Inl PanicBitsRange
     else if drop_bit (nat (32 - bits)) (NOT 0) < v then Inl PanicValueTooWide
     else MeasureStream_measure s (nat bits))"

definition MeasureStream_SerializeBits64 :: "'c measure_stream \<Rightarrow> u64 \<Rightarrow> int \<Rightarrow> 'c measure_stream res" where
  "MeasureStream_SerializeBits64 s v bits =
    (if bits < 1 \<or> 64 < bits then Inl PanicBitsRange64
     else if drop_bit (nat (64 - bits)) (NOT 0) < v then Inl PanicValueTooWide
     else MeasureStream_measure s (nat bits))"

definition MeasureStream_SerializeInt :: "'c measure_stream \<Rightarrow> i32 \<Rightarrow> i32 \<Rightarrow> i32 \<Rightarrow> 'c measure_stream res" where
  "MeasureStream_SerializeInt s v mn mx =
    (if mx <s mn then Inl PanicMinMax
     else if v <s mn \<or> mx <s v then Inl PanicValueOutOfRange
     else MeasureStream_measure s (BitsRequired mn mx))"

definition MeasureStream_SerializeInt64 :: "'c measure_stream \<Rightarrow> i64 \<Rightarrow> i64 \<Rightarrow> i64 \<Rightarrow> 'c measure_stream res" where
  "MeasureStream_SerializeInt64 s v mn mx =
    (if mx <s mn then Inl PanicMinMax
     else if v <s mn \<or> mx <s v then Inl PanicValueOutOfRange
     else MeasureStream_measure s (BitsRequired64 mn mx))"

definition MeasureStream_SerializeInt128 :: "'c measure_stream \<Rightarrow> int128 \<Rightarrow> int128 \<Rightarrow> int128 \<Rightarrow> 'c measure_stream res" where
  "MeasureStream_SerializeInt128 s v mn mx =
    (if 0 < Int128_Cmp mn mx then Inl PanicMinMax
     else if Int128_Cmp v mn < 0 \<or> 0 < Int128_Cmp v mx then Inl PanicValueOutOfRange
     else MeasureStream_measure s (BitsRequired128 (Int128_Uint128 mn) (Int128_Uint128 mx)))"

definition MeasureStream_SerializeUint128 :: "'c measure_stream \<Rightarrow> uint128 \<Rightarrow> 'c measure_stream res" where
  "MeasureStream_SerializeUint128 s v = MeasureStream_measure s 128"

definition MeasureStream_SerializeFixed64 ::
  "'c measure_stream \<Rightarrow> i64 \<Rightarrow> int \<Rightarrow> int \<Rightarrow> i64 \<Rightarrow> i64 \<Rightarrow> 'c measure_stream res" where
  "MeasureStream_SerializeFixed64 s v integerBits fractionBits mn mx =
    (let (rawMin, rawRange, numBits) = fixedPointParams64 integerBits fractionBits mn mx
     in andThen (checkFixedPointParams numBits) (\<lambda>_.
          if rawRange < v - rawMin then Inl PanicValueOutOfRange
          else MeasureStream_measure s (nat numBits)))"

definition MeasureStream_SerializeFixed128 ::
  "'c measure_stream \<Rightarrow> int128 \<Rightarrow> int \<Rightarrow> int \<Rightarrow> i64 \<Rightarrow> i64 \<Rightarrow> 'c measure_stream res" where
  "MeasureStream_SerializeFixed128 s v integerBits fractionBits mn mx =
    (let (rawMin, rawRange, numBits) = fixedPointParams128 integerBits fractionBits mn mx
     in andThen (checkFixedPointParams numBits) (\<lambda>_.
          if 0 < Uint128_Cmp (Uint128_Sub (Int128_Uint128 v) rawMin) rawRange then Inl PanicValueOutOfRange
          else MeasureStream_measure s (nat numBits)))"

definition MeasureStream_SerializeUint8 :: "'c measure_stream \<Rightarrow> u8 \<Rightarrow> 'c measure_stream res" where
  "MeasureStream_SerializeUint8 s v = MeasureStream_measure s 8"

definition MeasureStream_SerializeUint16 :: "'c measure_stream \<Rightarrow> u16 \<Rightarrow> 'c measure_stream res" where
  "MeasureStream_SerializeUint16 s v = MeasureStream_measure s 16"

definition MeasureStream_SerializeUint32 :: "'c measure_stream \<Rightarrow> u32 \<Rightarrow> 'c measure_stream res" where
  "MeasureStream_SerializeUint32 s v = MeasureStream_measure s 32"

definition MeasureStream_SerializeUint64 :: "'c measure_stream \<Rightarrow> u64 \<Rightarrow> 'c measure_stream res" where
  "MeasureStream_SerializeUint64 s v = MeasureStream_measure s 64"

definition MeasureStream_SerializeBool :: "'c measure_stream \<Rightarrow> bool \<Rightarrow> 'c measure_stream res" where
  "MeasureStream_SerializeBool s v = MeasureStream_measure s 1"

definition MeasureStream_SerializeFloat32 :: "'c measure_stream \<Rightarrow> u32 \<Rightarrow> 'c measure_stream res" where
  "MeasureStream_SerializeFloat32 s bits =
    (if \<not> float32BitsAreFinite bits then Inl PanicNonFiniteFloat else MeasureStream_measure s 32)"

definition MeasureStream_SerializeFloat64 :: "'c measure_stream \<Rightarrow> u64 \<Rightarrow> 'c measure_stream res" where
  "MeasureStream_SerializeFloat64 s bits =
    (if \<not> float64BitsAreFinite bits then Inl PanicNonFiniteFloat else MeasureStream_measure s 64)"

definition MeasureStream_SerializeBytes :: "'c measure_stream \<Rightarrow> u8 list \<Rightarrow> 'c measure_stream res" where
  "MeasureStream_SerializeBytes s data = MeasureStream_measure s (MeasureStream_AlignBits s + length data * 8)"

definition MeasureStream_SerializeString :: "'c measure_stream \<Rightarrow> u8 list \<Rightarrow> int \<Rightarrow> 'c measure_stream res" where
  "MeasureStream_SerializeString s v bufferSize =
    andThen (validateBufferSize bufferSize) (\<lambda>_.
      if bufferSize \<le> int (length v) then Inl PanicStringTooLong
      else andThen (checkStringText v) (\<lambda>_.
        let s = s\<lparr>ms_bitsWritten := ms_bitsWritten s
                  + (BitsRequired 0 (word_of_int (bufferSize - 1)) + MeasureStream_AlignBits s)\<rparr>
        in MeasureStream_measure s (length v * 8)))"

definition MeasureStream_SerializeAlign :: "'c measure_stream \<Rightarrow> 'c measure_stream res" where
  "MeasureStream_SerializeAlign s = MeasureStream_measure s (MeasureStream_AlignBits s)"

definition MeasureStream_SerializeEnd :: "'c measure_stream \<Rightarrow> 'c measure_stream res" where
  "MeasureStream_SerializeEnd s = Inr s"

definition MeasureStream_SerializeObject ::
  "'c measure_stream \<Rightarrow> ('c measure_stream \<Rightarrow> 'o \<Rightarrow> ('c measure_stream \<times> 'o \<times> go_error option) res) \<Rightarrow> 'o
    \<Rightarrow> ('c measure_stream \<times> 'o \<times> go_error option) res" where
  "MeasureStream_SerializeObject s object held = object s held"

text \<open>The loop over the buckets with the absolute tier after it, from the count so far.\<close>

fun measure_buckets :: "nat \<Rightarrow> u32 \<Rightarrow> (u32 \<times> u32) list \<Rightarrow> nat" where
  "measure_buckets bits difference [] = bits + 32"
| "measure_buckets bits difference ((bmin, bmax) # buckets) =
    (if difference \<le> bmax then bits + 1 + BitsRequired bmin bmax
     else measure_buckets (bits + 1) difference buckets)"

definition MeasureStream_SerializeIntRelative :: "'c measure_stream \<Rightarrow> i32 \<Rightarrow> i32 \<Rightarrow> 'c measure_stream res" where
  "MeasureStream_SerializeIntRelative s previous current =
    (if previous <s word_of_int intRelativeMin then Inl PanicIntRelativeDomain
     else if current \<le>s previous then Inl PanicIntRelativeOrder
     else
       let difference = current - previous
       in MeasureStream_measure s (if difference = 1 then 1 else measure_buckets 1 difference intRelativeBuckets))"

definition MeasureStream_BitsProcessed :: "'c measure_stream \<Rightarrow> nat" where
  "MeasureStream_BitsProcessed s = ms_bitsWritten s"

definition MeasureStream_BytesProcessed :: "'c measure_stream \<Rightarrow> nat" where
  "MeasureStream_BytesProcessed s = (ms_bitsWritten s + 7) div 8"

definition MeasureStream_Err :: "'c measure_stream \<Rightarrow> go_error option" where
  "MeasureStream_Err s = None"

definition MeasureStream_SetContext :: "'c measure_stream \<Rightarrow> 'c option \<Rightarrow> 'c measure_stream" where
  "MeasureStream_SetContext s context = s\<lparr>ms_context := context\<rparr>"

definition MeasureStream_Context :: "'c measure_stream \<Rightarrow> 'c option" where
  "MeasureStream_Context s = ms_context s"

section \<open>The checks are the writer's\<close>

definition checked ::
  "bool \<Rightarrow> nat \<Rightarrow> ('c measure_stream \<Rightarrow> 'c measure_stream res) \<Rightarrow> ('c write_stream \<Rightarrow> 'c write_stream res) \<Rightarrow> bool" where
  "checked ok cost run wrun \<longleftrightarrow>
    (if ok then \<forall>m. run m = Inr (m\<lparr>ms_bitsWritten := ms_bitsWritten m + cost\<rparr>)
     else \<exists>p. p \<noteq> PanicWriteOverflow \<and> (\<forall>m. run m = Inl p) \<and> (\<forall>s. wrun s = Inl p))"

text \<open>Both streams make the same check \<open>chk\<close>, which passes exactly on the conforming values.\<close>

lemma checkedI:
  assumes "\<And>m. run m = (case chk of None \<Rightarrow> MeasureStream_measure m cost | Some p \<Rightarrow> Inl p)"
    and "\<And>s p. chk = Some p \<Longrightarrow> p \<noteq> PanicWriteOverflow \<and> wrun s = Inl p"
    and "ok \<longleftrightarrow> chk = None"
  shows "checked ok cost run wrun"
  using assms by (cases chk) (auto simp: checked_def MeasureStream_measure_def)

lemma checked_free: "(\<And>m. run m = MeasureStream_measure m cost) \<Longrightarrow> checked True cost run wrun"
  by (simp add: checked_def MeasureStream_measure_def)

lemma too_wide_32: "1 \<le> n \<Longrightarrow> n \<le> 32 \<Longrightarrow> drop_bit (nat (32 - n)) (NOT 0) < (v :: u32) \<longleftrightarrow> \<not> uint v < 2 ^ nat n"
  using not_too_wide_iff [of "nat n" v] by (auto simp: take_bit_eq_self_iff_uint nat_diff_distrib' nat_le_iff)

lemma too_wide_64: "1 \<le> n \<Longrightarrow> n \<le> 64 \<Longrightarrow> drop_bit (nat (64 - n)) (NOT 0) < (v :: u64) \<longleftrightarrow> \<not> uint v < 2 ^ nat n"
  using not_too_wide_iff [of "nat n" v] by (auto simp: take_bit_eq_self_iff_uint nat_diff_distrib' nat_le_iff)

lemma SerializeBits_checked:
  "checked (ok_bits n v) (nat n) (\<lambda>m. MeasureStream_SerializeBits m v n) (\<lambda>s. WriteStream_SerializeBits s v n)"
  by (rule checkedI [where chk = "if n < 1 \<or> 32 < n then Some PanicBitsRange
      else if drop_bit (nat (32 - n)) (NOT 0) < v then Some PanicValueTooWide else None"])
    (use too_wide_32 [of n v] in \<open>auto simp: MeasureStream_SerializeBits_def WriteStream_SerializeBits_def ok_bits_def split: if_splits\<close>)

lemma SerializeBits64_checked:
  "checked (ok_bits64 n v) (nat n) (\<lambda>m. MeasureStream_SerializeBits64 m v n) (\<lambda>s. WriteStream_SerializeBits64 s v n)"
  by (rule checkedI [where chk = "if n < 1 \<or> 64 < n then Some PanicBitsRange64
      else if drop_bit (nat (64 - n)) (NOT 0) < v then Some PanicValueTooWide else None"])
    (use too_wide_64 [of n v] in \<open>auto simp: MeasureStream_SerializeBits64_def WriteStream_SerializeBits64_def ok_bits64_def split: if_splits\<close>)

lemma SerializeInt_checked:
  "checked (ok_int mn mx v) (Len (mx - mn)) (\<lambda>m. MeasureStream_SerializeInt m v mn mx) (\<lambda>s. WriteStream_SerializeInt s v mn mx)"
  by (rule checkedI [where chk = "if mx <s mn then Some PanicMinMax
      else if v <s mn \<or> mx <s v then Some PanicValueOutOfRange else None"])
    (auto simp: MeasureStream_SerializeInt_def WriteStream_SerializeInt_def ok_int_def word_sless_alt BitsRequired_eq_Len split: if_splits)

lemma SerializeInt64_checked:
  "checked (ok_int64 mn mx v) (Len (mx - mn)) (\<lambda>m. MeasureStream_SerializeInt64 m v mn mx) (\<lambda>s. WriteStream_SerializeInt64 s v mn mx)"
  by (rule checkedI [where chk = "if mx <s mn then Some PanicMinMax
      else if v <s mn \<or> mx <s v then Some PanicValueOutOfRange else None"])
    (auto simp: MeasureStream_SerializeInt64_def WriteStream_SerializeInt64_def ok_int64_def word_sless_alt BitsRequired64_eq_Len split: if_splits)

lemma SerializeInt128_checked:
  "checked (ok_int128 mn mx v) (nat_len (unat (i128 mx - i128 mn)))
     (\<lambda>m. MeasureStream_SerializeInt128 m v mn mx) (\<lambda>s. WriteStream_SerializeInt128 s v mn mx)"
  by (rule checkedI [where chk = "if 0 < Int128_Cmp mn mx then Some PanicMinMax
      else if Int128_Cmp v mn < 0 \<or> 0 < Int128_Cmp v mx then Some PanicValueOutOfRange else None"])
    (auto simp: MeasureStream_SerializeInt128_def WriteStream_SerializeInt128_def ok_int128_def Int128_Cmp_sint BitsRequired128_nat_len split: if_splits)

lemma fixed_check:
  "checkFixedPointParams n = (if n = fixedMisuseParams then Inl PanicFixedParams else if n = fixedMisuseBounds then Inl PanicFixedBounds else Inr ())"
  by (simp add: checkFixedPointParams_def)

lemma SerializeFixed64_checked:
  assumes "fixedPointParams64 ib fb mn mx = (rawMin, rawRange, n)"
  shows "checked (ok_fixed64 ib fb mn mx v) (nat n)
     (\<lambda>m. MeasureStream_SerializeFixed64 m v ib fb mn mx) (\<lambda>s. WriteStream_SerializeFixed64 s v ib fb mn mx)"
  by (rule checkedI [where chk = "if n = fixedMisuseParams then Some PanicFixedParams else if n = fixedMisuseBounds then Some PanicFixedBounds
      else if rawRange < v - rawMin then Some PanicValueOutOfRange else None"])
    (use fixedPointParams64_bits [OF assms] in \<open>auto simp: MeasureStream_SerializeFixed64_def WriteStream_SerializeFixed64_def ok_fixed64_def assms fixed_check
      fixedMisuseParams_def fixedMisuseBounds_def split: if_splits\<close>)

lemma SerializeFixed128_checked:
  assumes p: "fixedPointParams128 ib fb mn mx = (rawMin, rawRange, n)" and go: "go_int ib" "go_int fb"
  shows "checked (ok_fixed128 ib fb mn mx v) (nat n)
     (\<lambda>m. MeasureStream_SerializeFixed128 m v ib fb mn mx) (\<lambda>s. WriteStream_SerializeFixed128 s v ib fb mn mx)"
proof -
  have n: "n = fixedMisuseParams \<or> n = fixedMisuseBounds \<or> 0 \<le> n"
    using p go by (auto simp: fixedPointParams128_def Let_def split: if_splits prod.splits)
  have c: "0 < Uint128_Cmp (Uint128_Sub (Int128_Uint128 v) rawMin) rawRange \<longleftrightarrow> \<not> i128 v - u128 rawMin \<le> u128 rawRange"
    by (auto simp: u128_Cmp u128_Sub simp del: u128_eq_iff)
  show ?thesis
    by (rule checkedI [where chk = "if n = fixedMisuseParams then Some PanicFixedParams else if n = fixedMisuseBounds then Some PanicFixedBounds
      else if 0 < Uint128_Cmp (Uint128_Sub (Int128_Uint128 v) rawMin) rawRange then Some PanicValueOutOfRange else None"])
    (use n go c in \<open>auto simp: MeasureStream_SerializeFixed128_def WriteStream_SerializeFixed128_def ok_fixed128_def p fixed_check
      fixedMisuseParams_def fixedMisuseBounds_def split: if_splits\<close>)
qed

lemma SerializeFloat32_checked:
  "checked (float32BitsAreFinite v) 32 (\<lambda>m. MeasureStream_SerializeFloat32 m v) (\<lambda>s. WriteStream_SerializeFloat32 s v)"
  by (rule checkedI [where chk = "if float32BitsAreFinite v then None else Some PanicNonFiniteFloat"])
    (auto simp: MeasureStream_SerializeFloat32_def WriteStream_SerializeFloat32_def split: if_splits)

lemma SerializeFloat64_checked:
  "checked (float64BitsAreFinite v) 64 (\<lambda>m. MeasureStream_SerializeFloat64 m v) (\<lambda>s. WriteStream_SerializeFloat64 s v)"
  by (rule checkedI [where chk = "if float64BitsAreFinite v then None else Some PanicNonFiniteFloat"])
    (auto simp: MeasureStream_SerializeFloat64_def WriteStream_SerializeFloat64_def split: if_splits)

lemma SerializeString_checked:
  "checked (ok_string bufferSize t) (Len (word_of_int (bufferSize - 1) :: u32) + 7 + 8 * length t)
     (\<lambda>m. MeasureStream_SerializeString m t bufferSize) (\<lambda>s. WriteStream_SerializeString s t bufferSize)"
  by (rule checkedI [where chk = "if \<not> bufferSizeValid bufferSize then Some PanicBufferSize
      else if bufferSize \<le> int (length t) then Some PanicStringTooLong
      else case checkStringText t of Inl p \<Rightarrow> Some p | Inr _ \<Rightarrow> None"])
    (use checkStringText_ok_iff [of t] in \<open>auto simp: MeasureStream_SerializeString_def WriteStream_SerializeString_def ok_string_def
      validateBufferSize_def MeasureStream_measure_def MeasureStream_AlignBits_def BitsRequired_eq_Len checkStringText_def
      split: if_splits sum.splits\<close>)

lemma measure_buckets_cost:
  "measure_buckets bits d bs = bits + length (wire_buckets d current bs)"
proof (induction bs arbitrary: bits)
  case (Cons b bs)
  then show ?case by (cases b) (auto simp: wire_int_def BitsRequired_eq_Len)
qed simp

lemma SerializeIntRelative_checked:
  "checked (ok_int_relative previous current) (length (wire_int_relative previous current))
     (\<lambda>m. MeasureStream_SerializeIntRelative m previous current) (\<lambda>s. WriteStream_SerializeIntRelative s previous current)"
  by (rule checkedI [where chk = "if previous <s word_of_int intRelativeMin then Some PanicIntRelativeDomain
      else if current \<le>s previous then Some PanicIntRelativeOrder else None"])
    (auto simp: MeasureStream_SerializeIntRelative_def WriteStream_SerializeIntRelative_def ok_int_relative_def
      word_sless_alt word_sle_eq intRelativeMin_def wire_int_relative_buckets Let_def
      measure_buckets_cost [where current = current] split: if_splits)

end
