(* ===== verification/Compressed_Float.thy ===== *)
theory Compressed_Float
  imports Float32
begin

text \<open>
  The compressed floats of stream.go, less the streams: the derivation of the wire constants from
  a declaration, the checks on them, and the quantization the writer and the reader compute
  (write_stream.go and read_stream.go, compressedFloat32Precomputed). Then what the rounded
  arithmetic guarantees: the constants lie in their ranges, the code a writer sends never passes
  the largest, and every code decodes, in order, between \<open>min\<close> and \<open>min + delta\<close>.
\<close>

section \<open>The derivation\<close>

abbreviation f32_one :: f32 where "f32_one \<equiv> 0x3F800000"
abbreviation f32_half :: f32 where "f32_half \<equiv> 0x3F000000"

text \<open>4294967040, the largest float32 below \<open>2 ^ 32\<close>.\<close>

abbreviation f32_top :: f32 where "f32_top \<equiv> 0x4F7FFFFF"

definition compressedFloatDeclarationValid :: "f32 \<Rightarrow> f32 \<Rightarrow> f32 \<Rightarrow> bool" where
  "compressedFloatDeclarationValid mn mx resolution \<longleftrightarrow> f32_less mn mx \<and> f32_less 0 resolution"

definition checkCompressedFloatDeclarationFinite :: "f32 \<Rightarrow> f32 \<Rightarrow> f32 \<Rightarrow> unit res" where
  "checkCompressedFloatDeclarationFinite mn mx resolution =
    (let delta = f32_sub mx mn
     in if \<not> float32BitsAreFinite delta \<or> \<not> float32BitsAreFinite (f32_div delta resolution)
           \<or> \<not> float32BitsAreFinite (f32_add mn delta)
        then Inl PanicCompressedFloatDecode else Inr ())"

definition compressedFloatParams :: "f32 \<Rightarrow> f32 \<Rightarrow> f32 \<Rightarrow> u32 \<times> nat \<times> f32" where
  "compressedFloatParams mn mx resolution =
    (let delta = f32_sub mx mn;
         values = f32_div delta resolution;
         values = (if \<not> f32_le f32_one values then f32_one
                   else if f32_less f32_top values then f32_top
                   else values);
         maxIntegerValue = ceil_u32 values;
         bits = BitsRequired 0 maxIntegerValue
     in (maxIntegerValue, bits, delta))"

definition CompressedFloatParams :: "f32 \<Rightarrow> f32 \<Rightarrow> f32 \<Rightarrow> (u32 \<times> nat \<times> f32) res" where
  "CompressedFloatParams mn mx resolution =
    (if \<not> compressedFloatDeclarationValid mn mx resolution then Inl PanicFloatParams
     else Inr (compressedFloatParams mn mx resolution))"

definition compressedFloatConstantsValid :: "u32 \<Rightarrow> int \<Rightarrow> f32 \<Rightarrow> bool" where
  "compressedFloatConstantsValid maxIntegerValue bits delta \<longleftrightarrow>
    maxIntegerValue \<noteq> 0 \<and> maxIntegerValue \<le> 4294967040
    \<and> bits = int (BitsRequired 0 maxIntegerValue) \<and> f32_less 0 delta \<and> f32_eq (f32_sub delta delta) 0"

definition validateCompressedFloatConstants :: "u32 \<Rightarrow> int \<Rightarrow> f32 \<Rightarrow> unit res" where
  "validateCompressedFloatConstants maxIntegerValue bits delta =
    (if \<not> compressedFloatConstantsValid maxIntegerValue bits delta then Inl PanicPrecomputedFloat else Inr ())"

section \<open>The quantization\<close>

definition quantize_float32 :: "f32 \<Rightarrow> u32 \<Rightarrow> f32 \<Rightarrow> f32 \<Rightarrow> u32" where
  "quantize_float32 value maxIntegerValue delta mn =
    (let normalizedValue = f32_div (f32_sub value mn) delta;
         normalizedValue = (if \<not> f32_le 0 normalizedValue then 0
                            else if \<not> f32_le normalizedValue f32_one then f32_one
                            else normalizedValue);
         integerValue = floor_u32 (f32_add (f32_mul normalizedValue (f32_of_u32 maxIntegerValue)) f32_half)
     in if maxIntegerValue < integerValue then maxIntegerValue else integerValue)"

definition dequantize_float32 :: "u32 \<Rightarrow> u32 \<Rightarrow> f32 \<Rightarrow> f32 \<Rightarrow> f32" where
  "dequantize_float32 integerValue maxIntegerValue delta mn =
    (let normalizedValue = f32_div (f32_of_u32 integerValue) (f32_of_u32 maxIntegerValue)
     in f32_add (f32_mul normalizedValue delta) mn)"

section \<open>The constants\<close>

abbreviation one_unit :: int where "one_unit \<equiv> 2 ^ 149"

lemma constant_values [simp]:
  "f32_value 0 = 0" "f32_value f32_one = 2 ^ 149" "f32_value f32_half = 2 ^ 148" "f32_value f32_top = 4294967040 * 2 ^ 149"
  by (simp_all add: f32_value_def magnitude_def negative_def mag_value_def)

lemma constant_finite [simp]:
  "magnitude 0 = 0" "f32_finite f32_one" "f32_finite f32_half" "f32_finite f32_top"
  by (simp_all add: magnitude_def)

lemma floor_between:
  fixes a b c v :: int
  assumes "0 < c"
  shows "a * c \<le> v \<Longrightarrow> a \<le> v div c" "v \<le> b * c \<Longrightarrow> v div c \<le> b"
    "a * c \<le> v \<Longrightarrow> a \<le> - (- v div c)" "v \<le> b * c \<Longrightarrow> - (- v div c) \<le> b"
proof -
  note mono = zdiv_mono1 [OF _ assms]
  have cancel: "x * c div c = x" "- (x * c) div c = - x" for x
    using assms nonzero_mult_div_cancel_right [of c x] nonzero_mult_div_cancel_right [of c "- x"] by simp_all
  show "a * c \<le> v \<Longrightarrow> a \<le> v div c" using mono [of "a * c" v] by (simp add: cancel)
  show "v \<le> b * c \<Longrightarrow> v div c \<le> b" using mono [of v "b * c"] by (simp add: cancel)
  show "a * c \<le> v \<Longrightarrow> a \<le> - (- v div c)" using mono [of "- v" "- (a * c)"] by (simp add: cancel)
  show "v \<le> b * c \<Longrightarrow> - (- v div c) \<le> b" using mono [of "- (b * c)" "- v"] by (simp add: cancel)
qed

definition ok_constants :: "u32 \<Rightarrow> f32 \<Rightarrow> f32 \<Rightarrow> bool" where
  "ok_constants maxIntegerValue delta mn \<longleftrightarrow>
    1 \<le> maxIntegerValue \<and> maxIntegerValue \<le> 4294967040 \<and> 0 < f32_value delta \<and> f32_finite delta
    \<and> f32_finite mn \<and> f32_finite (f32_add mn delta)"

lemma finite_summands: "f32_finite (f32_add x y) \<Longrightarrow> f32_finite x \<and> f32_finite y"
proof -
  have nan: "\<not> f32_finite f32_nan" by (simp add: f32_nan_def magnitude_def)
  assume "f32_finite (f32_add x y)"
  then show ?thesis using nan
    by (auto simp: f32_add_def f32_is_nan_def f32_is_inf_def Let_def not_less le_less split: if_splits)
qed

text \<open>The constants derived from any declaration lie in their ranges.\<close>

lemma compressedFloatParams_ceil:
  obtains k where "compressedFloatParams mn mx resolution = (ceil_u32 k, BitsRequired 0 (ceil_u32 k), f32_sub mx mn)"
    and "2 ^ 149 \<le> f32_value k" and "f32_value k \<le> 4294967040 * 2 ^ 149"
proof -
  define w where "w = f32_div (f32_sub mx mn) resolution"
  define k where "k = (if \<not> f32_le f32_one w then f32_one else if f32_less f32_top w then f32_top else w)"
  have "f32_value k \<le> 4294967040 * 2 ^ 149"
    using constant_values(4) by (auto simp: k_def f32_le_def f32_less_def not_less simp del: constant_values)
      (simp_all add: constant_values)
  moreover have "2 ^ 149 \<le> f32_value k"
    using constant_values(2) by (auto simp: k_def f32_le_def)
  moreover have "compressedFloatParams mn mx resolution = (ceil_u32 k, BitsRequired 0 (ceil_u32 k), f32_sub mx mn)"
    by (simp add: compressedFloatParams_def Let_def k_def w_def)
  ultimately show thesis using that by blast
qed

lemma compressedFloatParams_bounds:
  assumes "compressedFloatParams mn mx resolution = (maxIntegerValue, bits, delta)"
  shows "1 \<le> maxIntegerValue" "maxIntegerValue \<le> 4294967040" "bits = BitsRequired 0 maxIntegerValue" "delta = f32_sub mx mn"
proof -
  obtain k where k: "maxIntegerValue = ceil_u32 k" "2 ^ 149 \<le> f32_value k" "f32_value k \<le> 4294967040 * 2 ^ 149"
    and eq: "bits = BitsRequired 0 maxIntegerValue" "delta = f32_sub mx mn"
    using compressedFloatParams_ceil [of mn mx resolution] assms by (metis prod.inject)
  define c where "c = - (- f32_value k div 2 ^ 149)"
  have c: "1 \<le> c" "c \<le> 4294967040" unfolding c_def using k(2,3) by (intro floor_between; simp)+
  then have "uint maxIntegerValue = c" unfolding k(1) ceil_u32_def c_def [symmetric] by (simp add: uint_word_of_int)
  with c eq show "1 \<le> maxIntegerValue" "maxIntegerValue \<le> 4294967040" "bits = BitsRequired 0 maxIntegerValue" "delta = f32_sub mx mn"
    by (simp_all add: word_le_def)
qed

lemma BitsRequired_compressed:
  assumes "1 \<le> maxIntegerValue"
  shows "1 \<le> BitsRequired 0 maxIntegerValue" "BitsRequired 0 maxIntegerValue \<le> 32" "BitsRequired 0 maxIntegerValue = Len maxIntegerValue"
proof -
  have "maxIntegerValue \<noteq> 0" using assms by auto
  then show "BitsRequired 0 maxIntegerValue = Len maxIntegerValue" by (simp add: BitsRequired_def)
  then show "1 \<le> BitsRequired 0 maxIntegerValue" "BitsRequired 0 maxIntegerValue \<le> 32"
    using Len_eq_0_iff [of maxIntegerValue] Len_le_length [of maxIntegerValue] \<open>maxIntegerValue \<noteq> 0\<close> by (auto simp: Suc_le_eq)
qed

section \<open>Decoding\<close>

text \<open>Rounding, with a fixed scale, brackets: a value under a float rounds under it.\<close>

lemma round_value_le: "0 < d \<Longrightarrow> \<not> f32_is_nan x \<Longrightarrow> v \<le> f32_value x * int d \<Longrightarrow> round_value v d \<le> f32_value x"
  using round_value_mono [of d v "f32_value x * int d"] round_value_exact [of d x] by simp

lemma le_round_value: "0 < d \<Longrightarrow> \<not> f32_is_nan x \<Longrightarrow> f32_value x * int d \<le> v \<Longrightarrow> f32_value x \<le> round_value v d"
  using round_value_mono [of d "f32_value x * int d" v] round_value_exact [of d x] by simp

lemma f32_of_u32_mono: "i \<le> j \<Longrightarrow> f32_value (f32_of_u32 i) \<le> f32_value (f32_of_u32 j)"
  unfolding f32_of_u32_value by (intro round_value_mono) (simp_all add: word_le_def)

lemma f32_of_u32_pos: "1 \<le> i \<Longrightarrow> 2 ^ 149 \<le> f32_value (f32_of_u32 i)"
  using le_round_value [of 1 f32_one "uint i * 2 ^ 149"] unfolding f32_of_u32_value by (simp add: word_le_def)

text \<open>The three values of a decode: the fraction in [0,1], the product in [0,delta], the sum.\<close>

lemma fraction_bounds:
  assumes "1 \<le> maxIntegerValue" "i \<le> maxIntegerValue"
  defines "fraction \<equiv> \<lambda>i. f32_div (f32_of_u32 i) (f32_of_u32 maxIntegerValue)"
  shows "0 \<le> f32_value (fraction i)" "f32_value (fraction i) \<le> 2 ^ 149" "f32_finite (fraction i)"
    "j \<le> i \<Longrightarrow> f32_value (fraction j) \<le> f32_value (fraction i)"
    "f32_value (fraction 0) = 0" "f32_value (fraction maxIntegerValue) = 2 ^ 149"
proof -
  define m where "m = f32_value (f32_of_u32 maxIntegerValue)"
  have m: "0 < m" "0 < nat m" "int (nat m) = m" using f32_of_u32_pos [OF assms(1)] by (simp_all add: m_def)
  have V: "f32_value (fraction k) = round_value (f32_value (f32_of_u32 k) * 2 ^ 149) (nat m)"
    and nan: "\<not> f32_is_nan (fraction k)" for k
    using f32_div_value [OF f32_of_u32_value(2) f32_of_u32_value(2)] m(1) by (simp_all add: m_def fraction_def)
  have zero: "f32_value (f32_of_u32 0) = 0" unfolding f32_of_u32_value by simp
  show 0: "f32_value (fraction 0) = 0" unfolding V zero using m by simp
  show mono: "f32_value (fraction j) \<le> f32_value (fraction i)" if "j \<le> i" for i j
    unfolding V using m f32_of_u32_mono [OF that] by (intro round_value_mono) simp_all
  show 1: "f32_value (fraction maxIntegerValue) = 2 ^ 149"
    unfolding V m_def [symmetric] using round_value_exact [of "nat m" f32_one] m by (simp add: mult.commute)
  show "0 \<le> f32_value (fraction i)" using mono [of 0 i] 0 by simp
  show "f32_value (fraction i) \<le> 2 ^ 149" using mono [OF assms(2)] 1 by simp
  with \<open>0 \<le> f32_value (fraction i)\<close> show "f32_finite (fraction i)"
    using f32_finite_between [of 0 f32_one "fraction i"] by simp
qed

lemma product_bounds:
  assumes "0 < f32_value delta" "f32_finite delta" "f32_finite x" "0 \<le> f32_value x" "f32_value x \<le> 2 ^ 149"
  shows "0 \<le> f32_value (f32_mul x delta)" "f32_value (f32_mul x delta) \<le> f32_value delta" "f32_finite (f32_mul x delta)"
    "f32_finite y \<Longrightarrow> 0 \<le> f32_value y \<Longrightarrow> f32_value y \<le> f32_value x \<Longrightarrow> f32_value (f32_mul y delta) \<le> f32_value (f32_mul x delta)"
    "f32_value x = 2 ^ 149 \<Longrightarrow> f32_value (f32_mul x delta) = f32_value delta"
    "f32_value x = 0 \<Longrightarrow> f32_value (f32_mul x delta) = 0"
proof -
  note V = f32_mul_value(1) [OF _ assms(2)]
  show pos: "0 \<le> f32_value (f32_mul x delta)"
    unfolding V [OF assms(3)] using le_round_value [of "2 ^ 149" 0 "f32_value x * f32_value delta"] assms by simp
  have "f32_value x * f32_value delta \<le> 2 ^ 149 * f32_value delta" using assms by (intro mult_right_mono) simp_all
  then show le: "f32_value (f32_mul x delta) \<le> f32_value delta"
    unfolding V [OF assms(3)] using round_value_le [of "2 ^ 149" delta "f32_value x * f32_value delta"] assms by (simp add: mult.commute)
  from pos le show "f32_finite (f32_mul x delta)" using f32_finite_between [of 0 delta] assms(2) by simp
  show "f32_value (f32_mul y delta) \<le> f32_value (f32_mul x delta)" if "f32_finite y" "f32_value y \<le> f32_value x"
    unfolding V [OF assms(3)] V [OF that(1)] using that assms by (intro round_value_mono mult_right_mono) simp_all
  show "f32_value (f32_mul x delta) = f32_value delta" if "f32_value x = 2 ^ 149"
    unfolding V [OF assms(3)] that using round_value_exact [of "2 ^ 149" delta] assms by (simp add: mult.commute)
  show "f32_value (f32_mul x delta) = 0" if "f32_value x = 0"
    unfolding V [OF assms(3)] that by simp
qed

lemma sum_mono:
  assumes "f32_finite x" "f32_finite y" "f32_finite z" "f32_value x \<le> f32_value y"
  shows "f32_value (f32_add x z) \<le> f32_value (f32_add y z)"
  unfolding f32_add_value [OF assms(1,3)] f32_add_value [OF assms(2,3)] using assms(4) by (intro round_value_mono) simp_all

lemma f32_add_commute_value: "f32_finite x \<Longrightarrow> f32_finite y \<Longrightarrow> f32_value (f32_add x y) = f32_value (f32_add y x)"
  by (simp add: f32_add_value add.commute)

lemma zero_add_value: "f32_finite x \<Longrightarrow> f32_finite y \<Longrightarrow> f32_value x = 0 \<Longrightarrow> f32_value (f32_add x y) = f32_value y"
  using round_value_exact_int [of y] by (simp add: f32_add_value)

lemma dequantize_bounds:
  assumes ok: "ok_constants maxIntegerValue delta mn" and i: "i \<le> maxIntegerValue"
  shows "f32_finite (dequantize_float32 i maxIntegerValue delta mn)"
    "f32_value mn \<le> f32_value (dequantize_float32 i maxIntegerValue delta mn)"
    "f32_value (dequantize_float32 i maxIntegerValue delta mn) \<le> f32_value (f32_add mn delta)"
    "j \<le> i \<Longrightarrow> f32_value (dequantize_float32 j maxIntegerValue delta mn) \<le> f32_value (dequantize_float32 i maxIntegerValue delta mn)"
    "f32_value (dequantize_float32 0 maxIntegerValue delta mn) = f32_value mn"
    "f32_value (dequantize_float32 maxIntegerValue maxIntegerValue delta mn) = f32_value (f32_add mn delta)"
proof -
  define D where "D k = dequantize_float32 k maxIntegerValue delta mn" for k
  define p where "p k = f32_mul (f32_div (f32_of_u32 k) (f32_of_u32 maxIntegerValue)) delta" for k
  have D: "D k = f32_add (p k) mn" for k by (simp add: D_def p_def dequantize_float32_def Let_def)
  have o: "1 \<le> maxIntegerValue" "0 < f32_value delta" "f32_finite delta" "f32_finite mn" "f32_finite (f32_add mn delta)"
    using ok by (simp_all add: ok_constants_def)
  note F = fraction_bounds [OF o(1)]
  note P = product_bounds [OF o(2,3) F(3) F(1,2), folded p_def]
  have mono: "f32_value (D k) \<le> f32_value (D l)" if "k \<le> l" "l \<le> maxIntegerValue" for k l
    unfolding D using that P(3,4) F(1,3,4) o(4) by (intro sum_mono) (auto simp: p_def dest: order_trans)
  have zero: "f32_value (D 0) = f32_value mn"
    unfolding D using P(3,6) [of 0] F(5) [of 0] o(4) by (intro zero_add_value) simp_all
  have top: "f32_value (D maxIntegerValue) = f32_value (f32_add mn delta)"
    unfolding D using P(3,5) [of maxIntegerValue] F(6) [of 0] o(3,4) by (simp add: f32_add_value add.commute)
  show "f32_value (dequantize_float32 0 maxIntegerValue delta mn) = f32_value mn" using zero by (simp add: D_def)
  show "f32_value (dequantize_float32 maxIntegerValue maxIntegerValue delta mn) = f32_value (f32_add mn delta)" using top by (simp add: D_def)
  show "f32_value (dequantize_float32 j maxIntegerValue delta mn) \<le> f32_value (dequantize_float32 i maxIntegerValue delta mn)" if "j \<le> i"
    using mono [OF that i] by (simp add: D_def)
  show lo: "f32_value mn \<le> f32_value (dequantize_float32 i maxIntegerValue delta mn)"
    using mono [of 0 i] i zero by (simp add: D_def)
  show hi: "f32_value (dequantize_float32 i maxIntegerValue delta mn) \<le> f32_value (f32_add mn delta)"
    using mono [OF i] top by (simp add: D_def)
  show "f32_finite (dequantize_float32 i maxIntegerValue delta mn)"
    using f32_finite_between [OF o(4,5) lo hi] .
qed

section \<open>Quantizing\<close>

lemma f32_value_le_inf: "\<not> f32_is_nan x \<Longrightarrow> \<bar>f32_value x\<bar> \<le> int (mag_value inf_mag)"
  by (simp add: abs_f32_value f32_is_nan_def)

text \<open>A difference may overflow to an infinity; dividing it by the range still orders it.\<close>

lemma f32_div_mono:
  assumes "\<not> f32_is_nan x" "\<not> f32_is_nan y" "f32_finite d" "0 < f32_value d" "f32_value x \<le> f32_value y"
  shows "\<not> f32_is_nan (f32_div x d)" "f32_value (f32_div x d) \<le> f32_value (f32_div y d)"
proof -
  have d: "magnitude d \<noteq> 0" "\<not> negative d" "\<not> f32_is_inf d" "\<not> f32_is_nan d"
    using assms magnitude_eq_0_iff [of d] by (auto simp: f32_value_def split: if_splits)
  have inf: "f32_value (f32_div z d) = f32_value z \<and> \<bar>f32_value z\<bar> = int (mag_value inf_mag)" if "f32_is_inf z" for z
    using that d by (simp add: f32_div_def Let_def f32_is_nan_def f32_is_inf_def f32_value_def)
  have fin: "f32_finite z" if "\<not> f32_is_inf z" "\<not> f32_is_nan z" for z
    using that by (simp add: f32_is_nan_def f32_is_inf_def)
  have nan: "\<not> f32_is_nan (f32_div z d)" if "\<not> f32_is_nan z" for z
    using that d f32_div_value(2) [OF fin assms(3,4), of z] by (cases "f32_is_inf z") (auto simp: f32_div_def Let_def f32_is_inf_def)
  then show "\<not> f32_is_nan (f32_div x d)" using assms(1) .
  note b = f32_value_le_inf [OF nan [OF assms(1)]] f32_value_le_inf [OF nan [OF assms(2)]]
    f32_value_le_inf [OF assms(1)] f32_value_le_inf [OF assms(2)]
  show "f32_value (f32_div x d) \<le> f32_value (f32_div y d)"
  proof (cases "f32_is_inf x \<or> f32_is_inf y")
    case True
    moreover have "\<bar>f32_value z\<bar> < int (mag_value inf_mag)" if "\<not> f32_is_inf z" "\<not> f32_is_nan z" for z
      using fin [OF that] by (simp only: f32_finite_iff)
    ultimately show ?thesis
      using inf [of x] inf [of y] b assms(1,2,5) by (cases "f32_is_inf x"; cases "f32_is_inf y") fastforce+
  next
    case False
    then show ?thesis
      using assms fin [of x] fin [of y] by (simp add: f32_div_value round_value_mono)
  qed
qed

definition normalized :: "f32 \<Rightarrow> f32 \<Rightarrow> f32 \<Rightarrow> f32" where
  "normalized v delta mn =
    (let n = f32_div (f32_sub v mn) delta
     in if \<not> f32_le 0 n then 0 else if \<not> f32_le n f32_one then f32_one else n)"

lemma normalized_bounds:
  assumes "f32_finite v" "f32_finite mn" "f32_finite delta" "0 < f32_value delta"
  shows "f32_finite (normalized v delta mn)" "0 \<le> f32_value (normalized v delta mn)" "f32_value (normalized v delta mn) \<le> 2 ^ 149"
    "f32_finite w \<Longrightarrow> f32_value v \<le> f32_value w \<Longrightarrow> f32_value (normalized v delta mn) \<le> f32_value (normalized w delta mn)"
    "f32_value v \<le> f32_value mn \<Longrightarrow> f32_value (normalized v delta mn) = 0"
proof -
  define n where "n v = f32_div (f32_sub v mn) delta" for v
  have N: "normalized v delta mn = (if \<not> f32_le 0 (n v) then 0 else if \<not> f32_le (n v) f32_one then f32_one else n v)" for v
    by (simp add: normalized_def n_def Let_def)
  note S = f32_sub_value [OF _ assms(2)]
  have nan: "\<not> f32_is_nan (n v)" if "f32_finite v" for v
    using f32_div_mono(1) [OF S(2) S(2) assms(3,4), of v v] that by (simp add: n_def)
  have mono: "f32_value (n v) \<le> f32_value (n w)" if "f32_finite v" "f32_finite w" "f32_value v \<le> f32_value w" for v w
    unfolding n_def using that by (intro f32_div_mono S(2) assms) (simp_all add: S(1) round_value_mono)
  have V: "f32_value (normalized v delta mn) = max 0 (min (2 ^ 149) (f32_value (n v)))" if "f32_finite v" for v
    unfolding N f32_le_def using nan [OF that] by (auto simp: min_def max_def simp del: constant_values) (simp_all add: constant_values)
  show "0 \<le> f32_value (normalized v delta mn)" "f32_value (normalized v delta mn) \<le> 2 ^ 149"
    unfolding V [OF assms(1)] by simp_all
  then show "f32_finite (normalized v delta mn)" using f32_finite_between [of 0 f32_one] by simp
  show "f32_value (normalized v delta mn) \<le> f32_value (normalized w delta mn)" if "f32_finite w" "f32_value v \<le> f32_value w"
    using mono [OF assms(1) that] unfolding V [OF assms(1)] V [OF that(1)] by linarith
  show "f32_value (normalized v delta mn) = 0" if "f32_value v \<le> f32_value mn"
  proof -
    have "f32_value (n mn) = 0"
      unfolding n_def using f32_div_value(1) [of "f32_sub mn mn" delta] S [of mn] assms
      by (cases "f32_finite (f32_sub mn mn)") (simp_all add: f32_finite_iff)
    then show ?thesis using mono [OF assms(1,2) that] unfolding V [OF assms(1)] by linarith
  qed
qed

text \<open>The scaled value with its half: a number whose floor is a uint32 however \<open>maxIntegerValue\<close> rounds.\<close>

definition scaled :: "f32 \<Rightarrow> u32 \<Rightarrow> f32 \<Rightarrow> f32 \<Rightarrow> f32" where
  "scaled v maxIntegerValue delta mn = f32_add (f32_mul (normalized v delta mn) (f32_of_u32 maxIntegerValue)) f32_half"

lemma f32_of_u32_top: "i \<le> 4294967040 \<Longrightarrow> f32_value (f32_of_u32 i) \<le> 4294967040 * 2 ^ 149"
  using f32_of_u32_mono [of i 4294967040] round_value_exact [of 1 f32_top] by (simp add: f32_of_u32_value)

lemma round_top: "round_value (4294967040 * 2 ^ 149 + 2 ^ 148) 1 \<le> 4294967040 * 2 ^ 149"
proof -
  have "round_mag (4294967040 * 2 ^ 149 + 2 ^ 148) 1 \<le> 0x4F7FFFFF"
    by (subst round_mag_le_iff) (simp_all add: mag_value_def)
  then have "mag_value (round_mag (4294967040 * 2 ^ 149 + 2 ^ 148) 1) \<le> mag_value 0x4F7FFFFF" by simp
  then show ?thesis by (simp add: round_value_def mag_value_def nat_add_distrib)
qed

lemma scaled_bounds:
  assumes "f32_finite v" "ok_constants maxIntegerValue delta mn"
  shows "0 \<le> f32_value (scaled v maxIntegerValue delta mn)"
    "f32_value (scaled v maxIntegerValue delta mn) \<le> 4294967040 * 2 ^ 149"
    "f32_finite w \<Longrightarrow> f32_value v \<le> f32_value w \<Longrightarrow> f32_value (scaled v maxIntegerValue delta mn) \<le> f32_value (scaled w maxIntegerValue delta mn)"
    "f32_value v \<le> f32_value mn \<Longrightarrow> f32_value (scaled v maxIntegerValue delta mn) = 2 ^ 148"
    "f32_value (normalized v delta mn) = 2 ^ 149 \<Longrightarrow> f32_value (f32_of_u32 maxIntegerValue) \<le> f32_value (scaled v maxIntegerValue delta mn)"
proof -
  have o: "1 \<le> maxIntegerValue" "maxIntegerValue \<le> 4294967040" "0 < f32_value delta" "f32_finite delta" "f32_finite mn"
    using assms(2) by (simp_all add: ok_constants_def)
  note N = normalized_bounds [OF _ o(5,4,3)]
  define m where "m = f32_of_u32 maxIntegerValue"
  have m: "0 < f32_value m" "f32_finite m" "f32_value m \<le> 4294967040 * 2 ^ 149"
    using f32_of_u32_pos [OF o(1)] f32_of_u32_value(2) f32_of_u32_top [OF o(2)] by (simp_all add: m_def)
  note P = product_bounds [OF m(1,2) N(1,2,3)]
  have S: "f32_value (scaled v maxIntegerValue delta mn) = round_value (f32_value (f32_mul (normalized v delta mn) m) + 2 ^ 148) 1"
    if "f32_finite v" for v
    unfolding scaled_def m_def [symmetric] using f32_add_value(1) [OF P(3) constant_finite(3)] that by simp
  show "0 \<le> f32_value (scaled v maxIntegerValue delta mn)"
    unfolding S [OF assms(1)] using le_round_value [of 1 0] P(1) [of v] assms(1) by simp
  have "f32_value (f32_mul (normalized v delta mn) m) \<le> 4294967040 * 2 ^ 149" using P(2) [of v] assms(1) m(3) by simp
  then have "round_value (f32_value (f32_mul (normalized v delta mn) m) + 2 ^ 148) 1 \<le> round_value (4294967040 * 2 ^ 149 + 2 ^ 148) 1"
    by (intro round_value_mono) simp_all
  then show "f32_value (scaled v maxIntegerValue delta mn) \<le> 4294967040 * 2 ^ 149"
    unfolding S [OF assms(1)] using round_top by linarith
  show "f32_value (scaled v maxIntegerValue delta mn) \<le> f32_value (scaled w maxIntegerValue delta mn)"
    if "f32_finite w" "f32_value v \<le> f32_value w"
    unfolding S [OF assms(1)] S [OF that(1)] using that assms(1) P(4) [of w] N(1,2,4) by (intro round_value_mono) simp_all
  show "f32_value (scaled v maxIntegerValue delta mn) = 2 ^ 148" if "f32_value v \<le> f32_value mn"
    unfolding S [OF assms(1)] using P(6) [of v] N(5) [OF assms(1) that] assms(1) round_value_exact_int [of f32_half] by simp
  show "f32_value (f32_of_u32 maxIntegerValue) \<le> f32_value (scaled v maxIntegerValue delta mn)"
    if "f32_value (normalized v delta mn) = 2 ^ 149"
    unfolding S [OF assms(1)] m_def [symmetric] using le_round_value [of 1 m] P(5) [of v] assms(1) that m(2) by simp
qed

lemma quantize_scaled:
  assumes "f32_finite v" "ok_constants maxIntegerValue delta mn"
  shows "uint (quantize_float32 v maxIntegerValue delta mn) = min (uint maxIntegerValue) (f32_value (scaled v maxIntegerValue delta mn) div 2 ^ 149)"
proof -
  define k where "k = f32_value (scaled v maxIntegerValue delta mn) div 2 ^ 149"
  have "0 \<le> k" "k \<le> 4294967040"
    unfolding k_def using scaled_bounds(1,2) [OF assms] by (intro floor_between(1,2); simp)+
  then have k: "uint (word_of_int k :: u32) = k" by (simp add: uint_word_of_int)
  have "quantize_float32 v maxIntegerValue delta mn = (if maxIntegerValue < word_of_int k then maxIntegerValue else word_of_int k)"
    unfolding k_def by (simp only: quantize_float32_def scaled_def normalized_def floor_u32_def Let_def)
  then show ?thesis unfolding k_def [symmetric] using k by (simp add: word_less_def min_def)
qed

lemma quantize_le: "quantize_float32 v maxIntegerValue delta mn \<le> maxIntegerValue"
  unfolding quantize_float32_def Let_def by (auto simp: not_less)

lemma quantize_mono:
  assumes "f32_finite v" "f32_finite w" "ok_constants maxIntegerValue delta mn" "f32_value v \<le> f32_value w"
  shows "quantize_float32 v maxIntegerValue delta mn \<le> quantize_float32 w maxIntegerValue delta mn"
  using scaled_bounds(3) [OF assms(1,3,2,4)]
  by (simp add: word_le_def quantize_scaled [OF assms(1,3)] quantize_scaled [OF assms(2,3)] min.coboundedI2 zdiv_mono1)

lemma quantize_low:
  assumes "f32_finite v" "ok_constants maxIntegerValue delta mn" "f32_value v \<le> f32_value mn"
  shows "quantize_float32 v maxIntegerValue delta mn = 0"
proof -
  have "f32_value (scaled v maxIntegerValue delta mn) div 2 ^ 149 = 0"
    unfolding scaled_bounds(4) [OF assms(1,2,3)] by simp
  then show ?thesis using quantize_scaled [OF assms(1,2)] by (simp add: word_uint_eq_iff)
qed

text \<open>Whole numbers up to \<open>2 ^ 24\<close> are floats.\<close>

lemma f32_of_u32_exact: "i \<le> 16777216 \<Longrightarrow> f32_value (f32_of_u32 i) = uint i * 2 ^ 149"
proof -
  have "\<exists>m \<le> inf_mag. mag_value m = n * 2 ^ 149" if "n \<le> 2 ^ 24" for n
  proof (cases "n = 0 \<or> n = 2 ^ 24")
    case True
    then show ?thesis by (elim disjE) (rule exI [of _ 0], simp, rule exI [of _ "0x4B800000"], simp add: mag_value_def)
  next
    case False
    define k where "k = 24 - nat_len n"
    have len: "1 \<le> nat_len n" "nat_len n \<le> 24" "n < 2 ^ nat_len n" "2 ^ (nat_len n - 1) \<le> n"
      using False that nat_len_le_iff [of n 0] nat_len_le_iff [of n 24] nat_len_le_iff [of n "nat_len n"] nat_len_le_iff [of n "nat_len n - 1"] by auto
    have "n * 2 ^ k < 2 ^ nat_len n * 2 ^ k" using len by simp
    then have hi: "n * 2 ^ k < 2 ^ 24" using len by (simp add: k_def flip: power_add)
    have "2 ^ (nat_len n - 1) * 2 ^ k \<le> n * 2 ^ k" using len by simp
    then have lo: "2 ^ 23 \<le> n * 2 ^ k" using len by (simp add: k_def flip: power_add)
    have "mag_value ((149 - k) * 2 ^ 23 + n * 2 ^ k) = n * 2 ^ k * 2 ^ (149 - k)"
      using lo hi by (intro mag_value_step(1)) simp_all
    also have "\<dots> = n * 2 ^ 149" unfolding mult.assoc power_add [symmetric] using len by (simp add: k_def)
    finally have "mag_value ((149 - k) * 2 ^ 23 + n * 2 ^ k) = n * 2 ^ 149" .
    moreover have "(149 - k) * 2 ^ 23 + n * 2 ^ k \<le> inf_mag"
      using hi mult_right_mono [of "149 - k" 149 "2 ^ 23"] by simp
    ultimately show ?thesis by blast
  qed
  moreover assume "i \<le> 16777216"
  ultimately obtain m where m: "m \<le> inf_mag" "mag_value m = unat i * 2 ^ 149" by (auto simp: word_le_nat_alt)
  then have "round_mag (unat i * 2 ^ 149) 1 = m" using round_mag_exact [of 1 m] by simp
  then show ?thesis using m by (simp add: f32_of_u32_def f32_value_def)
qed

text \<open>Floats from \<open>2 ^ 24\<close> on are whole numbers, so a step count derived from a declaration is a float.\<close>

lemma f32_whole:
  assumes "16777216 * 2 ^ 149 \<le> f32_value k"
  shows "2 ^ 149 dvd f32_value k"
proof -
  have k: "f32_value k = int (mag_value (magnitude k))" using assms by (simp add: f32_value_def split: if_splits)
  have "int (mag_value 0x4B800000) = 16777216 * 2 ^ 149" by (simp add: mag_value_def)
  then have "int (mag_value 0x4B800000) \<le> int (mag_value (magnitude k))" using assms unfolding k by (simp only:)
  then have m: "151 * 2 ^ 23 \<le> magnitude k" by simp
  obtain e t where t: "magnitude k = e * 2 ^ 23 + t" "e = 0 \<or> 2 ^ 23 \<le> t" "t < 2 ^ 24" by (rule mag_split)
  have "149 < e" using m t(1,3) by simp
  then have "(2 :: nat) ^ 149 dvd t * 2 ^ e" by (intro dvd_mult le_imp_power_dvd) simp
  then have "2 ^ 149 dvd mag_value (magnitude k)" unfolding t(1) mag_value_step(1) [OF t(2,3)] .
  then show ?thesis unfolding k by (metis of_nat_dvd_iff of_nat_numeral of_nat_power)
qed

lemma f32_of_step_count:
  assumes "compressedFloatParams mn mx resolution = (maxIntegerValue, bits, delta)"
  shows "f32_value (f32_of_u32 maxIntegerValue) = uint maxIntegerValue * 2 ^ 149"
proof -
  obtain k where k: "maxIntegerValue = ceil_u32 k" "2 ^ 149 \<le> f32_value k" "f32_value k \<le> 4294967040 * 2 ^ 149"
    using compressedFloatParams_ceil [of mn mx resolution] assms by (metis prod.inject)
  define c where "c = - (- f32_value k div 2 ^ 149)"
  have c: "1 \<le> c" "c \<le> 4294967040" unfolding c_def using k(2,3) by (intro floor_between; simp)+
  then have m: "uint maxIntegerValue = c" unfolding k(1) ceil_u32_def c_def [symmetric] by (simp add: uint_word_of_int)
  show ?thesis
  proof (cases "f32_value k \<le> 16777216 * 2 ^ 149")
    case True
    then have "c \<le> 16777216" unfolding c_def by (intro floor_between) simp_all
    then show ?thesis using m by (intro f32_of_u32_exact) (simp add: word_le_def)
  next
    case False
    then have "2 ^ 149 dvd f32_value k" by (intro f32_whole) simp
    then have "c * 2 ^ 149 = f32_value k" unfolding c_def by (simp add: dvd_neg_div)
    moreover have "\<bar>f32_value k\<bar> < int (mag_value inf_mag)" using k(2,3) by (simp add: mag_value_def)
    then have "\<not> f32_is_nan k" using f32_finite_iff [of k] by simp
    ultimately show ?thesis unfolding f32_of_u32_value m using round_value_exact [of 1 k] by simp
  qed
qed

lemma quantize_high:
  assumes "f32_finite v" "ok_constants maxIntegerValue delta mn" "f32_value (f32_of_u32 maxIntegerValue) = uint maxIntegerValue * 2 ^ 149"
    and "f32_finite mx" "delta = f32_sub mx mn" "f32_value mx \<le> f32_value v"
  shows "quantize_float32 v maxIntegerValue delta mn = maxIntegerValue"
proof -
  have o: "0 < f32_value delta" "f32_finite delta" "f32_finite mn" using assms(2) by (simp_all add: ok_constants_def)
  note N = normalized_bounds [OF _ o(3,2,1)]
  have "f32_value (f32_div delta delta) = 2 ^ 149" "\<not> f32_is_nan (f32_div delta delta)"
    using f32_div_value [OF o(2,2,1)] round_value_exact [of "nat (f32_value delta)" f32_one] o(1) by (simp_all add: mult.commute)
  then have "f32_value (normalized mx delta mn) = 2 ^ 149"
    unfolding normalized_def Let_def assms(5) [symmetric] f32_le_def by (simp add: f32_is_nan_def)
  then have one: "f32_value (normalized v delta mn) = 2 ^ 149"
    using N(4) [OF assms(4,1,6)] N(3) [OF assms(1)] by simp
  have "uint maxIntegerValue * 2 ^ 149 \<le> f32_value (scaled v maxIntegerValue delta mn)"
    using scaled_bounds(5) [OF assms(1,2) one] assms(3) by simp
  then have "uint maxIntegerValue \<le> f32_value (scaled v maxIntegerValue delta mn) div 2 ^ 149" by (intro floor_between) simp_all
  then show ?thesis using quantize_scaled [OF assms(1,2)] by (simp add: word_uint_eq_iff)
qed

end
