(* ===== verification/Compressed_Ops.thy ===== *)
theory Compressed_Ops
  imports Compressed_Float Write_Ops Read_Ops Measure_Stream
begin

text \<open>
  The compressed float operations of the three streams (write_stream.go, read_stream.go,
  measure_stream.go): the one that derives its constants on every call and the one that takes
  them precomputed. Each stream has one home for its arithmetic, which both reach. The lemmas
  give each operation the contract of its stream: what it emits, what it reads, what it measures.
\<close>

section \<open>Writing\<close>

definition WriteStream_compressedFloat32Precomputed ::
  "'c write_stream \<Rightarrow> f32 \<Rightarrow> u32 \<Rightarrow> int \<Rightarrow> f32 \<Rightarrow> f32 \<Rightarrow> 'c write_stream res" where
  "WriteStream_compressedFloat32Precomputed s value maxIntegerValue bits delta mn =
    (if \<not> float32BitsAreFinite (f32_add mn delta) then Inl PanicCompressedFloatDecode
     else if \<not> float32BitsAreFinite value then Inl PanicNonFiniteFloat
     else WriteStream_writeBits s (quantize_float32 value maxIntegerValue delta mn) (nat bits))"

definition WriteStream_SerializeCompressedFloat32 ::
  "'c write_stream \<Rightarrow> f32 \<Rightarrow> f32 \<Rightarrow> f32 \<Rightarrow> f32 \<Rightarrow> 'c write_stream res" where
  "WriteStream_SerializeCompressedFloat32 s value mn mx resolution =
    andThen (CompressedFloatParams mn mx resolution) (\<lambda>(maxIntegerValue, bits, delta).
    andThen (checkCompressedFloatDeclarationFinite mn mx resolution) (\<lambda>_.
      WriteStream_compressedFloat32Precomputed s value maxIntegerValue (int bits) delta mn))"

definition WriteStream_SerializeCompressedFloat32Precomputed ::
  "'c write_stream \<Rightarrow> f32 \<Rightarrow> u32 \<Rightarrow> int \<Rightarrow> f32 \<Rightarrow> f32 \<Rightarrow> 'c write_stream res" where
  "WriteStream_SerializeCompressedFloat32Precomputed s value maxIntegerValue bits delta mn =
    andThen (validateCompressedFloatConstants maxIntegerValue bits delta) (\<lambda>_.
      WriteStream_compressedFloat32Precomputed s value maxIntegerValue bits delta mn)"

section \<open>Reading\<close>

definition ReadStream_compressedFloat32Precomputed ::
  "'c read_stream \<Rightarrow> f32 \<Rightarrow> u32 \<Rightarrow> int \<Rightarrow> f32 \<Rightarrow> f32 \<Rightarrow> ('c, f32) read_result" where
  "ReadStream_compressedFloat32Precomputed s value maxIntegerValue bits delta mn =
    andThen (ReadStream_readBits s 0 (nat bits)) (\<lambda>(s, integerValue, err).
      if err \<noteq> None then Inr (s, value, err)
      else if maxIntegerValue < integerValue then refuse s ErrValueOutOfRange value
      else
        let decoded = dequantize_float32 integerValue maxIntegerValue delta mn
        in if \<not> float32BitsAreFinite decoded then refuse s ErrNonFiniteFloat value
           else Inr (s, decoded, None))"

definition ReadStream_SerializeCompressedFloat32 ::
  "'c read_stream \<Rightarrow> f32 \<Rightarrow> f32 \<Rightarrow> f32 \<Rightarrow> f32 \<Rightarrow> ('c, f32) read_result" where
  "ReadStream_SerializeCompressedFloat32 s value mn mx resolution =
    (if \<not> compressedFloatDeclarationValid mn mx resolution then refuse s ErrValueOutOfRange value
     else
       let (maxIntegerValue, bits, delta) = compressedFloatParams mn mx resolution
       in ReadStream_compressedFloat32Precomputed s value maxIntegerValue (int bits) delta mn)"

definition ReadStream_SerializeCompressedFloat32Precomputed ::
  "'c read_stream \<Rightarrow> f32 \<Rightarrow> u32 \<Rightarrow> int \<Rightarrow> f32 \<Rightarrow> f32 \<Rightarrow> ('c, f32) read_result" where
  "ReadStream_SerializeCompressedFloat32Precomputed s value maxIntegerValue bits delta mn =
    (if \<not> compressedFloatConstantsValid maxIntegerValue bits delta then refuse s ErrValueOutOfRange value
     else ReadStream_compressedFloat32Precomputed s value maxIntegerValue bits delta mn)"

section \<open>Measuring\<close>

definition MeasureStream_SerializeCompressedFloat32 ::
  "'c measure_stream \<Rightarrow> f32 \<Rightarrow> f32 \<Rightarrow> f32 \<Rightarrow> f32 \<Rightarrow> 'c measure_stream res" where
  "MeasureStream_SerializeCompressedFloat32 s value mn mx resolution =
    andThen (CompressedFloatParams mn mx resolution) (\<lambda>(_, bits, _).
    andThen (checkCompressedFloatDeclarationFinite mn mx resolution) (\<lambda>_.
      if \<not> float32BitsAreFinite value then Inl PanicNonFiniteFloat
      else MeasureStream_measure s bits))"

definition MeasureStream_SerializeCompressedFloat32Precomputed ::
  "'c measure_stream \<Rightarrow> f32 \<Rightarrow> u32 \<Rightarrow> int \<Rightarrow> f32 \<Rightarrow> f32 \<Rightarrow> 'c measure_stream res" where
  "MeasureStream_SerializeCompressedFloat32Precomputed s value maxIntegerValue bits delta mn =
    andThen (validateCompressedFloatConstants maxIntegerValue bits delta) (\<lambda>_.
      if \<not> float32BitsAreFinite (f32_add mn delta) then Inl PanicCompressedFloatDecode
      else if \<not> float32BitsAreFinite value then Inl PanicNonFiniteFloat
      else MeasureStream_measure s (nat bits))"

section \<open>The specification\<close>

text \<open>A conforming field of precomputed constants, and of a declaration.\<close>

definition ok_precomputed :: "u32 \<Rightarrow> int \<Rightarrow> f32 \<Rightarrow> f32 \<Rightarrow> f32 \<Rightarrow> bool" where
  "ok_precomputed maxIntegerValue bits delta mn v \<longleftrightarrow>
    compressedFloatConstantsValid maxIntegerValue bits delta \<and> float32BitsAreFinite (f32_add mn delta) \<and> float32BitsAreFinite v"

definition ok_compressed :: "f32 \<Rightarrow> f32 \<Rightarrow> f32 \<Rightarrow> f32 \<Rightarrow> bool" where
  "ok_compressed mn mx resolution v \<longleftrightarrow>
    compressedFloatDeclarationValid mn mx resolution \<and> checkCompressedFloatDeclarationFinite mn mx resolution = Inr ()
    \<and> float32BitsAreFinite v"

text \<open>The integer on the wire, read under its constants.\<close>

definition ok_float_code :: "u32 \<Rightarrow> f32 \<Rightarrow> f32 \<Rightarrow> u32 \<Rightarrow> bool" where
  "ok_float_code maxIntegerValue delta mn i \<longleftrightarrow>
    i \<le> maxIntegerValue \<and> float32BitsAreFinite (dequantize_float32 i maxIntegerValue delta mn)"

definition dec_float_code :: "u32 \<Rightarrow> int \<Rightarrow> f32 \<Rightarrow> f32 \<Rightarrow> u32 decoder" where
  "dec_float_code maxIntegerValue bits delta mn =
    dec_field (nat bits) (\<lambda>i. if maxIntegerValue < i then Inl ErrValueOutOfRange
      else if \<not> float32BitsAreFinite (dequantize_float32 i maxIntegerValue delta mn) then Inl ErrNonFiniteFloat
      else Inr i)"

definition dec_precomputed_code :: "u32 \<Rightarrow> int \<Rightarrow> f32 \<Rightarrow> f32 \<Rightarrow> u32 decoder" where
  "dec_precomputed_code maxIntegerValue bits delta mn =
    (if compressedFloatConstantsValid maxIntegerValue bits delta then dec_float_code maxIntegerValue bits delta mn
     else dec_fail ErrValueOutOfRange)"

definition dec_compressed_code :: "f32 \<Rightarrow> f32 \<Rightarrow> f32 \<Rightarrow> u32 decoder" where
  "dec_compressed_code mn mx resolution =
    (if compressedFloatDeclarationValid mn mx resolution
     then let (maxIntegerValue, bits, delta) = compressedFloatParams mn mx resolution
          in dec_float_code maxIntegerValue (int bits) delta mn
     else dec_fail ErrValueOutOfRange)"

definition dec_map :: "('v \<Rightarrow> 'w) \<Rightarrow> 'v decoder \<Rightarrow> 'w decoder" where
  "dec_map c d p bs = (case d p bs of Inl r \<Rightarrow> Inl r | Inr (x, n) \<Rightarrow> Inr (c x, n))"

section \<open>The constants of a conforming field\<close>

lemma ok_precomputed_constants:
  assumes "ok_precomputed maxIntegerValue bits delta mn v"
  shows "ok_constants maxIntegerValue delta mn" "f32_finite v" "nat bits \<le> 32" "nat bits = Len maxIntegerValue" "0 \<le> bits"
proof -
  have c: "maxIntegerValue \<noteq> 0" "maxIntegerValue \<le> 4294967040" "bits = int (BitsRequired 0 maxIntegerValue)" "0 < f32_value delta"
    "f32_finite (f32_add mn delta)" and v: "f32_finite v"
    using assms by (simp_all add: ok_precomputed_def compressedFloatConstantsValid_def f32_less_def float32BitsAreFinite_iff)
  have "1 \<le> maxIntegerValue" using c(1) by (simp add: word_le_nat_alt Suc_le_eq unat_gt_0)
  with c v finite_summands [OF c(5)] BitsRequired_compressed [of maxIntegerValue]
  show "ok_constants maxIntegerValue delta mn" "f32_finite v" "nat bits \<le> 32" "nat bits = Len maxIntegerValue" "0 \<le> bits"
    by (simp_all add: ok_constants_def)
qed

lemma round_value_pos: "1 \<le> v \<Longrightarrow> 0 < round_value v 1"
  using le_round_value [of 1 1 v] by (simp add: f32_value_def magnitude_def negative_def f32_is_nan_def)

lemma ok_compressed_constants:
  assumes "ok_compressed mn mx resolution v" and "compressedFloatParams mn mx resolution = (maxIntegerValue, bits, delta)"
  shows "ok_constants maxIntegerValue delta mn" "f32_finite v" "bits \<le> 32" "bits = Len maxIntegerValue" "delta = f32_sub mx mn" "f32_finite mx"
proof -
  note B = compressedFloatParams_bounds [OF assms(2)]
  have d: "f32_finite delta" "f32_finite (f32_add mn delta)" "f32_value mn < f32_value mx" and v: "f32_finite v"
    using assms(1) unfolding B(4)
    by (simp_all add: ok_compressed_def checkCompressedFloatDeclarationFinite_def compressedFloatDeclarationValid_def
        f32_less_def Let_def float32BitsAreFinite_iff split: if_splits)
  have "f32_finite mx \<and> f32_finite mn"
    using finite_summands [of mx "mn XOR 0x80000000"] d(1) unfolding B(4) f32_sub_def by (simp add: flip_sign)
  moreover from this have "0 < f32_value delta" unfolding B(4) using d(3) round_value_pos [of "f32_value mx - f32_value mn"] by (simp add: f32_sub_value)
  ultimately show "ok_constants maxIntegerValue delta mn" "f32_finite v" "bits \<le> 32" "bits = Len maxIntegerValue" "delta = f32_sub mx mn" "f32_finite mx"
    using B(1,2,3,4) BitsRequired_compressed [OF B(1)] d v by (simp_all add: ok_constants_def)
qed

lemma quantize_code:
  assumes "ok_constants maxIntegerValue delta mn"
  shows "ok_float_code maxIntegerValue delta mn (quantize_float32 v maxIntegerValue delta mn)"
  using dequantize_bounds(1) [OF assms quantize_le] by (simp add: ok_float_code_def quantize_le float32BitsAreFinite_iff)

section \<open>What the writer emits\<close>

lemma quantized_emits:
  assumes "n \<le> 32" "n = Len maxIntegerValue"
  shows "emits (\<lambda>s. WriteStream_writeBits s (quantize_float32 v maxIntegerValue delta mn) n)
    (\<lambda>_. bits_of n (quantize_float32 v maxIntegerValue delta mn))"
  by (rule writeBits_emits [OF assms(1)]) (simp add: assms(2) fits_of_le quantize_le)

lemma SerializeCompressedFloat32Precomputed_emits:
  assumes "ok_precomputed maxIntegerValue bits delta mn v"
  shows "emits (\<lambda>s. WriteStream_SerializeCompressedFloat32Precomputed s v maxIntegerValue bits delta mn)
    (\<lambda>_. bits_of (nat bits) (quantize_float32 v maxIntegerValue delta mn))"
  using quantized_emits [OF ok_precomputed_constants(3,4) [OF assms], of v delta mn] assms
  by (simp add: WriteStream_SerializeCompressedFloat32Precomputed_def WriteStream_compressedFloat32Precomputed_def
      validateCompressedFloatConstants_def ok_precomputed_def)

lemma SerializeCompressedFloat32_emits:
  assumes "ok_compressed mn mx resolution v" and p: "compressedFloatParams mn mx resolution = (maxIntegerValue, bits, delta)"
  shows "emits (\<lambda>s. WriteStream_SerializeCompressedFloat32 s v mn mx resolution)
    (\<lambda>_. bits_of bits (quantize_float32 v maxIntegerValue delta mn))"
  using quantized_emits [OF ok_compressed_constants(3,4) [OF assms], of v delta mn] ok_compressed_constants(1,2) [OF assms] assms
  by (simp add: WriteStream_SerializeCompressedFloat32_def WriteStream_compressedFloat32Precomputed_def CompressedFloatParams_def
      ok_compressed_def ok_constants_def float32BitsAreFinite_iff)

section \<open>What the reader reads\<close>

lemma dec_map_field: "dec_map c (dec_field n f) = dec_field n (\<lambda>u. case f u of Inl r \<Rightarrow> Inl r | Inr x \<Rightarrow> Inr (c x))"
  by (auto simp: dec_map_def dec_field_def fun_eq_iff split: sum.splits)

lemma dec_map_fail [simp]: "dec_map c (dec_fail r) = dec_fail r"
  by (simp add: dec_map_def dec_fail_def fun_eq_iff)

lemma compressedFloat32Precomputed_reads:
  assumes "nat bits \<le> 32"
  shows "reads pre (\<lambda>s v. ReadStream_compressedFloat32Precomputed s v maxIntegerValue bits delta mn)
    (dec_map (\<lambda>i. dequantize_float32 i maxIntegerValue delta mn) (dec_float_code maxIntegerValue bits delta mn))"
  unfolding dec_float_code_def dec_map_field
  by (intro readsI terminal_iff f32.field assms)
    (auto simp: ReadStream_compressedFloat32Precomputed_def ReadStream_readBits_def run_simps refuse_simps
      intro!: arg_cong2 [of _ _ _ _ andThen] split: if_splits)

lemma SerializeCompressedFloat32Precomputed_reads:
  "reads pre (\<lambda>s v. ReadStream_SerializeCompressedFloat32Precomputed s v maxIntegerValue bits delta mn)
    (dec_map (\<lambda>i. dequantize_float32 i maxIntegerValue delta mn) (dec_precomputed_code maxIntegerValue bits delta mn))"
proof (cases "compressedFloatConstantsValid maxIntegerValue bits delta")
  case True
  then have "maxIntegerValue \<noteq> 0" "bits = int (BitsRequired 0 maxIntegerValue)" by (simp_all add: compressedFloatConstantsValid_def)
  then have "nat bits \<le> 32" using BitsRequired_compressed(2) [of maxIntegerValue] by (simp add: word_le_nat_alt Suc_le_eq unat_gt_0)
  from compressedFloat32Precomputed_reads [OF this] show ?thesis
    using True by (simp add: ReadStream_SerializeCompressedFloat32Precomputed_def dec_precomputed_code_def)
next
  case False
  then show ?thesis
    by (auto simp: ReadStream_SerializeCompressedFloat32Precomputed_def dec_precomputed_code_def intro!: readsI terminal_refuse reads0_fail)
qed

lemma SerializeCompressedFloat32_reads:
  assumes "compressedFloatParams mn mx resolution = (maxIntegerValue, bits, delta)"
  shows "reads pre (\<lambda>s v. ReadStream_SerializeCompressedFloat32 s v mn mx resolution)
    (dec_map (\<lambda>i. dequantize_float32 i maxIntegerValue delta mn) (dec_compressed_code mn mx resolution))"
proof (cases "compressedFloatDeclarationValid mn mx resolution")
  case True
  have "nat (int bits) \<le> 32"
    using compressedFloatParams_bounds [OF assms] BitsRequired_compressed(2) [of maxIntegerValue] by simp
  from compressedFloat32Precomputed_reads [OF this] show ?thesis
    using True assms by (simp add: ReadStream_SerializeCompressedFloat32_def dec_compressed_code_def)
next
  case False
  then show ?thesis
    by (auto simp: ReadStream_SerializeCompressedFloat32_def dec_compressed_code_def intro!: readsI terminal_refuse reads0_fail)
qed

section \<open>The codes\<close>

lemma float_code_encodes:
  assumes "nat bits \<le> 32" "nat bits = Len maxIntegerValue"
  shows "encodes (dec_float_code maxIntegerValue bits delta mn) (ok_float_code maxIntegerValue delta mn) (\<lambda>i _. bits_of (nat bits) i)"
  unfolding dec_float_code_def
  by (rule field_encodes [where raw = "\<lambda>i. i"])
    (use assms in \<open>auto simp: ok_float_code_def fits_of_le not_less split: if_splits\<close>)

lemma precomputed_code_encodes:
  "encodes (dec_precomputed_code maxIntegerValue bits delta mn)
    (\<lambda>i. compressedFloatConstantsValid maxIntegerValue bits delta \<and> ok_float_code maxIntegerValue delta mn i) (\<lambda>i _. bits_of (nat bits) i)"
proof (cases "compressedFloatConstantsValid maxIntegerValue bits delta")
  case True
  then have "maxIntegerValue \<noteq> 0" "bits = int (BitsRequired 0 maxIntegerValue)" by (simp_all add: compressedFloatConstantsValid_def)
  then have "nat bits \<le> 32" "nat bits = Len maxIntegerValue"
    using BitsRequired_compressed(2,3) [of maxIntegerValue] by (simp_all add: word_le_nat_alt Suc_le_eq unat_gt_0)
  from float_code_encodes [OF this] show ?thesis using True by (simp add: dec_precomputed_code_def)
qed (auto simp: dec_precomputed_code_def intro!: fail_encodes)

lemma compressed_code_encodes:
  assumes "compressedFloatParams mn mx resolution = (maxIntegerValue, bits, delta)"
  shows "encodes (dec_compressed_code mn mx resolution)
    (\<lambda>i. compressedFloatDeclarationValid mn mx resolution \<and> ok_float_code maxIntegerValue delta mn i) (\<lambda>i _. bits_of bits i)"
proof (cases "compressedFloatDeclarationValid mn mx resolution")
  case True
  have "nat (int bits) \<le> 32" "nat (int bits) = Len maxIntegerValue"
    using compressedFloatParams_bounds [OF assms] BitsRequired_compressed(2,3) [of maxIntegerValue] by simp_all
  from float_code_encodes [OF this] show ?thesis using True assms by (simp add: dec_compressed_code_def)
qed (auto simp: dec_compressed_code_def intro!: fail_encodes)

section \<open>What the measure counts\<close>

lemma SerializeCompressedFloat32Precomputed_checked:
  "checked (ok_precomputed maxIntegerValue bits delta mn v) (nat bits)
    (\<lambda>m. MeasureStream_SerializeCompressedFloat32Precomputed m v maxIntegerValue bits delta mn)
    (\<lambda>s. WriteStream_SerializeCompressedFloat32Precomputed s v maxIntegerValue bits delta mn)"
  by (rule checkedI [where chk = "if \<not> compressedFloatConstantsValid maxIntegerValue bits delta then Some PanicPrecomputedFloat
      else if \<not> float32BitsAreFinite (f32_add mn delta) then Some PanicCompressedFloatDecode
      else if \<not> float32BitsAreFinite v then Some PanicNonFiniteFloat else None"])
    (auto simp: MeasureStream_SerializeCompressedFloat32Precomputed_def WriteStream_SerializeCompressedFloat32Precomputed_def
      WriteStream_compressedFloat32Precomputed_def validateCompressedFloatConstants_def ok_precomputed_def split: if_splits)

lemma SerializeCompressedFloat32_checked:
  assumes "compressedFloatParams mn mx resolution = (maxIntegerValue, bits, delta)"
  shows "checked (ok_compressed mn mx resolution v) bits
    (\<lambda>m. MeasureStream_SerializeCompressedFloat32 m v mn mx resolution)
    (\<lambda>s. WriteStream_SerializeCompressedFloat32 s v mn mx resolution)"
  by (rule checkedI [where chk = "if \<not> compressedFloatDeclarationValid mn mx resolution then Some PanicFloatParams
      else case checkCompressedFloatDeclarationFinite mn mx resolution of Inl p \<Rightarrow> Some p
      | Inr _ \<Rightarrow> if \<not> float32BitsAreFinite v then Some PanicNonFiniteFloat else None"])
    (use compressedFloatParams_bounds(4) [OF assms] in \<open>auto simp: MeasureStream_SerializeCompressedFloat32_def
      WriteStream_SerializeCompressedFloat32_def WriteStream_compressedFloat32Precomputed_def CompressedFloatParams_def assms
      checkCompressedFloatDeclarationFinite_def ok_compressed_def Let_def split: if_splits\<close>)

end
