(* ===== verification/Compressed_Props.thy ===== *)
theory Compressed_Props
  imports Compressed_Ops
begin

text \<open>
  What the compressed floats promise: the constants of a declaration and their ranges, the order and
  the ends of the quantization and of the decode, the two entry points of each stream against each
  other. The vectors the conformance harness (compat/main.go) pins across languages are lemmas.
\<close>

section \<open>Vectors\<close>

text \<open>
  The declarations of the harness, [0,10] and [-100,100] at 0.01 and the two clamp witnesses at 1,
  one operation at a time.
\<close>

lemma compat_sub:
  "f32_sub 0x41200000 0 = 0x41200000"
  "f32_sub 0x40A00000 0 = 0x40A00000"
  "f32_sub 0x3BA3D70A 0 = 0x3BA3D70A"
  "f32_sub 0x42C80000 0xC2C80000 = 0x43480000"
  "f32_sub 0xC22A4AC1 0xC2C80000 = 0x4265B53F"
  "f32_sub 0x4B000001 0 = 0x4B000001"
  "f32_sub 0x4B7FFFFF 0 = 0x4B7FFFFF"
  by ((rule f32_sub_check, rule f32_add_check; simp add: f32_literal)+)

lemma compat_div:
  "f32_div 0x41200000 0x3C23D70A = 0x447A0000"
  "f32_div 0x40A00000 0x41200000 = 0x3F000000"
  "f32_div 0x43FA0000 0x447A0000 = 0x3F000000"
  "f32_div 0x3BA3D70A 0x41200000 = 0x3A03126E"
  "f32_div 0x3F800000 0x447A0000 = 0x3A83126F"
  "f32_div 0x43480000 0x3C23D70A = 0x469C4000"
  "f32_div 0x4265B53F 0x43480000 = 0x3E93035C"
  "f32_div 0x45B37800 0x469C4000 = 0x3E930553"
  "f32_div 0x4B000001 0x3F800000 = 0x4B000001"
  "f32_div 0x4B000001 0x4B000001 = 0x3F800000"
  "f32_div 0x4B7FFFFF 0x3F800000 = 0x4B7FFFFF"
  "f32_div 0x4B7FFFFF 0x4B7FFFFF = 0x3F800000"
  by ((rule f32_div_check; simp add: f32_literal)+)

lemma compat_le:
  "f32_le 0x3F800000 0x447A0000"
  "f32_le 0 0x3F000000"
  "f32_le 0x3F000000 0x3F800000"
  "f32_le 0 0x3A03126E"
  "f32_le 0x3A03126E 0x3F800000"
  "f32_le 0x3F800000 0x469C4000"
  "f32_le 0 0x3E93035C"
  "f32_le 0x3E93035C 0x3F800000"
  "f32_le 0x3F800000 0x4B000001"
  "f32_le 0 0x3F800000"
  "f32_le 0x3F800000 0x3F800000"
  "f32_le 0x3F800000 0x4B7FFFFF"
  by (simp_all add: f32_literal)

lemma compat_less:
  "\<not> f32_less 0x4F7FFFFF 0x447A0000"
  "f32_less 0 0x41200000"
  "f32_less 0 0x3C23D70A"
  "\<not> f32_less 0x4F7FFFFF 0x469C4000"
  "f32_less 0xC2C80000 0x42C80000"
  "\<not> f32_less 0x4F7FFFFF 0x4B000001"
  "f32_less 0 0x4B000001"
  "f32_less 0 0x3F800000"
  "\<not> f32_less 0x4F7FFFFF 0x4B7FFFFF"
  "f32_less 0 0x4B7FFFFF"
  by (simp_all add: f32_literal)

lemma compat_ceil:
  "ceil_u32 0x447A0000 = 1000"
  "ceil_u32 0x469C4000 = 20000"
  "ceil_u32 0x4B000001 = 8388609"
  "ceil_u32 0x4B7FFFFF = 16777215"
  by (simp_all add: f32_literal)

lemma compat_BitsRequired:
  "BitsRequired 0 1000 = 10"
  "BitsRequired 0 20000 = 15"
  "BitsRequired 0 8388609 = 24"
  "BitsRequired 0 16777215 = 24"
  by (simp_all add: BitsRequired_def Len_def)

lemma compat_add:
  "f32_add 0 0x41200000 = 0x41200000"
  "f32_add 0x43FA0000 0x3F000000 = 0x43FA4000"
  "f32_add 0x40A00000 0 = 0x40A00000"
  "f32_add 0x3EFFFFFF 0x3F000000 = 0x3F800000"
  "f32_add 0x3C23D70B 0 = 0x3C23D70B"
  "f32_add 0xC2C80000 0x43480000 = 0x42C80000"
  "f32_add 0x45B3759A 0x3F000000 = 0x45B3799A"
  "f32_add 0x4265B852 0xC2C80000 = 0xC22A47AE"
  "f32_add 0 0x4B000001 = 0x4B000001"
  "f32_add 0x4B000001 0x3F000000 = 0x4B000002"
  "f32_add 0x4B000001 0 = 0x4B000001"
  "f32_add 0 0x4B7FFFFF = 0x4B7FFFFF"
  "f32_add 0x4B7FFFFF 0x3F000000 = 0x4B800000"
  "f32_add 0x4B7FFFFF 0 = 0x4B7FFFFF"
  by ((rule f32_add_check; simp add: f32_literal)+)

lemma compat_of:
  "f32_of_u32 1000 = 0x447A0000"
  "f32_of_u32 500 = 0x43FA0000"
  "f32_of_u32 1 = 0x3F800000"
  "f32_of_u32 20000 = 0x469C4000"
  "f32_of_u32 5743 = 0x45B37800"
  "f32_of_u32 8388609 = 0x4B000001"
  "f32_of_u32 16777215 = 0x4B7FFFFF"
  by ((rule f32_of_u32_check; simp add: f32_literal)+)

lemma compat_mul:
  "f32_mul 0x3F000000 0x447A0000 = 0x43FA0000"
  "f32_mul 0x3F000000 0x41200000 = 0x40A00000"
  "f32_mul 0x3A03126E 0x447A0000 = 0x3EFFFFFF"
  "f32_mul 0x3A83126F 0x41200000 = 0x3C23D70B"
  "f32_mul 0x3E93035C 0x469C4000 = 0x45B3759A"
  "f32_mul 0x3E930553 0x43480000 = 0x4265B852"
  "f32_mul 0x3F800000 0x4B000001 = 0x4B000001"
  "f32_mul 0x3F800000 0x4B7FFFFF = 0x4B7FFFFF"
  by ((rule f32_mul_check; simp add: f32_literal)+)

lemma compat_floor:
  "floor_u32 0x43FA4000 = 500"
  "floor_u32 0x3F800000 = 1"
  "floor_u32 0x45B3799A = 5743"
  "floor_u32 0x4B000002 = 8388610"
  "floor_u32 0x4B800000 = 16777216"
  by (simp_all add: f32_literal)

lemmas compat_ops = compat_sub compat_div compat_le compat_less compat_ceil compat_BitsRequired compat_add compat_of compat_mul compat_floor

lemma compat_params:
  "compressedFloatParams 0 0x41200000 0x3C23D70A = (1000, 10, 0x41200000)"
  "compressedFloatParams 0xC2C80000 0x42C80000 0x3C23D70A = (20000, 15, 0x43480000)"
  "compressedFloatParams 0 0x4B000001 0x3F800000 = (8388609, 24, 0x4B000001)"
  "compressedFloatParams 0 0x4B7FFFFF 0x3F800000 = (16777215, 24, 0x4B7FFFFF)"
  by (simp_all add: compressedFloatParams_def Let_def compat_ops)

lemma compat_declarations:
  "ok_compressed 0 0x41200000 0x3C23D70A v \<longleftrightarrow> float32BitsAreFinite v"
  "ok_compressed 0xC2C80000 0x42C80000 0x3C23D70A v \<longleftrightarrow> float32BitsAreFinite v"
  "ok_compressed 0 0x4B000001 0x3F800000 v \<longleftrightarrow> float32BitsAreFinite v"
  "ok_compressed 0 0x4B7FFFFF 0x3F800000 v \<longleftrightarrow> float32BitsAreFinite v"
  by (simp_all add: ok_compressed_def compressedFloatDeclarationValid_def checkCompressedFloatDeclarationFinite_def Let_def
      compat_ops float32BitsAreFinite_def)

lemma compat_quantize:
  "quantize_float32 0x40A00000 1000 0x41200000 0 = 500"
  "quantize_float32 0x3BA3D70A 1000 0x41200000 0 = 1"
  "quantize_float32 0xC22A4AC1 20000 0x43480000 0xC2C80000 = 5743"
  "quantize_float32 0x4B000001 8388609 0x4B000001 0 = 8388609"
  "quantize_float32 0x4B7FFFFF 16777215 0x4B7FFFFF 0 = 16777215"
  by (simp_all add: quantize_float32_def Let_def compat_ops)

lemma compat_dequantize:
  "dequantize_float32 500 1000 0x41200000 0 = 0x40A00000"
  "dequantize_float32 1 1000 0x41200000 0 = 0x3C23D70B"
  "dequantize_float32 5743 20000 0x43480000 0xC2C80000 = 0xC22A47AE"
  "dequantize_float32 8388609 8388609 0x4B000001 0 = 0x4B000001"
  "dequantize_float32 16777215 16777215 0x4B7FFFFF 0 = 0x4B7FFFFF"
  by (simp_all add: dequantize_float32_def Let_def compat_ops)

section \<open>The constants\<close>

text \<open>
  The check on precomputed constants takes constants that no declaration derives: a step count
  above \<open>2 ^ 24\<close> that is derived is a float, so even, and 16777217 passes.
\<close>

lemma underivable_constants_accepted:
  "compressedFloatConstantsValid 16777217 25 0x3F800000 \<and> fst (compressedFloatParams mn mx resolution) \<noteq> 16777217"
proof
  have "f32_sub 0x3F800000 0x3F800000 = 0" by (simp add: f32_sub_def f32_add_def f32_literal f32_is_inf_def f32_make_def)
  then show "compressedFloatConstantsValid 16777217 25 0x3F800000"
    by (simp add: compressedFloatConstantsValid_def BitsRequired_def Len_def f32_literal)
  have "f32_of_u32 16777217 = 0x4B800000" by (rule f32_of_u32_check) (simp_all add: f32_literal)
  then have "f32_value (f32_of_u32 16777217) \<noteq> uint (16777217 :: u32) * 2 ^ 149" by (simp add: f32_literal)
  then show "fst (compressedFloatParams mn mx resolution) \<noteq> 16777217"
    using f32_of_step_count [of mn mx resolution] by (metis prod.collapse)
qed

text \<open>
  C38. The constants derived from any declaration, valid or not: the step count lies in
  [1,4294967040] (so its conversion to uint32 is in range), and the width is the least that holds
  it, in [1,32]. The check on precomputed constants accepts more than these: 16777217 steps pass it,
  and no declaration derives them.
\<close>

theorem compressed_float_constants:
  "(case compressedFloatParams mn mx resolution of (maxIntegerValue, bits, delta) \<Rightarrow>
     1 \<le> maxIntegerValue \<and> maxIntegerValue \<le> 4294967040 \<and> 1 \<le> bits \<and> bits \<le> 32
     \<and> (\<forall>n. bits \<le> n \<longleftrightarrow> unat maxIntegerValue < 2 ^ n) \<and> delta = f32_sub mx mn)
   \<and> compressedFloatConstantsValid 16777217 25 0x3F800000 \<and> fst (compressedFloatParams mn mx resolution) \<noteq> 16777217"
proof -
  obtain m n d where p: "compressedFloatParams mn mx resolution = (m, n, d)" by (metis prod_cases3)
  note B = compressedFloatParams_bounds [OF p]
  have "n \<le> k \<longleftrightarrow> unat m < 2 ^ k" for k
    using BitsRequired_compressed(3) [OF B(1)] Len_le_iff [of m k] unfolding B(3) by simp
  then show ?thesis using B BitsRequired_compressed(1,2) [OF B(1)] underivable_constants_accepted [of mn mx resolution] by (simp add: p)
qed

section \<open>Quantizing and decoding\<close>

text \<open>
  C19. The quantization of a conforming field: the code never passes the largest (the clamp that
  the rounded sum needs), the number converted to uint32 is in range, a greater value never gets a
  smaller code, a value at or below the minimum gets 0, and one at or above the maximum gets the largest
  code, for every number of steps: a step count above \<open>2 ^ 24\<close> is itself a float.
\<close>

theorem compressed_float_quantization:
  assumes "ok_compressed mn mx resolution v" and "ok_compressed mn mx resolution w"
    and "compressedFloatParams mn mx resolution = (maxIntegerValue, bits, delta)"
  shows "quantize_float32 v maxIntegerValue delta mn \<le> maxIntegerValue
    \<and> 0 \<le> f32_value (scaled v maxIntegerValue delta mn) div 2 ^ 149
    \<and> f32_value (scaled v maxIntegerValue delta mn) div 2 ^ 149 < 2 ^ 32
    \<and> (f32_value v \<le> f32_value w \<longrightarrow> quantize_float32 v maxIntegerValue delta mn \<le> quantize_float32 w maxIntegerValue delta mn)
    \<and> (f32_value v \<le> f32_value mn \<longrightarrow> quantize_float32 v maxIntegerValue delta mn = 0)
    \<and> (f32_value mx \<le> f32_value v \<longrightarrow> quantize_float32 v maxIntegerValue delta mn = maxIntegerValue)"
proof -
  note C = ok_compressed_constants [OF assms(1,3)]
  have "0 \<le> f32_value (scaled v maxIntegerValue delta mn) div 2 ^ 149"
    "f32_value (scaled v maxIntegerValue delta mn) div 2 ^ 149 \<le> 4294967040"
    using scaled_bounds(1,2) [OF C(2,1)] by (intro floor_between(1,2); simp)+
  then show ?thesis
    using quantize_le quantize_mono [OF C(2) ok_compressed_constants(2) [OF assms(2,3)] C(1)] quantize_low [OF C(2,1)]
      quantize_high [OF C(2,1) f32_of_step_count [OF assms(3)] C(6,5)] by (intro conjI impI) simp_all
qed

theorem compressed_float_quantization_witness:
  "quantize_float32 0x3BA3D70A 1000 0x41200000 0 \<le> quantize_float32 0x40A00000 1000 0x41200000 0"
  using compressed_float_quantization [OF _ _ compat_params(1), of "0x3BA3D70A" "0x40A00000"]
  by (simp add: compat_declarations float32BitsAreFinite_def f32_literal)

text \<open>
  C20. The decode of a conforming field: every code decodes to a finite float, in [min, min + delta]
  with delta and the sum rounded, a greater code never to a smaller float, and the two ends decode
  to the ends of that range.
\<close>

theorem compressed_float_decode:
  assumes "ok_compressed mn mx resolution v" and "compressedFloatParams mn mx resolution = (maxIntegerValue, bits, delta)"
    and "i \<le> maxIntegerValue" and "j \<le> i"
  defines "decode \<equiv> \<lambda>k. dequantize_float32 k maxIntegerValue delta mn"
  shows "float32BitsAreFinite (decode i) \<and> f32_value mn \<le> f32_value (decode i)
    \<and> f32_value (decode i) \<le> f32_value (f32_add mn delta) \<and> f32_value (decode j) \<le> f32_value (decode i)
    \<and> f32_value (decode 0) = f32_value mn \<and> f32_value (decode maxIntegerValue) = f32_value (f32_add mn delta)"
  using dequantize_bounds [OF ok_compressed_constants(1) [OF assms(1,2)] assms(3)] assms(4)
  by (simp add: decode_def float32BitsAreFinite_iff)

theorem compressed_float_decode_witness:
  "f32_value (dequantize_float32 1 1000 0x41200000 0) \<le> f32_value (dequantize_float32 500 1000 0x41200000 0)"
  using compressed_float_decode [OF _ compat_params(1), of "0x40A00000" 500 1] by (simp add: compat_declarations float32BitsAreFinite_def)

section \<open>The two entry points\<close>

text \<open>
  C21. On the constants that a conforming declaration derives, the precomputed entry point of each
  stream does exactly what the entry point that derives them does: the same writes and panics, the
  same reads and refusals, the same measure.
\<close>

theorem precomputed_is_derived:
  assumes "CompressedFloatParams mn mx resolution = Inr (maxIntegerValue, bits, delta)"
    and "checkCompressedFloatDeclarationFinite mn mx resolution = Inr ()"
  shows "WriteStream_SerializeCompressedFloat32Precomputed s v maxIntegerValue (int bits) delta mn
      = WriteStream_SerializeCompressedFloat32 s v mn mx resolution
    \<and> ReadStream_SerializeCompressedFloat32Precomputed r v maxIntegerValue (int bits) delta mn
      = ReadStream_SerializeCompressedFloat32 r v mn mx resolution
    \<and> MeasureStream_SerializeCompressedFloat32Precomputed m v maxIntegerValue (int bits) delta mn
      = MeasureStream_SerializeCompressedFloat32 m v mn mx resolution"
proof -
  have valid: "compressedFloatDeclarationValid mn mx resolution" and p: "compressedFloatParams mn mx resolution = (maxIntegerValue, bits, delta)"
    using assms(1) by (simp_all add: CompressedFloatParams_def split: if_splits)
  have "ok_compressed mn mx resolution 0" using valid assms(2) by (simp add: ok_compressed_def float32BitsAreFinite_def)
  note C = ok_compressed_constants [OF this p]
  have "f32_finite delta" "0 < f32_value delta" using C(1) by (simp_all add: ok_constants_def)
  then have "compressedFloatConstantsValid maxIntegerValue (int bits) delta"
    using compressedFloatParams_bounds [OF p] f32_sub_value [of delta delta]
    by (auto simp: compressedFloatConstantsValid_def f32_less_def f32_eq_def f32_is_nan_def [of 0])
  moreover have "float32BitsAreFinite (f32_add mn delta)" using C(1) by (simp add: ok_constants_def float32BitsAreFinite_iff)
  ultimately show ?thesis
    using assms valid p
    by (simp add: WriteStream_SerializeCompressedFloat32Precomputed_def WriteStream_SerializeCompressedFloat32_def
        ReadStream_SerializeCompressedFloat32Precomputed_def ReadStream_SerializeCompressedFloat32_def
        MeasureStream_SerializeCompressedFloat32Precomputed_def MeasureStream_SerializeCompressedFloat32_def
        validateCompressedFloatConstants_def)
qed

theorem precomputed_is_derived_witness:
  "MeasureStream_SerializeCompressedFloat32Precomputed (NewMeasureStream :: unit measure_stream) 0x40A00000 1000 10 0x41200000 0
    = MeasureStream_SerializeCompressedFloat32 NewMeasureStream 0x40A00000 0 0x41200000 0x3C23D70A"
  using precomputed_is_derived [where mn = 0 and mx = "0x41200000" and resolution = "0x3C23D70A" and maxIntegerValue = 1000
      and bits = 10 and delta = "0x41200000" and v = "0x40A00000" and m = "NewMeasureStream :: unit measure_stream", THEN conjunct2, THEN conjunct2]
    compat_declarations(1) [of 0]
  by (simp add: CompressedFloatParams_def compat_params ok_compressed_def float32BitsAreFinite_def)

end
