(* ===== verification/Field_Ops.thy ===== *)
theory Field_Ops
  imports Compressed_Ops
begin

text \<open>
  The serialize methods of the \<open>Stream\<close> interface (stream.go) as data: a \<open>field\<close> is one call, its
  declaration and the value of its destination. The three streams run a field each in its own
  way; \<open>ok_field\<close>, \<open>wire_field\<close> and \<open>dec_of\<close> gather the specification. The lemmas put the contracts
  of the operations together: one per stream.
\<close>

section \<open>Fields\<close>

datatype field =
    FBits u32 int
  | FBits64 u64 int
  | FInt i32 i32 i32
  | FInt64 i64 i64 i64
  | FInt128 int128 int128 int128
  | FUint128 uint128
  | FFixed64 i64 int int i64 i64
  | FFixed128 int128 int int i64 i64
  | FUint8 u8
  | FUint16 u16
  | FUint32 u32
  | FUint64 u64
  | FBool bool
  | FFloat32 u32
  | FFloat64 u64
  | FBytes "u8 list"
  | FString "u8 list" int
  | FAlign
  | FIntRelative i32 i32
  | FCompressedFloat32 f32 f32 f32 f32
  | FCompressedFloat32Precomputed f32 u32 int f32 f32

fun write_field :: "field \<Rightarrow> 'c write_stream \<Rightarrow> 'c write_stream res" where
  "write_field (FBits v n) s = WriteStream_SerializeBits s v n"
| "write_field (FBits64 v n) s = WriteStream_SerializeBits64 s v n"
| "write_field (FInt v mn mx) s = WriteStream_SerializeInt s v mn mx"
| "write_field (FInt64 v mn mx) s = WriteStream_SerializeInt64 s v mn mx"
| "write_field (FInt128 v mn mx) s = WriteStream_SerializeInt128 s v mn mx"
| "write_field (FUint128 v) s = WriteStream_SerializeUint128 s v"
| "write_field (FFixed64 v ib fb mn mx) s = WriteStream_SerializeFixed64 s v ib fb mn mx"
| "write_field (FFixed128 v ib fb mn mx) s = WriteStream_SerializeFixed128 s v ib fb mn mx"
| "write_field (FUint8 v) s = WriteStream_SerializeUint8 s v"
| "write_field (FUint16 v) s = WriteStream_SerializeUint16 s v"
| "write_field (FUint32 v) s = WriteStream_SerializeUint32 s v"
| "write_field (FUint64 v) s = WriteStream_SerializeUint64 s v"
| "write_field (FBool v) s = WriteStream_SerializeBool s v"
| "write_field (FFloat32 v) s = WriteStream_SerializeFloat32 s v"
| "write_field (FFloat64 v) s = WriteStream_SerializeFloat64 s v"
| "write_field (FBytes v) s = WriteStream_SerializeBytes s v"
| "write_field (FString v n) s = WriteStream_SerializeString s v n"
| "write_field FAlign s = WriteStream_SerializeAlign s"
| "write_field (FIntRelative previous v) s = WriteStream_SerializeIntRelative s previous v"
| "write_field (FCompressedFloat32 v mn mx resolution) s = WriteStream_SerializeCompressedFloat32 s v mn mx resolution"
| "write_field (FCompressedFloat32Precomputed v maxIntegerValue bits delta mn) s =
     WriteStream_SerializeCompressedFloat32Precomputed s v maxIntegerValue bits delta mn"

fun measure_field :: "field \<Rightarrow> 'c measure_stream \<Rightarrow> 'c measure_stream res" where
  "measure_field (FBits v n) s = MeasureStream_SerializeBits s v n"
| "measure_field (FBits64 v n) s = MeasureStream_SerializeBits64 s v n"
| "measure_field (FInt v mn mx) s = MeasureStream_SerializeInt s v mn mx"
| "measure_field (FInt64 v mn mx) s = MeasureStream_SerializeInt64 s v mn mx"
| "measure_field (FInt128 v mn mx) s = MeasureStream_SerializeInt128 s v mn mx"
| "measure_field (FUint128 v) s = MeasureStream_SerializeUint128 s v"
| "measure_field (FFixed64 v ib fb mn mx) s = MeasureStream_SerializeFixed64 s v ib fb mn mx"
| "measure_field (FFixed128 v ib fb mn mx) s = MeasureStream_SerializeFixed128 s v ib fb mn mx"
| "measure_field (FUint8 v) s = MeasureStream_SerializeUint8 s v"
| "measure_field (FUint16 v) s = MeasureStream_SerializeUint16 s v"
| "measure_field (FUint32 v) s = MeasureStream_SerializeUint32 s v"
| "measure_field (FUint64 v) s = MeasureStream_SerializeUint64 s v"
| "measure_field (FBool v) s = MeasureStream_SerializeBool s v"
| "measure_field (FFloat32 v) s = MeasureStream_SerializeFloat32 s v"
| "measure_field (FFloat64 v) s = MeasureStream_SerializeFloat64 s v"
| "measure_field (FBytes v) s = MeasureStream_SerializeBytes s v"
| "measure_field (FString v n) s = MeasureStream_SerializeString s v n"
| "measure_field FAlign s = MeasureStream_SerializeAlign s"
| "measure_field (FIntRelative previous v) s = MeasureStream_SerializeIntRelative s previous v"
| "measure_field (FCompressedFloat32 v mn mx resolution) s = MeasureStream_SerializeCompressedFloat32 s v mn mx resolution"
| "measure_field (FCompressedFloat32Precomputed v maxIntegerValue bits delta mn) s =
     MeasureStream_SerializeCompressedFloat32Precomputed s v maxIntegerValue bits delta mn"

text \<open>A read delivers into the field it was called for.\<close>

definition into :: "('v \<Rightarrow> field) \<Rightarrow> ('c, 'v) read_result \<Rightarrow> ('c, field) read_result" where
  "into c r = andThen r (\<lambda>(s, v, err). Inr (s, c v, err))"

fun read_field :: "'c read_stream \<Rightarrow> field \<Rightarrow> ('c, field) read_result" where
  "read_field s (FBits v n) = into (\<lambda>v. FBits v n) (ReadStream_SerializeBits s v n)"
| "read_field s (FBits64 v n) = into (\<lambda>v. FBits64 v n) (ReadStream_SerializeBits64 s v n)"
| "read_field s (FInt v mn mx) = into (\<lambda>v. FInt v mn mx) (ReadStream_SerializeInt s v mn mx)"
| "read_field s (FInt64 v mn mx) = into (\<lambda>v. FInt64 v mn mx) (ReadStream_SerializeInt64 s v mn mx)"
| "read_field s (FInt128 v mn mx) = into (\<lambda>v. FInt128 v mn mx) (ReadStream_SerializeInt128 s v mn mx)"
| "read_field s (FUint128 v) = into FUint128 (ReadStream_SerializeUint128 s v)"
| "read_field s (FFixed64 v ib fb mn mx) = into (\<lambda>v. FFixed64 v ib fb mn mx) (ReadStream_SerializeFixed64 s v ib fb mn mx)"
| "read_field s (FFixed128 v ib fb mn mx) = into (\<lambda>v. FFixed128 v ib fb mn mx) (ReadStream_SerializeFixed128 s v ib fb mn mx)"
| "read_field s (FUint8 v) = into FUint8 (ReadStream_SerializeUint8 s v)"
| "read_field s (FUint16 v) = into FUint16 (ReadStream_SerializeUint16 s v)"
| "read_field s (FUint32 v) = into FUint32 (ReadStream_SerializeUint32 s v)"
| "read_field s (FUint64 v) = into FUint64 (ReadStream_SerializeUint64 s v)"
| "read_field s (FBool v) = into FBool (ReadStream_SerializeBool s v)"
| "read_field s (FFloat32 v) = into FFloat32 (ReadStream_SerializeFloat32 s v)"
| "read_field s (FFloat64 v) = into FFloat64 (ReadStream_SerializeFloat64 s v)"
| "read_field s (FBytes v) = into FBytes (ReadStream_SerializeBytes s v)"
| "read_field s (FString v n) = into (\<lambda>v. FString v n) (ReadStream_SerializeString s v n)"
| "read_field s FAlign = into (\<lambda>_. FAlign) (no_value ReadStream_SerializeAlign s ())"
| "read_field s (FIntRelative previous v) = into (FIntRelative previous) (ReadStream_SerializeIntRelative s previous v)"
| "read_field s (FCompressedFloat32 v mn mx resolution) =
     into (\<lambda>v. FCompressedFloat32 v mn mx resolution) (ReadStream_SerializeCompressedFloat32 s v mn mx resolution)"
| "read_field s (FCompressedFloat32Precomputed v maxIntegerValue bits delta mn) =
     into (\<lambda>v. FCompressedFloat32Precomputed v maxIntegerValue bits delta mn)
       (ReadStream_SerializeCompressedFloat32Precomputed s v maxIntegerValue bits delta mn)"

section \<open>Their specification\<close>

text \<open>Conforming fields, and their encodings at a bit position.\<close>

fun ok_field :: "field \<Rightarrow> bool" where
  "ok_field (FBits v n) = ok_bits n v"
| "ok_field (FBits64 v n) = ok_bits64 n v"
| "ok_field (FInt v mn mx) = ok_int mn mx v"
| "ok_field (FInt64 v mn mx) = ok_int64 mn mx v"
| "ok_field (FInt128 v mn mx) = ok_int128 mn mx v"
| "ok_field (FFixed64 v ib fb mn mx) = ok_fixed64 ib fb mn mx v"
| "ok_field (FFixed128 v ib fb mn mx) = ok_fixed128 ib fb mn mx v"
| "ok_field (FFloat32 v) = float32BitsAreFinite v"
| "ok_field (FFloat64 v) = float64BitsAreFinite v"
| "ok_field (FString v n) = ok_string n v"
| "ok_field (FIntRelative previous v) = ok_int_relative previous v"
| "ok_field (FCompressedFloat32 v mn mx resolution) = ok_compressed mn mx resolution v"
| "ok_field (FCompressedFloat32Precomputed v maxIntegerValue bits delta mn) = ok_precomputed maxIntegerValue bits delta mn v"
| "ok_field _ = True"

text \<open>
  A field as it travels: a compressed float's value is replaced by the integer it quantizes to
  (both are 32 bit patterns), every other field travels as it is. \<open>deliver\<close> is the reader's way back.
\<close>

fun code :: "field \<Rightarrow> field" where
  "code (FCompressedFloat32 v mn mx resolution) =
     (let (maxIntegerValue, bits, delta) = compressedFloatParams mn mx resolution
      in FCompressedFloat32 (quantize_float32 v maxIntegerValue delta mn) mn mx resolution)"
| "code (FCompressedFloat32Precomputed v maxIntegerValue bits delta mn) =
     FCompressedFloat32Precomputed (quantize_float32 v maxIntegerValue delta mn) maxIntegerValue bits delta mn"
| "code f = f"

fun deliver :: "field \<Rightarrow> field" where
  "deliver (FCompressedFloat32 i mn mx resolution) =
     (let (maxIntegerValue, bits, delta) = compressedFloatParams mn mx resolution
      in FCompressedFloat32 (dequantize_float32 i maxIntegerValue delta mn) mn mx resolution)"
| "deliver (FCompressedFloat32Precomputed i maxIntegerValue bits delta mn) =
     FCompressedFloat32Precomputed (dequantize_float32 i maxIntegerValue delta mn) maxIntegerValue bits delta mn"
| "deliver f = f"

text \<open>What a reader hands back for a field written: every exact field itself.\<close>

definition recovered :: "field \<Rightarrow> field" where
  "recovered f = deliver (code f)"

fun exact :: "field \<Rightarrow> bool" where
  "exact (FCompressedFloat32 v mn mx resolution) = False"
| "exact (FCompressedFloat32Precomputed v maxIntegerValue bits delta mn) = False"
| "exact f = True"

text \<open>Conforming fields in travelling form, and what holds of every field delivered.\<close>

fun ok_code :: "field \<Rightarrow> bool" where
  "ok_code (FCompressedFloat32 i mn mx resolution) \<longleftrightarrow>
     compressedFloatDeclarationValid mn mx resolution
     \<and> (let (maxIntegerValue, bits, delta) = compressedFloatParams mn mx resolution in ok_float_code maxIntegerValue delta mn i)"
| "ok_code (FCompressedFloat32Precomputed i maxIntegerValue bits delta mn) \<longleftrightarrow>
     compressedFloatConstantsValid maxIntegerValue bits delta \<and> ok_float_code maxIntegerValue delta mn i"
| "ok_code f \<longleftrightarrow> ok_field f"

fun ok_delivered :: "field \<Rightarrow> bool" where
  "ok_delivered (FCompressedFloat32 v mn mx resolution) \<longleftrightarrow>
     compressedFloatDeclarationValid mn mx resolution \<and> float32BitsAreFinite v"
| "ok_delivered (FCompressedFloat32Precomputed v maxIntegerValue bits delta mn) \<longleftrightarrow>
     compressedFloatConstantsValid maxIntegerValue bits delta \<and> float32BitsAreFinite v"
| "ok_delivered f \<longleftrightarrow> ok_field f"

fun wire_code :: "field \<Rightarrow> nat \<Rightarrow> bool list" where
  "wire_code (FBits v n) p = bits_of (nat n) v"
| "wire_code (FBits64 v n) p = bits_of (nat n) v"
| "wire_code (FInt v mn mx) p = wire_int mn mx v"
| "wire_code (FInt64 v mn mx) p = wire_int64 mn mx v"
| "wire_code (FInt128 v mn mx) p = wire_int128 mn mx v"
| "wire_code (FUint128 v) p = bits_of 128 (u128 v)"
| "wire_code (FFixed64 v ib fb mn mx) p = wire_fixed64 ib fb mn mx v"
| "wire_code (FFixed128 v ib fb mn mx) p = wire_fixed128 ib fb mn mx v"
| "wire_code (FUint8 v) p = bits_of 8 v"
| "wire_code (FUint16 v) p = bits_of 16 v"
| "wire_code (FUint32 v) p = bits_of 32 v"
| "wire_code (FUint64 v) p = bits_of 64 v"
| "wire_code (FBool v) p = [v]"
| "wire_code (FFloat32 v) p = bits_of 32 v"
| "wire_code (FFloat64 v) p = bits_of 64 v"
| "wire_code (FBytes v) p = wire_bytes v p"
| "wire_code (FString v n) p = wire_string n v p"
| "wire_code FAlign p = wire_align p"
| "wire_code (FIntRelative previous v) p = wire_int_relative previous v"
| "wire_code (FCompressedFloat32 i mn mx resolution) p =
     (let (maxIntegerValue, bits, delta) = compressedFloatParams mn mx resolution in bits_of bits i)"
| "wire_code (FCompressedFloat32Precomputed i maxIntegerValue bits delta mn) p = bits_of (nat bits) i"

definition wire_field :: "field \<Rightarrow> nat \<Rightarrow> bool list" where
  "wire_field f p = wire_code (code f) p"

text \<open>The declaration of a field, with its value blanked; a byte destination keeps its length.\<close>

fun shape :: "field \<Rightarrow> field" where
  "shape (FBits v n) = FBits 0 n"
| "shape (FBits64 v n) = FBits64 0 n"
| "shape (FInt v mn mx) = FInt 0 mn mx"
| "shape (FInt64 v mn mx) = FInt64 0 mn mx"
| "shape (FInt128 v mn mx) = FInt128 (Int128 0 0) mn mx"
| "shape (FUint128 v) = FUint128 (Uint128 0 0)"
| "shape (FFixed64 v ib fb mn mx) = FFixed64 0 ib fb mn mx"
| "shape (FFixed128 v ib fb mn mx) = FFixed128 (Int128 0 0) ib fb mn mx"
| "shape (FUint8 v) = FUint8 0"
| "shape (FUint16 v) = FUint16 0"
| "shape (FUint32 v) = FUint32 0"
| "shape (FUint64 v) = FUint64 0"
| "shape (FBool v) = FBool False"
| "shape (FFloat32 v) = FFloat32 0"
| "shape (FFloat64 v) = FFloat64 0"
| "shape (FBytes v) = FBytes (replicate (length v) 0)"
| "shape (FString v n) = FString [] n"
| "shape FAlign = FAlign"
| "shape (FIntRelative previous v) = FIntRelative previous 0"
| "shape (FCompressedFloat32 v mn mx resolution) = FCompressedFloat32 0 mn mx resolution"
| "shape (FCompressedFloat32Precomputed v maxIntegerValue bits delta mn) = FCompressedFloat32Precomputed 0 maxIntegerValue bits delta mn"

fun dec_code :: "field \<Rightarrow> field decoder" where
  "dec_code (FBits v n) = dec_map (\<lambda>v. FBits v n) (dec_bits n)"
| "dec_code (FBits64 v n) = dec_map (\<lambda>v. FBits64 v n) (dec_bits64 n)"
| "dec_code (FInt v mn mx) = dec_map (\<lambda>v. FInt v mn mx) (dec_range mn mx)"
| "dec_code (FInt64 v mn mx) = dec_map (\<lambda>v. FInt64 v mn mx) (dec_range mn mx)"
| "dec_code (FInt128 v mn mx) = dec_map (\<lambda>v. FInt128 v mn mx) (dec_int128 mn mx)"
| "dec_code (FUint128 v) = dec_map FUint128 dec_uint128"
| "dec_code (FFixed64 v ib fb mn mx) = dec_map (\<lambda>v. FFixed64 v ib fb mn mx) (dec_fixed64 ib fb mn mx)"
| "dec_code (FFixed128 v ib fb mn mx) = dec_map (\<lambda>v. FFixed128 v ib fb mn mx) (dec_fixed128 ib fb mn mx)"
| "dec_code (FUint8 v) = dec_map FUint8 (dec_field 8 (\<lambda>u :: u32. Inr (ucast u)))"
| "dec_code (FUint16 v) = dec_map FUint16 (dec_field 16 (\<lambda>u :: u32. Inr (ucast u)))"
| "dec_code (FUint32 v) = dec_map FUint32 (dec_field 32 Inr)"
| "dec_code (FUint64 v) = dec_map FUint64 (dec_field 64 Inr)"
| "dec_code (FBool v) = dec_map FBool dec_bool"
| "dec_code (FFloat32 v) = dec_map FFloat32 dec_float32"
| "dec_code (FFloat64 v) = dec_map FFloat64 dec_float64"
| "dec_code (FBytes v) = dec_map FBytes (dec_bytes (length v))"
| "dec_code (FString v n) = dec_map (\<lambda>v. FString v n) (dec_string n)"
| "dec_code FAlign = dec_map (\<lambda>_. FAlign) dec_align"
| "dec_code (FIntRelative previous v) = dec_map (FIntRelative previous) (dec_int_relative previous)"
| "dec_code (FCompressedFloat32 v mn mx resolution) =
     dec_map (\<lambda>i. FCompressedFloat32 i mn mx resolution) (dec_compressed_code mn mx resolution)"
| "dec_code (FCompressedFloat32Precomputed v maxIntegerValue bits delta mn) =
     dec_map (\<lambda>i. FCompressedFloat32Precomputed i maxIntegerValue bits delta mn) (dec_precomputed_code maxIntegerValue bits delta mn)"

definition dec_of :: "field \<Rightarrow> field decoder" where
  "dec_of d = dec_map deliver (dec_code d)"

lemma dec_map_map: "dec_map c (dec_map c' d) = dec_map (\<lambda>x. c (c' x)) d"
  by (simp add: dec_map_def fun_eq_iff split: sum.splits)

lemma dec_of_exact: "exact d \<Longrightarrow> dec_of d = dec_code d"
  by (cases d) (simp_all add: dec_of_def dec_map_map)

text \<open>The bit counts of a Q format are values of Go's \<open>int\<close>; every field of a Go program is typed.\<close>

fun typed :: "field \<Rightarrow> bool" where
  "typed (FFixed128 v ib fb mn mx) \<longleftrightarrow> go_int ib \<and> go_int fb"
| "typed _ \<longleftrightarrow> True"

lemma shape_iff:
  "shape f = FBits 0 n \<longleftrightarrow> (\<exists>x. f = FBits x n)"
  "shape f = FBits64 0 n \<longleftrightarrow> (\<exists>x. f = FBits64 x n)"
  "shape f = FInt 0 mn mx \<longleftrightarrow> (\<exists>x. f = FInt x mn mx)"
  "shape f = FInt64 0 mn64 mx64 \<longleftrightarrow> (\<exists>x. f = FInt64 x mn64 mx64)"
  "shape f = FInt128 (Int128 0 0) mn128 mx128 \<longleftrightarrow> (\<exists>x. f = FInt128 x mn128 mx128)"
  "shape f = FUint128 (Uint128 0 0) \<longleftrightarrow> (\<exists>x. f = FUint128 x)"
  "shape f = FFixed64 0 ib fb mn64 mx64 \<longleftrightarrow> (\<exists>x. f = FFixed64 x ib fb mn64 mx64)"
  "shape f = FFixed128 (Int128 0 0) ib fb mn64 mx64 \<longleftrightarrow> (\<exists>x. f = FFixed128 x ib fb mn64 mx64)"
  "shape f = FUint8 0 \<longleftrightarrow> (\<exists>x. f = FUint8 x)"
  "shape f = FUint16 0 \<longleftrightarrow> (\<exists>x. f = FUint16 x)"
  "shape f = FUint32 0 \<longleftrightarrow> (\<exists>x. f = FUint32 x)"
  "shape f = FUint64 0 \<longleftrightarrow> (\<exists>x. f = FUint64 x)"
  "shape f = FBool False \<longleftrightarrow> (\<exists>x. f = FBool x)"
  "shape f = FFloat32 0 \<longleftrightarrow> (\<exists>x. f = FFloat32 x)"
  "shape f = FFloat64 0 \<longleftrightarrow> (\<exists>x. f = FFloat64 x)"
  "shape f = FBytes (replicate k 0) \<longleftrightarrow> (\<exists>x. f = FBytes x \<and> length x = k)"
  "shape f = FString [] n \<longleftrightarrow> (\<exists>x. f = FString x n)"
  "shape f = FAlign \<longleftrightarrow> f = FAlign"
  "shape f = FIntRelative previous 0 \<longleftrightarrow> (\<exists>x. f = FIntRelative previous x)"
  "shape f = FCompressedFloat32 0 fmn fmx res \<longleftrightarrow> (\<exists>x. f = FCompressedFloat32 x fmn fmx res)"
  "shape f = FCompressedFloat32Precomputed 0 m ib d fmn \<longleftrightarrow> (\<exists>x. f = FCompressedFloat32Precomputed x m ib d fmn)"
  by (cases f; auto)+

lemma shape_typed: "shape f = shape g \<Longrightarrow> typed f \<longleftrightarrow> typed g"
  by (cases g) (auto simp: shape_iff)

lemma shape_dec_code: "shape f = shape g \<Longrightarrow> dec_code f = dec_code g"
  by (cases g) (auto simp: shape_iff)

lemma shape_dec: "shape f = shape g \<Longrightarrow> dec_of f = dec_of g"
  unfolding dec_of_def by (drule shape_dec_code) (simp only:)

lemma shape_exact: "shape f = shape g \<Longrightarrow> exact f \<longleftrightarrow> exact g"
  by (cases g) (auto simp: shape_iff)

lemma shape_code [simp]: "shape (code f) = shape f"
  by (cases f) (simp_all add: Let_def split: prod.splits)

lemma shape_deliver [simp]: "shape (deliver f) = shape f"
  by (cases f) (simp_all add: Let_def split: prod.splits)

lemma shape_recovered [simp]: "shape (recovered f) = shape f"
  by (simp add: recovered_def)

lemma exact_simps:
  "exact f \<Longrightarrow> code f = f" "exact f \<Longrightarrow> deliver f = f" "exact f \<Longrightarrow> ok_code f = ok_field f" "exact f \<Longrightarrow> ok_delivered f = ok_field f"
  "exact f \<Longrightarrow> recovered f = f"
  by (cases f; simp add: recovered_def)+

lemma ok_code_code: "ok_field f \<Longrightarrow> ok_code (code f)"
proof (cases f)
  case (FCompressedFloat32 v mn mx resolution)
  obtain m n d where p: "compressedFloatParams mn mx resolution = (m, n, d)" by (metis prod_cases3)
  assume "ok_field f"
  then have ok: "ok_compressed mn mx resolution v" using FCompressedFloat32 by simp
  then show ?thesis
    using quantize_code [OF ok_compressed_constants(1) [OF ok p]] by (simp add: FCompressedFloat32 p ok_compressed_def)
next
  case (FCompressedFloat32Precomputed v m n d mn)
  assume "ok_field f"
  then have ok: "ok_precomputed m n d mn v" using FCompressedFloat32Precomputed by simp
  then show ?thesis
    using quantize_code [OF ok_precomputed_constants(1) [OF ok]] by (simp add: FCompressedFloat32Precomputed ok_precomputed_def)
qed simp_all

lemma ok_deliver: "ok_code f \<Longrightarrow> ok_delivered (deliver f)"
  by (cases f) (simp_all add: ok_float_code_def Let_def split: prod.splits)

section \<open>Writing a field\<close>

lemma write_field_emits:
  assumes "ok_field f"
  shows "emits (write_field f) (wire_field f)"
proof -
  have "emits (\<lambda>s. write_field f s) (\<lambda>p. wire_field f p)"
  proof (cases f)
    case (FCompressedFloat32 v mn mx resolution)
    obtain m n d where p: "compressedFloatParams mn mx resolution = (m, n, d)" by (metis prod_cases3)
    show ?thesis
      using SerializeCompressedFloat32_emits [OF _ p, of v] assms by (simp add: FCompressedFloat32 wire_field_def p)
  qed (use assms in \<open>simp_all add: wire_field_def SerializeCompressedFloat32Precomputed_emits SerializeBits_emits SerializeBits64_emits SerializeInt_emits SerializeInt64_emits SerializeInt128_emits
        SerializeUint128_emits SerializeFixed64_emits SerializeFixed128_emits SerializeUint8_emits SerializeUint16_emits
        SerializeUint32_emits SerializeUint64_emits SerializeBool_emits SerializeFloat32_emits SerializeFloat64_emits
        SerializeBytes_emits SerializeString_emits SerializeAlign_emits SerializeIntRelative_emits\<close>)
  then show ?thesis .
qed

section \<open>Measuring a field\<close>

text \<open>What a measure counts: the bits of the encoding, with every alignment taken as seven.\<close>

fun measured :: "field \<Rightarrow> nat" where
  "measured (FBytes v) = 7 + 8 * length v"
| "measured (FString v n) = Len (word_of_int (n - 1) :: u32) + 7 + 8 * length v"
| "measured FAlign = 7"
| "measured f = length (wire_field f 0)"

lemma measure_field_checked:
  assumes "typed f"
  shows "checked (ok_field f) (measured f) (measure_field f) (write_field f)"
proof -
  have "checked (ok_field f) (measured f) (\<lambda>m. measure_field f m) (\<lambda>s. write_field f s)"
  proof (cases f)
    case (FFixed64 v ib fb mn mx)
    obtain rawMin rawRange n where p: "fixedPointParams64 ib fb mn mx = (rawMin, rawRange, n)" by (metis prod_cases3)
    show ?thesis using SerializeFixed64_checked [OF p, of v] by (simp add: FFixed64 wire_field_def wire_fixed64_def p)
  next
    case (FFixed128 v ib fb mn mx)
    obtain rawMin rawRange n where p: "fixedPointParams128 ib fb mn mx = (rawMin, rawRange, n)" by (metis prod_cases3)
    show ?thesis using SerializeFixed128_checked [OF p, of v] assms by (simp add: FFixed128 wire_field_def wire_fixed128_def p)
  next
    case (FString t n)
    show ?thesis using SerializeString_checked [of n t] by (simp add: FString)
  next
    case (FCompressedFloat32 v mn mx resolution)
    obtain m n d where p: "compressedFloatParams mn mx resolution = (m, n, d)" by (metis prod_cases3)
    show ?thesis using SerializeCompressedFloat32_checked [OF p, of v] by (simp add: FCompressedFloat32 wire_field_def p)
  qed (simp_all add: wire_field_def SerializeCompressedFloat32Precomputed_checked SerializeBits_checked SerializeBits64_checked SerializeInt_checked SerializeInt64_checked
      SerializeInt128_checked SerializeFloat32_checked SerializeFloat64_checked SerializeString_checked
      SerializeIntRelative_checked wire_int_def wire_int64_def wire_int128_def checked_free
      MeasureStream_SerializeUint128_def MeasureStream_SerializeUint8_def MeasureStream_SerializeUint16_def
      MeasureStream_SerializeUint32_def MeasureStream_SerializeUint64_def MeasureStream_SerializeBool_def
      MeasureStream_SerializeBytes_def MeasureStream_SerializeAlign_def MeasureStream_AlignBits_def mult.commute)
  then show ?thesis .
qed

fun aligns :: "field \<Rightarrow> bool" where
  "aligns (FBytes v) = True"
| "aligns (FString v n) = True"
| "aligns FAlign = True"
| "aligns _ = False"

lemma align_len_le7: "align_len p \<le> 7"
  using mod_less_divisor [of 8 "8 - p mod 8"] unfolding align_len_def by linarith

lemma measured_bounds:
  "length (wire_field f p) \<le> measured f"
  "measured f \<le> length (wire_field f p) + (if aligns f then 7 else 0)"
proof -
  note a = align_len_le7
  show "length (wire_field f p) \<le> measured f"
    by (cases f) (simp_all add: wire_field_def wire_bytes_def wire_string_def Let_def a wire_int_def wire_int64_def wire_int128_def wire_fixed64_def wire_fixed128_def split: prod.splits)
  show "measured f \<le> length (wire_field f p) + (if aligns f then 7 else 0)"
    by (cases f) (simp_all add: wire_field_def wire_bytes_def wire_string_def Let_def wire_int_def wire_int64_def wire_int128_def wire_fixed64_def wire_fixed128_def split: prod.splits)
qed

section \<open>Reading a field\<close>

lemma follows_into:
  "follows s v r d \<Longrightarrow> follows s (c v) (into c r) (case d of Inl e \<Rightarrow> Inl e | Inr (x, n) \<Rightarrow> Inr (c x, n))"
  by (auto simp: follows_def into_def split: sum.splits)

lemma into_follows:
  assumes "reads pre run d" and "br_inv (rs_reader s)" and "rs_err s = None" and "pre (rs_pos s) v"
  shows "follows s (c v) (into c (run s v)) (dec_map c d (rs_pos s) (rs_rest s))"
  unfolding dec_map_def by (rule follows_into [OF reads0D [OF readsD(2) [OF assms(1)] assms(2-4)]])

lemma into_terminal: "reads pre run d \<Longrightarrow> rs_err s \<noteq> None \<Longrightarrow> into c (run s v) = Inr (s, c v, rs_err s)"
  by (simp add: reads_def terminal_def into_def)

lemmas operation_reads = SerializeBits_reads SerializeBits64_reads SerializeInt_reads SerializeInt64_reads SerializeInt128_reads
  SerializeUint128_reads SerializeFixed64_reads SerializeUint8_reads SerializeUint16_reads SerializeUint32_reads SerializeUint64_reads
  SerializeBool_reads SerializeFloat32_reads SerializeFloat64_reads SerializeString_reads SerializeAlign_reads SerializeIntRelative_reads
  SerializeCompressedFloat32Precomputed_reads

lemmas operation_follows = operation_reads [where pre = "\<lambda>_ _. True", THEN into_follows]

lemmas operation_terminal = operation_reads [where pre = "\<lambda>_ _. True", THEN into_terminal]

lemma read_field_follows:
  assumes "typed f" and "br_inv (rs_reader s)" and "rs_err s = None"
  shows "follows s f (read_field s f) (dec_of f (rs_pos s) (rs_rest s))"
proof (cases f)
  case (FBytes v)
  show ?thesis using into_follows [OF SerializeBytes_reads assms(2,3), where v = v and c = FBytes] by (simp add: FBytes dec_of_exact)
next
  case (FCompressedFloat32 v mn mx resolution)
  obtain m n d where p: "compressedFloatParams mn mx resolution = (m, n, d)" by (metis prod_cases3)
  show ?thesis
    using into_follows [OF SerializeCompressedFloat32_reads [OF p] assms(2,3), where pre = "\<lambda>_ _. True" and v = v
        and c = "\<lambda>v. FCompressedFloat32 v mn mx resolution"] by (simp add: FCompressedFloat32 dec_of_def dec_map_map p)
next
  case (FCompressedFloat32Precomputed v m n d mn)
  show ?thesis
    using into_follows [OF SerializeCompressedFloat32Precomputed_reads assms(2,3), where pre = "\<lambda>_ _. True" and v = v
        and c = "\<lambda>v. FCompressedFloat32Precomputed v m n d mn"] by (simp add: FCompressedFloat32Precomputed dec_of_def dec_map_map)
next
  case (FFixed128 v ib fb mn mx)
  then have "go_int ib" "go_int fb" using assms(1) by simp_all
  from into_follows [OF SerializeFixed128_reads [OF this] assms(2,3), where pre = "\<lambda>_ _. True" and v = v
      and c = "\<lambda>v. FFixed128 v ib fb mn mx"] show ?thesis by (simp add: FFixed128 dec_of_exact)
next
  case FAlign
  show ?thesis using into_follows [OF SerializeAlign_reads assms(2,3), where v = "()" and c = "\<lambda>_. FAlign"] by (simp add: FAlign dec_of_exact)
qed (simp only: read_field.simps exact.simps dec_of_exact dec_code.simps, rule operation_follows, (rule assms(2) assms(3) TrueI)+)+

lemma read_field_terminal:
  assumes "rs_err s \<noteq> None" and "typed f"
  shows "read_field s f = Inr (s, f, rs_err s)"
proof (cases f)
  case (FBytes v)
  show ?thesis using into_terminal [OF SerializeBytes_reads assms(1)] by (simp add: FBytes)
next
  case (FCompressedFloat32 v mn mx resolution)
  obtain m n d where p: "compressedFloatParams mn mx resolution = (m, n, d)" by (metis prod_cases3)
  show ?thesis
    using into_terminal [OF SerializeCompressedFloat32_reads [OF p] assms(1), where c = "\<lambda>v. FCompressedFloat32 v mn mx resolution"] by (simp add: FCompressedFloat32)
next
  case (FFixed128 v ib fb mn mx)
  then have "go_int ib" "go_int fb" using assms(2) by simp_all
  from into_terminal [OF SerializeFixed128_reads [OF this] assms(1), where c = "\<lambda>v. FFixed128 v ib fb mn mx" and v = v] show ?thesis by (simp add: FFixed128)
next
  case FAlign
  show ?thesis using into_terminal [OF SerializeAlign_reads assms(1), of "\<lambda>_. FAlign" "()"] by (simp add: FAlign)
qed (simp only: read_field.simps, rule operation_terminal, rule assms(1))+

section \<open>Decoding a field\<close>

lemma dec_map_encodes:
  assumes d: "encodes d ok enc" and inj: "\<And>x y. c x = c y \<Longrightarrow> x = y"
    and ok': "\<And>f. ok' f \<longleftrightarrow> (\<exists>x. f = c x \<and> ok x)" and enc': "\<And>x p. enc' (c x) p = enc x p"
  shows "encodes (dec_map c d) ok' enc'"
  using d unfolding encodes_def complete_def sound_def dec_map_def ok'
  by (auto simp: enc' split: sum.splits)

text \<open>The decoder of a declaration inverts the encoding of the conforming fields of that declaration.\<close>

lemmas operation_encodes = bits_encodes bits64_encodes int_encodes int64_encodes int128_encodes uint128_encodes
  fixed64_encodes bool_encodes float32_encodes float64_encodes string_encodes int_relative_encodes
  precomputed_code_encodes

lemma dec_code_encodes:
  assumes "typed d"
  shows "encodes (dec_code d) (\<lambda>f. ok_code f \<and> shape f = shape d) wire_code"
proof (cases d)
  case (FFixed128 v ib fb mn mx)
  then have "go_int ib" "go_int fb" using assms by simp_all
  from fixed128_encodes [OF this] show ?thesis
    unfolding FFixed128 dec_code.simps by (rule dec_map_encodes) (auto simp: shape_iff)
next
  case (FUint8 v)
  have "encodes (dec_field 8 (\<lambda>u :: u32. Inr (ucast u :: u8))) (\<lambda>_. True) (\<lambda>v _. bits_of 8 v)"
    using narrow_encodes [where 'a = 8] by simp
  then show ?thesis unfolding FUint8 dec_code.simps by (rule dec_map_encodes) (auto simp: shape_iff)
next
  case (FUint16 v)
  have "encodes (dec_field 16 (\<lambda>u :: u32. Inr (ucast u :: u16))) (\<lambda>_. True) (\<lambda>v _. bits_of 16 v)"
    using narrow_encodes [where 'a = 16] by simp
  then show ?thesis unfolding FUint16 dec_code.simps by (rule dec_map_encodes) (auto simp: shape_iff)
next
  case (FUint32 v)
  have "encodes (dec_field 32 Inr) (\<lambda>_. True) (\<lambda>v _. bits_of 32 (v :: u32))" by (rule uint_encodes) simp_all
  then show ?thesis unfolding FUint32 dec_code.simps by (rule dec_map_encodes) (auto simp: shape_iff)
next
  case (FUint64 v)
  have "encodes (dec_field 64 Inr) (\<lambda>_. True) (\<lambda>v _. bits_of 64 (v :: u64))" by (rule uint_encodes) simp_all
  then show ?thesis unfolding FUint64 dec_code.simps by (rule dec_map_encodes) (auto simp: shape_iff)
next
  case (FBytes v)
  show ?thesis unfolding FBytes dec_code.simps by (rule dec_map_encodes [OF bytes_encodes]) (auto simp: shape_iff)
next
  case FAlign
  have "dec_map (\<lambda>_. FAlign) dec_align = dec_map (\<lambda>u :: unit. FAlign) dec_align" by simp
  show ?thesis unfolding FAlign dec_code.simps by (rule dec_map_encodes [OF align_encodes]) (auto simp: shape_iff)
next
  case (FCompressedFloat32 v mn mx resolution)
  obtain m n d where p: "compressedFloatParams mn mx resolution = (m, n, d)" by (metis prod_cases3)
  show ?thesis unfolding FCompressedFloat32 dec_code.simps
    by (rule dec_map_encodes [OF compressed_code_encodes [OF p]]) (auto simp: shape_iff p)
qed (simp only: dec_code.simps, rule dec_map_encodes, rule operation_encodes, (auto simp: shape_iff) [3])+

end
