(* ===== verification/Streams.thy ===== *)
theory Streams
  imports Field_Ops
begin

text \<open>
  The \<open>Stream\<close> interface (stream.go) over its three implementations, serialize functions written
  once for all of them, and whole messages. A serialize function of the documented pattern (a
  call per field, \<open>stream.Err()\<close> at the end) is a list of fields; \<open>serialize_fields\<close> makes the calls
  one after another and, as the pattern does, looks at no error on the way.
\<close>

section \<open>The interface\<close>

datatype 'c stream =
    Writing "'c write_stream"
  | Reading "'c read_stream"
  | Measuring "'c measure_stream"

fun Stream_IsWriting :: "'c stream \<Rightarrow> bool" where
  "Stream_IsWriting (Writing s) = WriteStream_IsWriting s"
| "Stream_IsWriting (Reading s) = ReadStream_IsWriting s"
| "Stream_IsWriting (Measuring s) = MeasureStream_IsWriting s"

fun Stream_Err :: "'c stream \<Rightarrow> go_error option" where
  "Stream_Err (Writing s) = WriteStream_Err s"
| "Stream_Err (Reading s) = ReadStream_Err s"
| "Stream_Err (Measuring s) = MeasureStream_Err s"

fun Stream_BitsProcessed :: "'c stream \<Rightarrow> nat" where
  "Stream_BitsProcessed (Writing s) = WriteStream_BitsProcessed s"
| "Stream_BitsProcessed (Reading s) = ReadStream_BitsProcessed s"
| "Stream_BitsProcessed (Measuring s) = MeasureStream_BitsProcessed s"

fun Stream_IsReading :: "'c stream \<Rightarrow> bool" where
  "Stream_IsReading (Writing s) = WriteStream_IsReading s"
| "Stream_IsReading (Reading s) = ReadStream_IsReading s"
| "Stream_IsReading (Measuring s) = MeasureStream_IsReading s"

fun Stream_AlignBits :: "'c stream \<Rightarrow> nat" where
  "Stream_AlignBits (Writing s) = WriteStream_AlignBits s"
| "Stream_AlignBits (Reading s) = ReadStream_AlignBits s"
| "Stream_AlignBits (Measuring s) = MeasureStream_AlignBits s"

fun Stream_BytesProcessed :: "'c stream \<Rightarrow> nat" where
  "Stream_BytesProcessed (Writing s) = WriteStream_BytesProcessed s"
| "Stream_BytesProcessed (Reading s) = ReadStream_BytesProcessed s"
| "Stream_BytesProcessed (Measuring s) = MeasureStream_BytesProcessed s"

fun Stream_SetContext :: "'c stream \<Rightarrow> 'c option \<Rightarrow> 'c stream" where
  "Stream_SetContext (Writing s) context = Writing (WriteStream_SetContext s context)"
| "Stream_SetContext (Reading s) context = Reading (ReadStream_SetContext s context)"
| "Stream_SetContext (Measuring s) context = Measuring (MeasureStream_SetContext s context)"

fun Stream_Context :: "'c stream \<Rightarrow> 'c option" where
  "Stream_Context (Writing s) = WriteStream_Context s"
| "Stream_Context (Reading s) = ReadStream_Context s"
| "Stream_Context (Measuring s) = MeasureStream_Context s"

fun serialize_field :: "'c stream \<Rightarrow> field \<Rightarrow> ('c stream \<times> field \<times> go_error option) res" where
  "serialize_field (Writing s) f = andThen (write_field f s) (\<lambda>s. Inr (Writing s, f, None))"
| "serialize_field (Reading s) f = andThen (read_field s f) (\<lambda>(s, f, err). Inr (Reading s, f, err))"
| "serialize_field (Measuring s) f = andThen (measure_field f s) (\<lambda>s. Inr (Measuring s, f, None))"

fun serialize_fields :: "'c stream \<Rightarrow> field list \<Rightarrow> ('c stream \<times> field list) res" where
  "serialize_fields st [] = Inr (st, [])"
| "serialize_fields st (f # fs) =
     andThen (serialize_field st f) (\<lambda>(st, f, _).
     andThen (serialize_fields st fs) (\<lambda>(st, fs). Inr (st, f # fs)))"

fun Stream_SerializeEnd :: "'c stream \<Rightarrow> ('c stream \<times> go_error option) res" where
  "Stream_SerializeEnd (Writing s) = andThen (WriteStream_SerializeEnd s) (\<lambda>s. Inr (Writing s, None))"
| "Stream_SerializeEnd (Reading s) = andThen (ReadStream_SerializeEnd s) (\<lambda>(s, err). Inr (Reading s, err))"
| "Stream_SerializeEnd (Measuring s) = andThen (MeasureStream_SerializeEnd s) (\<lambda>s. Inr (Measuring s, None))"

text \<open>\<open>Fail\<close> and \<open>Reject\<close> (serialize.go): on a stream that does not read there is nothing to refuse.\<close>

fun Fail :: "'c stream \<Rightarrow> refusal \<Rightarrow> 'c stream \<times> go_error option" where
  "Fail (Reading s) reason = (let (s, err) = ReadStream_Fail s reason in (Reading s, err))"
| "Fail st reason = (st, Some (ErrRefusal (closedRefusal reason)))"

fun Reject :: "'c stream \<Rightarrow> ('c stream \<times> go_error option) res" where
  "Reject (Reading s) = (let (s, err) = ReadStream_Reject s in Inr (Reading s, err))"
| "Reject st = Inl PanicRejectOnWrite"

fun bool_value :: "field \<Rightarrow> bool" where
  "bool_value (FBool b) = b"
| "bool_value _ = False"

text \<open>\<open>Continue\<close> and \<open>Until\<close> (stream.go): the stream, the variable the bit is read into, the answer.\<close>

definition Continue :: "'c stream \<Rightarrow> bool \<Rightarrow> ('c stream \<times> bool \<times> bool) res" where
  "Continue st has_next =
    andThen (serialize_field st (FBool has_next)) (\<lambda>(st, f, err).
      let has_next = bool_value f
      in if err \<noteq> None then Inr (st, has_next, False) else Inr (st, has_next, has_next))"

definition Until :: "'c stream \<Rightarrow> bool \<Rightarrow> ('c stream \<times> bool \<times> bool) res" where
  "Until st finished =
    andThen (serialize_field st (FBool finished)) (\<lambda>(st, f, err).
      let finished = bool_value f
      in if err \<noteq> None then Inr (st, finished, False) else Inr (st, finished, \<not> finished))"

section \<open>Messages\<close>

text \<open>
  Writing a message into a buffer and handing on the bytes; reading one from a packet (with
  \<open>slack\<close> past it in memory) into destinations \<open>ds\<close>, to its end.
\<close>

definition write_message :: "u8 list \<Rightarrow> field list \<Rightarrow> u8 list res" where
  "write_message buf fs =
    andThen (NewWriteStream buf) (\<lambda>s :: unit write_stream.
    andThen (serialize_fields (Writing s) fs) (\<lambda>(st, _).
    andThen (Stream_SerializeEnd st) (\<lambda>(st, _).
      case st of Writing s \<Rightarrow> andThen (WriteStream_Flush s) WriteStream_Data | _ \<Rightarrow> Inr [])))"

definition read_message :: "u8 list \<Rightarrow> u8 list \<Rightarrow> field list \<Rightarrow> (field list \<times> go_error option) res" where
  "read_message packet slack ds =
    andThen (serialize_fields (Reading (NewReadStream packet slack :: unit read_stream)) ds) (\<lambda>(st, fs).
    andThen (Stream_SerializeEnd st) (\<lambda>(st, _). Inr (fs, Stream_Err st)))"

fun wire_fields :: "field list \<Rightarrow> nat \<Rightarrow> bool list" where
  "wire_fields [] p = []"
| "wire_fields (f # fs) p = wire_field f p @ wire_fields fs (p + length (wire_field f p))"

lemma wire_fields_append: "wire_fields (xs @ ys) p = wire_fields xs p @ wire_fields ys (p + length (wire_fields xs p))"
  by (induction xs arbitrary: p) (simp_all add: add.assoc)

lemma andThen_return: "andThen r Inr = r"
  by (cases r) simp_all

lemma serialize_fields_append:
  "serialize_fields st (fs @ gs) = andThen (serialize_fields st fs) (\<lambda>(st, fs).
     andThen (serialize_fields st gs) (\<lambda>(st, gs). Inr (st, fs @ gs)))"
  by (induction fs arbitrary: st) (simp_all add: andThen_assoc case_prod_unfold andThen_return)

fun dec_fields :: "field list \<Rightarrow> field list decoder" where
  "dec_fields [] = dec_return []"
| "dec_fields (f # fs) = dec_bind (dec_of f) (\<lambda>x. dec_bind (dec_fields fs) (\<lambda>xs. dec_return (x # xs)))"

text \<open>The same lists in travelling form.\<close>

fun wire_codes :: "field list \<Rightarrow> nat \<Rightarrow> bool list" where
  "wire_codes [] p = []"
| "wire_codes (f # fs) p = wire_code f p @ wire_codes fs (p + length (wire_code f p))"

fun dec_codes :: "field list \<Rightarrow> field list decoder" where
  "dec_codes [] = dec_return []"
| "dec_codes (f # fs) = dec_bind (dec_code f) (\<lambda>x. dec_bind (dec_codes fs) (\<lambda>xs. dec_return (x # xs)))"

lemma wire_fields_codes: "wire_fields fs p = wire_codes (map code fs) p"
  by (induction fs arbitrary: p) (simp_all add: wire_field_def)

lemma dec_fields_codes: "dec_fields ds = dec_map (map deliver) (dec_codes ds)"
proof (induction ds)
  case (Cons d ds)
  then show ?case
    by (auto simp: dec_of_def dec_map_def dec_bind_def dec_return_def fun_eq_iff split: sum.splits)
qed (simp add: dec_map_def dec_return_def fun_eq_iff)

section \<open>Writing a list of fields\<close>

lemma write_fields:
  "serialize_fields (Writing s) fs = andThen (foldM (\<lambda>s f. write_field f s) s fs) (\<lambda>s. Inr (Writing s, fs))"
  by (induction fs arbitrary: s) (simp_all add: andThen_assoc)

lemma write_fields_emits:
  "\<forall>f \<in> set fs. ok_field f \<Longrightarrow> emits (\<lambda>s :: 'c write_stream. foldM (\<lambda>s f. write_field f s) s fs) (wire_fields fs)"
proof (induction fs)
  case Nil
  show ?case by (rule emits_eq [OF emits_skip]) simp_all
next
  case (Cons f fs)
  have ok: "ok_field f" "\<forall>f \<in> set fs. ok_field f" using Cons.prems by simp_all
  note emits_seq [OF write_field_emits [OF ok(1)] Cons.IH [OF ok(2)]]
  then show ?case by (rule emits_eq) simp_all
qed

lemma measure_fields:
  "serialize_fields (Measuring s) fs = andThen (foldM (\<lambda>s f. measure_field f s) s fs) (\<lambda>s. Inr (Measuring s, fs))"
  by (induction fs arbitrary: s) (simp_all add: andThen_assoc)

text \<open>Conforming fields are measured, and the first field that does not conform panics on both streams.\<close>

lemma measure_fields_ok:
  "\<forall>f \<in> set fs. typed f \<and> ok_field f \<Longrightarrow>
   foldM (\<lambda>s f. measure_field f s) (m :: 'c measure_stream) fs = Inr (m\<lparr>ms_bitsWritten := ms_bitsWritten m + sum_list (map measured fs)\<rparr>)"
proof (induction fs arbitrary: m)
  case (Cons f fs)
  then have "measure_field f m = Inr (m\<lparr>ms_bitsWritten := ms_bitsWritten m + measured f\<rparr>)"
    using measure_field_checked [of f, where 'a = 'c] by (simp add: checked_def)
  then show ?case using Cons by (simp add: add.assoc)
qed simp

lemma sum_measured_bounds:
  "length (wire_fields fs p) \<le> sum_list (map measured fs)"
  "sum_list (map measured fs) \<le> length (wire_fields fs p) + 7 * length (filter aligns fs)"
proof -
  show "length (wire_fields fs p) \<le> sum_list (map measured fs)"
    by (induction fs arbitrary: p) (auto intro: add_mono measured_bounds(1))
  show "sum_list (map measured fs) \<le> length (wire_fields fs p) + 7 * length (filter aligns fs)"
  proof (induction fs arbitrary: p)
    case (Cons f fs)
    show ?case using measured_bounds(2) [of f p] Cons.IH [of "p + length (wire_field f p)"] by (auto split: if_splits)
  qed simp
qed

section \<open>Reading a list of fields\<close>

lemma dec_return_encodes: "encodes (dec_return x) (\<lambda>v. v = x) (\<lambda>_ _. [])"
  by (auto simp: encodes_def complete_def sound_def dec_return_def)

lemma dec_codes_encodes:
  "\<forall>f \<in> set ds. typed f \<Longrightarrow>
   encodes (dec_codes ds) (\<lambda>fs. (\<forall>f \<in> set fs. ok_code f) \<and> map shape fs = map shape ds) wire_codes"
proof (induction ds)
  case Nil
  show ?case unfolding dec_codes.simps by (rule encodes_cong [OF dec_return_encodes]) auto
next
  case (Cons d ds)
  have tail: "encodes (dec_bind (dec_codes ds) (\<lambda>xs. dec_return (x # xs)))
      (\<lambda>fs. ((\<forall>f \<in> set fs. ok_code f) \<and> map shape fs = map shape (d # ds)) \<and> hd fs = x)
      (\<lambda>fs. wire_codes (tl fs))" if "ok_code x \<and> shape x = shape d" for x
  proof (rule bind_encodes [OF Cons.IH, where k = tl and ench = "\<lambda>_ _ _. []"])
    fix xs assume "(\<forall>f \<in> set xs. ok_code f) \<and> map shape xs = map shape ds"
    then show "encodes (dec_return (x # xs))
        (\<lambda>fs. (((\<forall>f \<in> set fs. ok_code f) \<and> map shape fs = map shape (d # ds)) \<and> hd fs = x) \<and> tl fs = xs) (\<lambda>_ _. [])"
      by (intro encodes_cong [OF dec_return_encodes]) (use that in \<open>auto simp: neq_Nil_conv\<close>)
  qed (use Cons.prems in \<open>auto simp: map_eq_Cons_conv\<close>)
  show ?case unfolding dec_codes.simps
  proof (rule bind_encodes [OF dec_code_encodes tail])
    fix fs p
    assume "(\<forall>f \<in> set fs. ok_code f) \<and> map shape fs = map shape (d # ds)"
    then show "wire_codes fs p = wire_code (hd fs) p @ wire_codes (tl fs) (p + length (wire_code (hd fs) p))"
      by (cases fs) simp_all
  qed (use Cons.prems in \<open>auto simp: map_eq_Cons_conv\<close>)
qed

lemma dec_fields_sound:
  assumes "\<forall>f \<in> set ds. typed f" and "dec_fields ds p bs = Inr (fs, n)"
  obtains rs where "fs = map deliver rs" "\<forall>r \<in> set rs. ok_code r" "map shape rs = map shape ds"
    "dec_codes ds p bs = Inr (rs, n)" "n = length (wire_codes rs p)" "n \<le> length bs" "take n bs = wire_codes rs p"
proof -
  obtain rs where rs: "fs = map deliver rs" "dec_codes ds p bs = Inr (rs, n)"
    using assms(2) by (auto simp: dec_fields_codes dec_map_def split: sum.splits)
  from soundD [OF encodesD(2) [OF dec_codes_encodes [OF assms(1)]] rs(2)] rs show thesis
    by (intro that) auto
qed

lemma delivered_fields:
  assumes "\<forall>f \<in> set ds. typed f" and "dec_fields ds p bs = Inr (fs, n)"
  shows "map shape fs = map shape ds" and "\<forall>f \<in> set fs. ok_delivered f"
proof -
  obtain rs where rs: "fs = map deliver rs" "\<forall>r \<in> set rs. ok_code r" "map shape rs = map shape ds"
    using dec_fields_sound [OF assms] by metis
  then show "map shape fs = map shape ds" "\<forall>f \<in> set fs. ok_delivered f" by (auto simp: ok_deliver comp_def)
qed

text \<open>
  \<open>delivers s ds s' fs\<close>: what a run over the destinations \<open>ds\<close> makes of the stream and of them. A
  refusal at field \<open>i\<close>, the first that does not decode, leaves that destination and all later ones as they were.
\<close>

definition delivers :: "'c read_stream \<Rightarrow> field list \<Rightarrow> 'c read_stream \<Rightarrow> field list \<Rightarrow> bool" where
  "delivers s ds s' fs \<longleftrightarrow>
    (case dec_fields ds (rs_pos s) (rs_rest s) of
       Inr (xs, n) \<Rightarrow> n \<le> length (rs_rest s) \<and> s' = advance n s \<and> fs = xs
     | Inl r \<Rightarrow> in_closed_list r \<and> (\<exists>k \<le> length (rs_rest s). s' = latch r (advance k s))
         \<and> (\<exists>i < length ds. \<exists>xs n. dec_fields (take i ds) (rs_pos s) (rs_rest s) = Inr (xs, n)
              \<and> dec_fields (take (Suc i) ds) (rs_pos s) (rs_rest s) = Inl r \<and> fs = xs @ drop i ds))"

lemma delivers_Cons:
  assumes d: "dec_of d (rs_pos s) (rs_rest s) = Inr (x, n)" and n: "n \<le> length (rs_rest s)"
    and rest: "delivers (advance n s) ds s' fs"
  shows "delivers s (d # ds) s' (x # fs)"
proof (cases "dec_fields ds (rs_pos s + n) (drop n (rs_rest s))")
  case (Inr xm)
  then show ?thesis using d n rest by (auto simp: delivers_def dec_bind_def dec_return_def split: prod.splits)
next
  case (Inl r)
  obtain k i ys m where R: "in_closed_list r" "k \<le> length (rs_rest s) - n" "s' = latch r (advance (n + k) s)"
    "i < length ds" "dec_fields (take i ds) (rs_pos s + n) (drop n (rs_rest s)) = Inr (ys, m)" "fs = ys @ drop i ds"
    "dec_fields (take (Suc i) ds) (rs_pos s + n) (drop n (rs_rest s)) = Inl r"
    using rest Inl by (auto simp: delivers_def)
  have "dec_fields (take (Suc i) (d # ds)) (rs_pos s) (rs_rest s) = Inr (x # ys, n + m)"
    using d R(5) by (simp add: dec_bind_def dec_return_def)
  moreover have "dec_fields (take (Suc (Suc i)) (d # ds)) (rs_pos s) (rs_rest s) = Inl r"
    unfolding take_Suc_Cons [of "Suc i"] using d R(7) by (simp add: dec_bind_def)
  moreover have "dec_fields (d # ds) (rs_pos s) (rs_rest s) = Inl r" using d Inl by (simp add: dec_bind_def)
  moreover have "n + k \<le> length (rs_rest s)" using R(2) n by simp
  ultimately show ?thesis
    using R(1,3,4,6) unfolding delivers_def by (fastforce intro: exI [of _ "Suc i"] simp del: dec_fields.simps take_Suc_Cons)
qed

lemma terminal_fields:
  "rs_err s \<noteq> None \<Longrightarrow> \<forall>f \<in> set ds. typed f \<Longrightarrow> serialize_fields (Reading s) ds = Inr (Reading s, ds)"
  by (induction ds) (simp_all add: read_field_terminal)

lemma read_fields:
  assumes "\<forall>f \<in> set ds. typed f" and "br_inv (rs_reader s)" and "rs_err s = None"
  shows "\<exists>s' fs. serialize_fields (Reading s) ds = Inr (Reading s', fs) \<and> delivers s ds s' fs"
  using assms
proof (induction ds arbitrary: s)
  case Nil
  then show ?case by (simp add: delivers_def dec_return_def)
next
  case (Cons d ds)
  have F: "follows s d (read_field s d) (dec_of d (rs_pos s) (rs_rest s))"
    by (rule read_field_follows) (use Cons.prems in simp_all)
  show ?case
  proof (cases "dec_of d (rs_pos s) (rs_rest s)")
    case (Inl r)
    then obtain k where k: "in_closed_list r" "k \<le> length (rs_rest s)"
      "read_field s d = Inr (latch r (advance k s), d, Some (ErrRefusal r))" using F by (auto simp: follows_def)
    then have "serialize_fields (Reading s) (d # ds) = Inr (Reading (latch r (advance k s)), d # ds)"
      using terminal_fields [of "latch r (advance k s)" ds] Cons.prems by simp
    moreover have "dec_fields (d # ds) (rs_pos s) (rs_rest s) = Inl r" using Inl by (simp add: dec_bind_def)
    moreover have "\<exists>i < length (d # ds). \<exists>xs n. dec_fields (take i (d # ds)) (rs_pos s) (rs_rest s) = Inr (xs, n)
        \<and> dec_fields (take (Suc i) (d # ds)) (rs_pos s) (rs_rest s) = Inl r \<and> d # ds = xs @ drop i (d # ds)"
      by (rule exI [of _ 0]) (simp add: dec_return_def dec_bind_def Inl)
    ultimately have "delivers s (d # ds) (latch r (advance k s)) (d # ds)"
      using k(1,2) unfolding delivers_def by (auto simp del: dec_fields.simps take_Suc_Cons)
    then show ?thesis using \<open>serialize_fields (Reading s) (d # ds) = _\<close> by blast
  next
    case (Inr xn)
    obtain x n where x: "dec_of d (rs_pos s) (rs_rest s) = Inr (x, n)" using Inr by (cases xn) simp
    then have n: "n \<le> length (rs_rest s)" "read_field s d = Inr (advance n s, x, None)"
      using F by (simp_all add: follows_def)
    obtain s' fs where s': "serialize_fields (Reading (advance n s)) ds = Inr (Reading s', fs)" "delivers (advance n s) ds s' fs"
      using Cons.IH [of "advance n s"] br_inv_advance_stream [OF Cons.prems(2) n(1)] Cons.prems by auto
    show ?thesis using s'(1) n(2) delivers_Cons [OF x n(1) s'(2)] by auto
  qed
qed

lemma delivered_shape:
  assumes "\<forall>f \<in> set ds. typed f" and "delivers s ds s' fs"
  shows "map shape fs = map shape ds"
proof -
  have sh: "map shape xs = map shape ds'" if "dec_fields ds' p bs = Inr (xs, n)" "\<forall>f \<in> set ds'. typed f" for ds' p bs xs n
    using delivered_fields(1) [OF that(2,1)] .
  show ?thesis
  proof (cases "dec_fields ds (rs_pos s) (rs_rest s)")
    case (Inr xn)
    then show ?thesis using assms sh by (auto simp: delivers_def split: prod.splits)
  next
    case (Inl r)
    then obtain i xs n where i: "dec_fields (take i ds) (rs_pos s) (rs_rest s) = Inr (xs, n)" "fs = xs @ drop i ds"
      using assms(2) by (auto simp: delivers_def)
    have "\<forall>f \<in> set (take i ds). typed f" using assms(1) by (auto dest: in_set_takeD)
    from sh [OF i(1) this] show ?thesis unfolding i(2) by (metis append_take_drop_id map_append)
  qed
qed

section \<open>Whole messages\<close>

text \<open>
  The bytes written are the encoding from bit position 0, padded with zeros to a whole byte.
\<close>

definition code_bytes :: "field list \<Rightarrow> u8 list" where
  "code_bytes rs = (let bs = wire_codes rs 0 in bytes_of ((length bs + 7) div 8) (bs @ wire_align (length bs)))"

definition message_bytes :: "field list \<Rightarrow> u8 list" where
  "message_bytes fs = code_bytes (map code fs)"

lemma code_bytes_bits:
  "bytes_bits (code_bytes rs) = wire_codes rs 0 @ wire_align (length (wire_codes rs 0))"
  using align_sum [of "length (wire_codes rs 0)"] by (simp add: code_bytes_def Let_def bytes_bits_bytes_of)

lemma message_bytes_bits:
  "bytes_bits (message_bytes fs) = wire_fields fs 0 @ wire_align (length (wire_fields fs 0))"
  by (simp add: message_bytes_def code_bytes_bits wire_fields_codes)

lemma write_message_ok:
  assumes buf: "length buf mod 8 = 0" and ok: "\<forall>f \<in> set fs. ok_field f"
    and fits: "length (wire_fields fs 0) \<le> 8 * length buf"
  shows "write_message buf fs = Inr (message_bytes fs)"
proof -
  obtain s :: "unit write_stream" where s: "NewWriteStream buf = Inr s" "ws_inv buf s" "ws_bits s = []"
    "ws_bitsWritten s = 0" "ws_numBits s = 8 * length buf"
    using NewWriteStream_ok [OF buf] by blast
  obtain s1 where s1: "foldM (\<lambda>s f. write_field f s) s fs = Inr s1" "extends buf (wire_fields fs 0) s s1"
    using emitsD [OF write_fields_emits [OF ok] s(2)] s(4,5) fits by auto
  have inv1: "ws_inv buf s1" and bits: "ws_bits s1 = wire_fields fs 0"
    using s1(2) s(3) by (simp_all add: extends_def)
  have len: "ws_bitsWritten s1 = length (wire_fields fs 0)" using length_ws_bits [OF inv1] bits by simp
  obtain s2 bs where s2: "WriteStream_Flush s1 = Inr s2" "WriteStream_Data s2 = Inr bs"
    "bytes_bits bs = wire_fields fs 0 @ wire_align (length (wire_fields fs 0))"
    using Flush_ok [OF inv1] unfolding bits len by blast
  have "bytes_bits bs = bytes_bits (message_bytes fs)" unfolding s2(3) message_bytes_bits ..
  then have "bs = message_bytes fs" by (rule bytes_bits_inj)
  then show ?thesis
    using s(1) s1(1) s2(1,2) by (simp add: write_message_def write_fields WriteStream_SerializeEnd_def)
qed

lemma write_message_overflow:
  assumes buf: "length buf mod 8 = 0" and ok: "\<forall>f \<in> set fs. ok_field f"
    and full: "8 * length buf < length (wire_fields fs 0)"
  shows "write_message buf fs = Inl PanicWriteOverflow"
proof -
  obtain s :: "unit write_stream" where s: "NewWriteStream buf = Inr s" "ws_inv buf s"
    "ws_bitsWritten s = 0" "ws_numBits s = 8 * length buf"
    using NewWriteStream_ok [OF buf] by blast
  then have "foldM (\<lambda>s f. write_field f s) s fs = Inl PanicWriteOverflow"
    using emits_overflow [OF write_fields_emits [OF ok] s(2)] full by simp
  then show ?thesis using s(1) by (simp add: write_message_def write_fields)
qed

lemma NewReadStream_simps [simp]:
  "br_inv (rs_reader (NewReadStream packet slack))" "rs_err (NewReadStream packet slack) = None"
  "rs_pos (NewReadStream packet slack) = 0" "rs_rest (NewReadStream packet slack) = bytes_bits packet"
  by (simp_all add: NewReadStream_def br_inv_New [unfolded NewBitReader_def] br_rest_def
      NewBitReader_simps [unfolded NewBitReader_def])

text \<open>What reading a packet to its end gives, in terms of the decoders.\<close>

lemma read_message_eq:
  assumes typed: "\<forall>f \<in> set ds. typed f"
  shows "\<exists>fs err. read_message packet slack ds = Inr (fs, err)
    \<and> (case dec_bind (dec_fields ds) (\<lambda>xs. dec_bind dec_end (\<lambda>_. dec_return xs)) 0 (bytes_bits packet) of
         Inr (xs, n) \<Rightarrow> fs = xs \<and> err = None
       | Inl r \<Rightarrow> in_closed_list r \<and> err = Some (ErrRefusal r))
    \<and> map shape fs = map shape ds \<and> (\<forall>xs n. dec_fields ds 0 (bytes_bits packet) = Inr (xs, n) \<longrightarrow> fs = xs)"
proof -
  define s :: "unit read_stream" where "s = NewReadStream packet slack"
  have s: "br_inv (rs_reader s)" "rs_err s = None" "rs_pos s = 0" "rs_rest s = bytes_bits packet" by (simp_all add: s_def)
  obtain s' fs where s': "serialize_fields (Reading s) ds = Inr (Reading s', fs)" "delivers s ds s' fs"
    using read_fields [OF typed s(1,2)] by blast
  have shapes: "map shape fs = map shape ds" by (rule delivered_shape [OF typed s'(2)])
  have end_terminal: "ReadStream_SerializeEnd t = Inr (t, rs_err t)" if "rs_err t \<noteq> None" for t :: "unit read_stream"
    using that by (simp add: ReadStream_SerializeEnd_def)
  show ?thesis
  proof (cases "dec_fields ds 0 (bytes_bits packet)")
    case (Inl r)
    then obtain k where k: "in_closed_list r" "s' = latch r (advance k s)"
      using s'(2) s(3,4) by (auto simp: delivers_def)
    have "read_message packet slack ds = Inr (fs, Some (ErrRefusal r))"
      using s'(1) end_terminal [of s'] unfolding k(2) by (simp add: read_message_def s_def ReadStream_Err_def)
    then show ?thesis using Inl k(1) shapes by (simp add: dec_bind_def)
  next
    case (Inr xn)
    then obtain n where n: "dec_fields ds 0 (bytes_bits packet) = Inr (fs, n)" "n \<le> length (bytes_bits packet)" "s' = advance n s"
      using s'(2) s(3,4) by (auto simp: delivers_def split: prod.splits)
    have inv': "br_inv (rs_reader s')" "rs_err s' = None" "rs_pos s' = n" "rs_rest s' = drop n (bytes_bits packet)"
      using br_inv_advance_stream [OF s(1), of n] n(2) s unfolding n(3) by simp_all
    have F: "follows s' () (no_value ReadStream_SerializeEnd s' ()) (dec_end n (drop n (bytes_bits packet)))"
      using reads0D [OF readsD(2) [OF SerializeEnd_reads [where pre = "\<lambda>_ _. True"]] inv'(1,2)] inv'(3,4) by simp
    show ?thesis
    proof (cases "dec_end n (drop n (bytes_bits packet))")
      case (Inl r)
      then obtain k where k: "in_closed_list r" "ReadStream_SerializeEnd s' = Inr (latch r (advance k s'), Some (ErrRefusal r))"
        using F by (auto simp: follows_def no_value_def andThen_Inr_iff split: prod.splits)
      then have "read_message packet slack ds = Inr (fs, Some (ErrRefusal r))"
        using s'(1) by (simp add: read_message_def s_def ReadStream_Err_def)
      then show ?thesis using n(1) Inl k(1) shapes by (simp add: dec_bind_def)
    next
      case (Inr um)
      then obtain m where m: "dec_end n (drop n (bytes_bits packet)) = Inr ((), m)"
        "ReadStream_SerializeEnd s' = Inr (advance m s', None)"
        using F by (auto simp: follows_def no_value_def andThen_Inr_iff split: prod.splits)
      then have "read_message packet slack ds = Inr (fs, None)"
        using s'(1) inv'(2) by (simp add: read_message_def s_def ReadStream_Err_def)
      then show ?thesis using n(1) m(1) shapes by (simp add: dec_bind_def dec_return_def)
    qed
  qed
qed

lemma end_align:
  assumes "(a + b) mod 8 = 0" and "b < 8"
  shows "b = align_len (a :: nat)"
proof -
  define i j where "i = (a + b) div 8" and "j = (a + 7) div 8"
  have i: "a + b = 8 * i" using assms(1) div_mult_mod_eq [of "a + b" 8] unfolding i_def by simp
  have j: "a + align_len a = 8 * j" unfolding j_def by (rule align_sum)
  consider "i = j" | "i + 1 \<le> j" | "j + 1 \<le> i" by linarith
  then show ?thesis using i j assms(2) align_len_le7 [of a] by cases linarith+
qed

lemma decode_to_end:
  assumes typed: "\<forall>f \<in> set ds. typed f"
  shows "dec_bind (dec_fields ds) (\<lambda>xs. dec_bind dec_end (\<lambda>_. dec_return xs)) 0 (bytes_bits packet) = Inr (fs, n)
    \<longleftrightarrow> (\<exists>rs. fs = map deliver rs \<and> (\<forall>r \<in> set rs. ok_code r) \<and> map shape rs = map shape ds
          \<and> packet = code_bytes rs \<and> n = 8 * length packet)"
    (is "?dec = Inr (fs, n) \<longleftrightarrow> (\<exists>rs. ?right rs)")
proof
  assume "?dec = Inr (fs, n)"
  then obtain k m where k: "dec_fields ds 0 (bytes_bits packet) = Inr (fs, k)"
    and m: "dec_end k (drop k (bytes_bits packet)) = Inr ((), m)" and n: "n = k + m"
    by (auto simp: dec_bind_def dec_return_def split: sum.splits)
  obtain rs where S: "fs = map deliver rs" "\<forall>r \<in> set rs. ok_code r" "map shape rs = map shape ds"
      "k = length (wire_codes rs 0)" "take k (bytes_bits packet) = wire_codes rs 0"
    using dec_fields_sound [OF typed k] by metis
  define tail where "tail = drop k (bytes_bits packet)"
  have t: "tail = replicate m False" "m < 8" "length tail = m"
    using m unfolding tail_def [symmetric] by (auto simp: dec_end_def Let_def not_le split: if_splits)
  have bits: "bytes_bits packet = wire_codes rs 0 @ tail" using S(5) unfolding tail_def by (metis append_take_drop_id)
  have total: "8 * length packet = k + m" using arg_cong [OF bits, of length] S(4) t(3) by simp
  then have "m = align_len k" using t(2) by (intro end_align) (simp_all flip: total)
  then have "bytes_bits packet = bytes_bits (code_bytes rs)"
    unfolding bits code_bytes_bits using t(1) S(4) by (simp add: wire_align_def)
  then have "packet = code_bytes rs" by (rule bytes_bits_inj)
  then show "\<exists>rs. ?right rs" using S(1,2,3) n total by auto
next
  assume "\<exists>rs. ?right rs"
  then obtain rs where r: "?right rs" by blast
  let ?w = "wire_codes rs 0"
  have bits: "bytes_bits packet = ?w @ wire_align (length ?w)" using r by (simp add: code_bytes_bits)
  have "dec_codes ds 0 (bytes_bits packet) = Inr (rs, length ?w)"
    unfolding bits by (rule completeD [OF encodesD(1) [OF dec_codes_encodes [OF typed]]]) (use r in simp)
  then have "dec_fields ds 0 (bytes_bits packet) = Inr (fs, length ?w)" using r by (simp add: dec_fields_codes dec_map_def)
  moreover have "dec_end (length ?w) (wire_align (length ?w)) = Inr ((), align_len (length ?w))"
    using align_len_le7 [of "length ?w"] by (simp add: dec_end_def wire_align_def Let_def)
  moreover have "8 * length packet = length ?w + align_len (length ?w)" using arg_cong [OF bits, of length] by simp
  ultimately show "?dec = Inr (fs, n)" using r bits by (simp add: dec_bind_def dec_return_def)
qed

lemma written_is_read:
  assumes "length buf mod 8 = 0" and fs: "\<forall>f \<in> set fs. typed f \<and> ok_field f"
    and "length (wire_fields fs 0) \<le> 8 * length buf"
  shows "\<exists>packet. write_message buf fs = Inr packet \<and> length packet = (length (wire_fields fs 0) + 7) div 8
    \<and> (\<forall>slack ds. map shape ds = map shape fs \<longrightarrow> read_message packet slack ds = Inr (map recovered fs, None))"
proof -
  define packet where "packet = message_bytes fs"
  have "write_message buf fs = Inr packet" unfolding packet_def using assms by (intro write_message_ok) auto
  moreover have "length packet = (length (wire_fields fs 0) + 7) div 8"
    using arg_cong [OF message_bytes_bits [of fs], of length] align_sum [of "length (wire_fields fs 0)"]
    by (simp add: packet_def)
  moreover have "read_message packet slack ds = Inr (map recovered fs, None)" if shapes: "map shape ds = map shape fs" for slack ds
  proof -
    have "\<forall>d \<in> set ds. \<exists>f \<in> set fs. shape d = shape f" using shapes by (metis image_iff set_map)
    then have typed: "\<forall>d \<in> set ds. typed d" using fs shape_typed by metis
    have "dec_bind (dec_fields ds) (\<lambda>xs. dec_bind dec_end (\<lambda>_. dec_return xs)) 0 (bytes_bits packet)
        = Inr (map recovered fs, 8 * length packet)"
      using fs shapes by (intro decode_to_end [OF typed, THEN iffD2] exI [of _ "map code fs"])
        (auto simp: packet_def message_bytes_def recovered_def ok_code_code comp_def)
    then show ?thesis using read_message_eq [OF typed, of packet slack] by auto
  qed
  ultimately show ?thesis by blast
qed

section \<open>Misuse\<close>

text \<open>
  A list with a field that does not conform: whatever the stream, the run panics, with the panic of
  the first such field, or for want of room before it.
\<close>

lemma misused_fields:
  assumes "\<forall>f \<in> set fs. typed f" and "\<not> (\<forall>f \<in> set fs. ok_field f)"
  shows "\<exists>p. p \<noteq> PanicWriteOverflow
    \<and> (\<forall>m :: 'c measure_stream. foldM (\<lambda>s f. measure_field f s) m fs = Inl p)
    \<and> (\<forall>buf (s :: 'c write_stream). ws_inv buf s \<longrightarrow> foldM (\<lambda>s f. write_field f s) s fs \<in> {Inl p, Inl PanicWriteOverflow})"
  using assms
proof (induction fs)
  case (Cons f fs)
  note C = measure_field_checked [of f, where 'a = 'c]
  show ?case
  proof (cases "ok_field f")
    case False
    then show ?thesis using C Cons.prems(1) by (auto simp: checked_def)
  next
    case True
    then obtain p where p: "p \<noteq> PanicWriteOverflow"
      "\<And>m :: 'c measure_stream. foldM (\<lambda>s f. measure_field f s) m fs = Inl p"
      "\<And>buf (s :: 'c write_stream). ws_inv buf s \<Longrightarrow> foldM (\<lambda>s f. write_field f s) s fs \<in> {Inl p, Inl PanicWriteOverflow}"
      using Cons by auto
    have "foldM (\<lambda>s f. write_field f s) s (f # fs) \<in> {Inl p, Inl PanicWriteOverflow}" if inv: "ws_inv buf s"
      for buf and s :: "'c write_stream"
    proof (cases "ws_bitsWritten s + length (wire_field f (ws_bitsWritten s)) \<le> ws_numBits s")
      case fits: True
      obtain s1 where "write_field f s = Inr s1" "ws_inv buf s1"
        using emitsD [OF write_field_emits [OF True] inv fits] by (auto simp: extends_def)
      then show ?thesis using p(3) by simp
    next
      case False
      then show ?thesis using emits_overflow [OF write_field_emits [OF True] inv] by simp
    qed
    moreover have "foldM (\<lambda>s f. measure_field f s) m (f # fs) = Inl p" for m :: "'c measure_stream"
      using C Cons.prems(1) True p(2) by (simp add: checked_def)
    ultimately show ?thesis using p(1) by blast
  qed
qed simp

definition measure_message :: "field list \<Rightarrow> nat res" where
  "measure_message fs =
    andThen (serialize_fields (Measuring (NewMeasureStream :: unit measure_stream)) fs) (\<lambda>(st, _).
    andThen (Stream_SerializeEnd st) (\<lambda>(st, _). Inr (Stream_BitsProcessed st)))"

lemma measure_message_ok:
  "\<forall>f \<in> set fs. typed f \<and> ok_field f \<Longrightarrow> measure_message fs = Inr (sum_list (map measured fs))"
  using measure_fields_ok [of fs "NewMeasureStream :: unit measure_stream"]
  by (simp add: measure_message_def measure_fields MeasureStream_SerializeEnd_def MeasureStream_BitsProcessed_def NewMeasureStream_def)

lemma misused_message:
  assumes "\<forall>f \<in> set fs. typed f" and "\<not> (\<forall>f \<in> set fs. ok_field f)"
  shows "\<exists>p. p \<noteq> PanicWriteOverflow \<and> measure_message fs = Inl p
    \<and> (\<forall>buf. length buf mod 8 = 0 \<longrightarrow> write_message buf fs \<in> {Inl p, Inl PanicWriteOverflow})"
proof -
  obtain p where p: "p \<noteq> PanicWriteOverflow"
      "\<And>m :: unit measure_stream. foldM (\<lambda>s f. measure_field f s) m fs = Inl p"
      "\<And>buf (s :: unit write_stream). ws_inv buf s \<Longrightarrow> foldM (\<lambda>s f. write_field f s) s fs \<in> {Inl p, Inl PanicWriteOverflow}"
    using misused_fields [OF assms, where 'c = unit] by blast
  have "write_message buf fs \<in> {Inl p, Inl PanicWriteOverflow}" if b: "length buf mod 8 = 0" for buf
  proof -
    obtain s :: "unit write_stream" where s: "NewWriteStream buf = Inr s" "ws_inv buf s"
      using NewWriteStream_ok [OF b] by blast
    then show ?thesis using p(3) [OF s(2)] by (auto simp: write_message_def write_fields)
  qed
  then show ?thesis using p(1,2) by (auto simp: measure_message_def measure_fields)
qed

end
