(* ===== verification/Field_Eval.thy ===== *)
theory Field_Eval
  imports Compressed_Props Field_Ops
begin

text \<open>
  Evaluating the encoding of literal fields. A bit string is compared as the number it spells,
  and the bundles \<open>field_eval\<close> and \<open>ok_eval\<close> compute the length and the number of a field's encoding
  and whether the field conforms.
\<close>

section \<open>Bits as a number\<close>

definition bits_int :: "bool list \<Rightarrow> int" where
  "bits_int bs = horner_sum of_bool 2 bs"

lemma bits_int_simps [simp]:
  "bits_int [] = 0" "bits_int (b # bs) = of_bool b + 2 * bits_int bs"
  "bits_int (xs @ ys) = bits_int xs + 2 ^ length xs * bits_int ys"
  by (simp_all add: bits_int_def horner_sum_append)

lemma bits_int_replicate [simp]: "bits_int (replicate n False) = 0"
  by (induction n) simp_all

lemma bits_int_bits_of: "n \<le> LENGTH('a) \<Longrightarrow> bits_int (bits_of n (w :: 'a::len word)) = uint w mod 2 ^ n"
proof -
  assume "n \<le> LENGTH('a)"
  then have "bits_of n w = map (bit (uint w)) [0..<n]" by (simp add: bits_of_def bit_uint_iff)
  then show ?thesis by (simp add: bits_int_def horner_sum_bit_eq_take_bit take_bit_eq_mod)
qed

lemma bits_int_inj: "length xs = length ys \<Longrightarrow> bits_int xs = bits_int ys \<Longrightarrow> xs = ys"
proof (induction xs ys rule: list_induct2)
  case (Cons x xs y ys)
  have "even (of_bool x + 2 * bits_int xs) = even (of_bool y + 2 * bits_int ys)" using Cons.prems by simp
  then have "x = y" by (cases x; cases y) simp_all
  then show ?case using Cons by simp
qed simp

lemma u128_Uint128: "u128 (Uint128 lo hi) = ucast lo OR push_bit 64 (ucast hi)"
  by (simp add: u128_def)

lemma unat_minus_one_128: "unat (- 1 :: 128 word) = 340282366920938463463374607431768211455"
  by (simp add: unsigned_minus_1_eq_mask mask_eq_exp_minus_1)

text \<open>Evaluating the encoding of a literal field.\<close>

lemmas field_eval = wire_field_def bits_int_bits_of wire_int_def wire_int64_def wire_int128_def Len_def wire_align_def align_len_def wire_bytes_def wire_string_def Let_def
  wire_int_relative_def wire_fixed64_def wire_fixed128_def compat_params compat_quantize fixedPointParams64_def fixedPointParams128_def
  wrap64_def fixedPointCapacity_def word_sless_alt BitsRequired64_def u128_Lsh i128_From64 i128_Int128 u128_Uint128 unat_minus_one_128

lemmas ok_eval = ok_bits_def ok_bits64_def ok_int_def ok_int64_def ok_int128_def ok_int_relative_def ok_string_def bufferSizeValid_def ok_fixed64_def
  ok_fixed128_def fixedPointParams64_def fixedPointParams128_def wrap64_def fixedPointCapacity_def word_sless_alt word_sle_eq BitsRequired64_def
  u128_Lsh i128_From64 i128_Int128 u128_Uint128 float32BitsAreFinite_def float64BitsAreFinite_def compat_declarations Let_def go_int_def u128_Sub

end
