(* ===== verification/Golden.thy ===== *)
theory Golden
  imports Field_Eval Streams
begin

text \<open>
  The whole message of the standard (STANDARD.md, the golden data of serialize_test.go): its 28
  operations and their values, evaluated field by field to the 106 bytes pinned there.
\<close>

section \<open>The message\<close>

definition golden_message :: "field list" where
  "golden_message =
    [FBits 13 4,
     FBits 1445 11,
     FBits 11259375 24,
     FBits 0xDEADBEEF 32,
     FInt (- 37) (- 100) 100,
     FInt (- 123456789) (- 2147483648) 2147483647,
     FBool True,
     FFloat32 0x40490FDA,
     FCompressedFloat32 0x40A00000 0 0x41200000 0x3C23D70A,
     FFloat64 0x3FD5555555555555,
     FBits 127 8,
     FBits 4660 16,
     FBits 305419896 32,
     FBits64 1311768467463790320 64,
     FIntRelative 100 101,
     FIntRelative 100 2100,
     FAlign,
     FBytes [222, 173, 190, 239, 202, 254, 1],
     FString [103, 111, 108, 100, 101, 110] 16,
     FString [231, 162, 129, 231, 159, 179] 8,
     FAlign,
     FFixed64 (- 832) 8 8 (- 100) 100,
     FFixed64 80904192 16 16 (- 2000) 2000,
     FFixed64 (- 3559993401) 48 16 (- 100000) 100000,
     FFixed64 1966079999 16 16 0 30000,
     FAlign,
     FFixed128 (Int128 18440271382350851871 18446744073709551615) 112 16 (- 144115188075855872) 144115188075855872,
     FFixed128 (Int128 1147797409030816545 81985529216486895) 64 64 (- 9223372036854775808) 9223372036854775807]"

definition golden_bytes :: "u8 list" where
  "golden_bytes =
    [0x5D, 0xDA, 0xF7, 0xE6, 0xD5, 0x77, 0xDF, 0x56, 0xEF, 0x9F, 0x75, 0x19,
     0x52, 0xBC, 0xDA, 0x0F, 0x49, 0x40, 0xF4, 0x55, 0x55, 0x55, 0x55, 0x55,
     0x55, 0x55, 0xFF, 0xFC, 0xD1, 0x48, 0xE0, 0x59, 0xD1, 0x48, 0xC0, 0x7B,
     0xF3, 0x6A, 0xE2, 0x59, 0xD1, 0x48, 0x84, 0xB7, 0x06, 0xDE, 0xAD, 0xBE,
     0xEF, 0xCA, 0xFE, 0x01, 0x06, 0x67, 0x6F, 0x6C, 0x64, 0x65, 0x6E, 0x06,
     0xE7, 0xA2, 0x81, 0xE7, 0x9F, 0xB3, 0xC0, 0x60, 0x00, 0x80, 0xA2, 0x7C,
     0xFC, 0xEC, 0x26, 0xCB, 0xFF, 0xFF, 0x4B, 0x1D, 0x1F, 0xEF, 0xD2, 0x1A,
     0x1F, 0x01, 0xE9, 0xFF, 0xFF, 0x09, 0x19, 0x2A, 0x3B, 0x4C, 0x5D, 0x6E,
     0x7F, 0x78, 0x6F, 0x5E, 0x4D, 0x3C, 0x2B, 0x1A, 0x09, 0x04]"

lemma golden_0: "length (wire_field (FBits 13 4) 0) = 4" "bits_int (wire_field (FBits 13 4) 0) = 13"
  by (simp_all add: field_eval)

lemma golden_1: "length (wire_field (FBits 1445 11) 4) = 11" "bits_int (wire_field (FBits 1445 11) 4) = 1445"
  by (simp_all add: field_eval)

lemma golden_2: "length (wire_field (FBits 11259375 24) 15) = 24" "bits_int (wire_field (FBits 11259375 24) 15) = 11259375"
  by (simp_all add: field_eval)

lemma golden_3: "length (wire_field (FBits 0xDEADBEEF 32) 39) = 32" "bits_int (wire_field (FBits 0xDEADBEEF 32) 39) = 3735928559"
  by (simp_all add: field_eval)

lemma golden_4: "length (wire_field (FInt (- 37) (- 100) 100) 71) = 8" "bits_int (wire_field (FInt (- 37) (- 100) 100) 71) = 63"
  by (simp_all add: field_eval)

lemma golden_5: "length (wire_field (FInt (- 123456789) (- 2147483648) 2147483647) 79) = 32" "bits_int (wire_field (FInt (- 123456789) (- 2147483648) 2147483647) 79) = 2024026859"
  by (simp_all add: field_eval)

lemma golden_6: "length (wire_field (FBool True) 111) = 1" "bits_int (wire_field (FBool True) 111) = 1"
  by (simp_all add: field_eval)

lemma golden_7: "length (wire_field (FFloat32 0x40490FDA) 112) = 32" "bits_int (wire_field (FFloat32 0x40490FDA) 112) = 1078530010"
  by (simp_all add: field_eval)

lemma golden_8: "length (wire_field (FCompressedFloat32 0x40A00000 0 0x41200000 0x3C23D70A) 144) = 10" "bits_int (wire_field (FCompressedFloat32 0x40A00000 0 0x41200000 0x3C23D70A) 144) = 500"
  by (simp_all add: field_eval)

lemma golden_9: "length (wire_field (FFloat64 0x3FD5555555555555) 154) = 64" "bits_int (wire_field (FFloat64 0x3FD5555555555555) 154) = 4599676419421066581"
  by (simp_all add: field_eval)

lemma golden_10: "length (wire_field (FBits 127 8) 218) = 8" "bits_int (wire_field (FBits 127 8) 218) = 127"
  by (simp_all add: field_eval)

lemma golden_11: "length (wire_field (FBits 4660 16) 226) = 16" "bits_int (wire_field (FBits 4660 16) 226) = 4660"
  by (simp_all add: field_eval)

lemma golden_12: "length (wire_field (FBits 305419896 32) 242) = 32" "bits_int (wire_field (FBits 305419896 32) 242) = 305419896"
  by (simp_all add: field_eval)

lemma golden_13: "length (wire_field (FBits64 1311768467463790320 64) 274) = 64" "bits_int (wire_field (FBits64 1311768467463790320 64) 274) = 1311768467463790320"
  by (simp_all add: field_eval)

lemma golden_14: "length (wire_field (FIntRelative 100 101) 338) = 1" "bits_int (wire_field (FIntRelative 100 101) 338) = 1"
  by (simp_all add: field_eval)

lemma golden_15: "length (wire_field (FIntRelative 100 2100) 339) = 18" "bits_int (wire_field (FIntRelative 100 2100) 339) = 55024"
  by (simp_all add: field_eval)

lemma golden_16: "length (wire_field (FAlign) 357) = 3" "bits_int (wire_field (FAlign) 357) = 0"
  by (simp_all add: field_eval)

lemma golden_17: "length (wire_field (FBytes [222, 173, 190, 239, 202, 254, 1]) 360) = 56" "bits_int (wire_field (FBytes [222, 173, 190, 239, 202, 254, 1]) 360) = 561622535810526"
  by (simp_all add: field_eval)

lemma golden_18: "length (wire_field (FString [103, 111, 108, 100, 101, 110] 16) 416) = 56" "bits_int (wire_field (FString [103, 111, 108, 100, 101, 110] 16) 416) = 31073729428547334"
  by (simp_all add: field_eval)

lemma golden_19: "length (wire_field (FString [231, 162, 129, 231, 159, 179] 8) 472) = 56" "bits_int (wire_field (FString [231, 162, 129, 231, 159, 179] 8) 472) = 50559837492406022"
  by (simp_all add: field_eval)

lemma golden_20: "length (wire_field (FAlign) 528) = 0" "bits_int (wire_field (FAlign) 528) = 0"
  by (simp_all add: field_eval)

lemma golden_21: "length (wire_field (FFixed64 (- 832) 8 8 (- 100) 100) 528) = 16" "bits_int (wire_field (FFixed64 (- 832) 8 8 (- 100) 100) 528) = 24768"
  by (simp_all add: field_eval)

lemma golden_22: "length (wire_field (FFixed64 80904192 16 16 (- 2000) 2000) 544) = 28" "bits_int (wire_field (FFixed64 80904192 16 16 (- 2000) 2000) 544) = 211976192"
  by (simp_all add: field_eval)

lemma golden_23: "length (wire_field (FFixed64 (- 3559993401) 48 16 (- 100000) 100000) 572) = 34" "bits_int (wire_field (FFixed64 (- 3559993401) 48 16 (- 100000) 100000) 572) = 2993606599"
  by (simp_all add: field_eval)

lemma golden_24: "length (wire_field (FFixed64 1966079999 16 16 0 30000) 606) = 31" "bits_int (wire_field (FFixed64 1966079999 16 16 0 30000) 606) = 1966079999"
  by (simp_all add: field_eval)

lemma golden_25: "length (wire_field (FAlign) 637) = 3" "bits_int (wire_field (FAlign) 637) = 0"
  by (simp_all add: field_eval)

lemma golden_26: "length (wire_field (FFixed128 (Int128 18440271382350851871 18446744073709551615) 112 16 (- 144115188075855872) 144115188075855872) 640) = 75" "bits_int (wire_field (FFixed128 (Int128 18440271382350851871 18446744073709551615) 112 16 (- 144115188075855872) 144115188075855872) 640) = 9444726493047931727647"
  by (simp_all add: field_eval)

lemma golden_27: "length (wire_field (FFixed128 (Int128 1147797409030816545 81985529216486895) 64 64 (- 9223372036854775808) 9223372036854775807) 715) = 128" "bits_int (wire_field (FFixed128 (Int128 1147797409030816545 81985529216486895) 64 64 (- 9223372036854775808) 9223372036854775807) 715) = 171653549535673402661802697950104994593"
  by (simp_all add: field_eval)

lemmas golden_fields = golden_0 golden_1 golden_2 golden_3 golden_4 golden_5 golden_6 golden_7 golden_8 golden_9 golden_10 golden_11 golden_12 golden_13 golden_14 golden_15 golden_16 golden_17 golden_18 golden_19 golden_20 golden_21 golden_22 golden_23 golden_24 golden_25 golden_26 golden_27

lemma golden_length: "length (wire_fields golden_message 0) = 843"
  unfolding golden_message_def by (simp add: golden_fields)

lemma golden_number: "bits_int (wire_fields golden_message 0) = bits_int (bytes_bits golden_bytes)"
  unfolding golden_message_def golden_bytes_def by (simp add: golden_fields bits_int_bits_of)

lemma golden_bits: "wire_fields golden_message 0 @ wire_align 843 = bytes_bits golden_bytes"
proof (rule bits_int_inj)
  show "length (wire_fields golden_message 0 @ wire_align 843) = length (bytes_bits golden_bytes)"
    by (simp add: golden_length wire_align_def align_len_def golden_bytes_def)
  show "bits_int (wire_fields golden_message 0 @ wire_align 843) = bits_int (bytes_bits golden_bytes)"
    by (simp add: golden_number wire_align_def)
qed

lemma golden_encoding: "message_bytes golden_message = golden_bytes"
  by (rule bytes_bits_inj) (simp only: message_bytes_bits golden_length golden_bits)

lemma golden_text: "utf8_valid [103, 111, 108, 100, 101, 110]" "utf8_valid [231, 162, 129, 231, 159, 179]"
  by code_simp+

lemma golden_ok: "\<forall>f \<in> set golden_message. typed f \<and> ok_field f"
  unfolding golden_message_def
  by (simp add: ok_eval golden_text)

lemma golden_recovered: "map recovered golden_message = golden_message"
  by (simp add: golden_message_def recovered_def Let_def compat_params compat_quantize compat_dequantize)

lemma golden_measured: "sum_list (map measured golden_message) = 870"
  by (simp add: golden_message_def field_eval)

text \<open>
  C10. The whole message of the standard. A writer given its operations emits exactly the 106 bytes
  the standard pins, a reader that declares them reads those bytes back exactly and finds the end,
  and a measure charges 870 bits for it, no fewer than the 847 the standard requires.
\<close>

theorem golden_message_bytes:
  "write_message (replicate 112 0) golden_message = Inr golden_bytes
   \<and> read_message golden_bytes slack (map shape golden_message) = Inr (golden_message, None)
   \<and> measure_message golden_message = Inr 870"
proof (intro conjI)
  have fits: "length (wire_fields golden_message 0) \<le> 8 * length (replicate 112 0 :: u8 list)" by (simp add: golden_length)
  have ok: "\<forall>f \<in> set golden_message. ok_field f" using golden_ok by blast
  show w: "write_message (replicate 112 0) golden_message = Inr golden_bytes"
    using write_message_ok [OF _ ok fits] by (simp add: golden_encoding)
  have "map shape (map shape golden_message) = map shape golden_message"
    by (simp add: golden_message_def)
  with written_is_read [OF _ golden_ok fits] w
  show "read_message golden_bytes slack (map shape golden_message) = Inr (golden_message, None)"
    by (simp add: golden_recovered)
  show "measure_message golden_message = Inr 870"
    using measure_message_ok [OF golden_ok] golden_measured by simp
qed

end
