(* ===== verification/Truncation.thy ===== *)
theory Truncation
  imports Streams
begin

text \<open>
  Packets cut short. A decoder is stable when more bits never change what it has settled: a value
  decoded from a prefix is the value decoded from the whole, and so is every refusal other than
  running out of bits. All the decoders are, so a prefix of a written message is refused as past its end.
\<close>

section \<open>Stable decoders\<close>

definition stable :: "'v decoder \<Rightarrow> bool" where
  "stable d \<longleftrightarrow> (\<forall>p bs cs. case d p bs of
      Inr (v, n) \<Rightarrow> n \<le> length bs \<and> d p (bs @ cs) = Inr (v, n)
    | Inl r \<Rightarrow> r = ErrPastEnd \<or> d p (bs @ cs) = Inl r)"

named_theorems stables

lemma stableI:
  assumes "\<And>p bs cs v n. d p bs = Inr (v, n) \<Longrightarrow> n \<le> length bs \<and> d p (bs @ cs) = Inr (v, n)"
    and "\<And>p bs cs r. d p bs = Inl r \<Longrightarrow> r = ErrPastEnd \<or> d p (bs @ cs) = Inl r"
  shows "stable d"
  using assms by (fastforce simp: stable_def split: sum.splits)

lemma stableD:
  assumes "stable d"
  shows "d p bs = Inr (v, n) \<Longrightarrow> n \<le> length bs" and "d p bs = Inr (v, n) \<Longrightarrow> d p (bs @ cs) = Inr (v, n)"
    and "d p bs = Inl r \<Longrightarrow> r \<noteq> ErrPastEnd \<Longrightarrow> d p (bs @ cs) = Inl r"
  using assms unfolding stable_def by (force split: sum.splits)+

lemma stable_return [stables]: "stable (dec_return x)"
  by (simp add: stable_def dec_return_def)

lemma stable_fail [stables]: "stable (dec_fail r)"
  by (simp add: stable_def dec_fail_def)

lemma stable_field [stables]: "stable (dec_field n f)"
  by (rule stableI) (auto simp: dec_field_def split: if_splits sum.splits)

lemma bytes_of_append: "8 * n \<le> length bs \<Longrightarrow> bytes_of n (bs @ cs) = bytes_of n bs"
  by (induction n arbitrary: bs) simp_all

lemma stable_payload [stables]: "stable (dec_payload n f)"
  by (rule stableI) (auto simp: dec_payload_def bytes_of_append split: if_splits sum.splits)

lemma stable_align [stables]: "stable dec_align"
  by (rule stableI) (auto simp: dec_align_def Let_def split: if_splits)

lemma stable_bind [stables]:
  assumes d: "stable d" and h: "\<And>x. stable (h x)"
  shows "stable (dec_bind d h)"
proof (rule stableI)
  fix p bs cs v n
  assume "dec_bind d h p bs = Inr (v, n)"
  then obtain x k m where k: "d p bs = Inr (x, k)" "h x (p + k) (drop k bs) = Inr (v, m)" "n = k + m"
    by (auto simp: dec_bind_def split: sum.splits)
  have "k \<le> length bs" by (rule stableD(1) [OF d k(1)])
  then show "n \<le> length bs \<and> dec_bind d h p (bs @ cs) = Inr (v, n)"
    using stableD(1) [OF h k(2)] stableD(2) [OF d k(1)] stableD(2) [OF h k(2), of cs] k(3) by (simp add: dec_bind_def)
next
  fix p bs cs r
  assume L: "dec_bind d h p bs = Inl r"
  show "r = ErrPastEnd \<or> dec_bind d h p (bs @ cs) = Inl r"
  proof (cases "d p bs")
    case (Inl r')
    then show ?thesis using L stableD(3) [OF d Inl, of cs] by (cases "r = ErrPastEnd") (simp_all add: dec_bind_def)
  next
    case (Inr xk)
    obtain x k where k: "d p bs = Inr (x, k)" using Inr by (cases xk) simp
    then have "h x (p + k) (drop k bs) = Inl r" using L by (simp add: dec_bind_def split: sum.splits prod.splits)
    moreover have "k \<le> length bs" by (rule stableD(1) [OF d k])
    ultimately show ?thesis
      using stableD(2) [OF d k, of cs] stableD(3) [OF h, of x "p + k" "drop k bs" r cs] by (cases "r = ErrPastEnd") (simp_all add: dec_bind_def)
  qed
qed

lemma dec_map_bind: "dec_map c d = dec_bind d (\<lambda>x. dec_return (c x))"
  by (auto simp: dec_map_def dec_bind_def dec_return_def fun_eq_iff split: sum.splits)

lemma stable_map [stables]: "stable d \<Longrightarrow> stable (dec_map c d)"
  unfolding dec_map_bind by (intro stables)

lemma stable_if [stables]: "stable d \<Longrightarrow> stable e \<Longrightarrow> stable (if b then d else e)"
  by simp

lemma stable_if_app [stables]: "stable d \<Longrightarrow> stable e \<Longrightarrow> stable (\<lambda>p bs. if b then d p bs else e p bs)"
  by (cases b) simp_all

lemma stable_range [stables]: "stable (dec_range mn mx)"
  unfolding dec_range_def by (intro stables)

lemma stable_string [stables]: "stable (dec_string n)"
  unfolding dec_string_def by (intro stables)

lemma stable_relative_result [stables]: "stable (dec_relative_result previous r)"
  unfolding dec_relative_result_def by (intro stables)

lemma stable_absolute [stables]: "stable (dec_absolute previous)"
  unfolding dec_absolute_def by (intro stables)

lemma stable_buckets [stables]: "stable (dec_buckets previous bs)"
proof (induction bs)
  case Nil
  show ?case unfolding dec_buckets.simps by (rule stables)
next
  case (Cons b bs)
  obtain lo hi where "b = (lo, hi)" by (cases b)
  then show ?case unfolding dec_bool_def by (simp add: dec_bool_def) (intro stables Cons.IH)
qed

lemma stable_code: "stable (dec_code d)"
  by (cases d) (simp_all add: dec_bits_def dec_bits64_def dec_int128_def dec_uint128_def dec_fixed64_def dec_fixed128_def dec_bool_def
      dec_float32_def dec_float64_def dec_bytes_def dec_int_relative_def dec_compressed_code_def dec_precomputed_code_def
      dec_float_code_def Let_def stables split: prod.split)

lemma stable_fields: "stable (dec_fields ds)"
proof -
  have "stable (dec_codes ds)"
    by (induction ds) (simp_all add: stables stable_code)
  then show ?thesis unfolding dec_fields_codes by (rule stables)
qed

section \<open>A written message, cut\<close>

lemma typed_shapes: "map shape ds = map shape fs \<Longrightarrow> \<forall>f \<in> set fs. typed f \<Longrightarrow> \<forall>d \<in> set ds. typed d"
  by (metis (no_types, lifting) image_iff set_map shape_typed)

lemma dec_fields_written:
  assumes fs: "\<forall>f \<in> set fs. typed f \<and> ok_field f" and shapes: "map shape ds = map shape fs"
  shows "dec_fields ds p (wire_fields fs p @ rest) = Inr (map recovered fs, length (wire_fields fs p))"
proof -
  have "\<forall>d \<in> set ds. typed d" using typed_shapes [OF shapes] fs by blast
  from completeD [OF encodesD(1) [OF dec_codes_encodes [OF this]], of "map code fs" p rest]
  have "dec_codes ds p (wire_fields fs p @ rest) = Inr (map code fs, length (wire_fields fs p))"
    using fs shapes by (simp add: wire_fields_codes ok_code_code comp_def)
  then show ?thesis by (simp add: dec_fields_codes dec_map_def recovered_def comp_def)
qed

lemma dec_fields_cut:
  assumes "\<forall>f \<in> set fs. typed f \<and> ok_field f" and "map shape ds = map shape fs" and "m < length (wire_fields fs p)"
  shows "dec_fields ds p (take m (wire_fields fs p @ rest)) = Inl ErrPastEnd"
proof -
  define full where "full = wire_fields fs p @ rest"
  have whole: "dec_fields ds p full = Inr (map recovered fs, length (wire_fields fs p))"
    unfolding full_def by (rule dec_fields_written [OF assms(1,2)])
  have "dec_fields ds p (take m full) = Inl ErrPastEnd"
  proof (cases "dec_fields ds p (take m full)")
    case (Inl r)
    then show ?thesis using stableD(3) [OF stable_fields Inl, of "drop m full"] whole by (cases "r = ErrPastEnd") simp_all
  next
    case (Inr vn)
    obtain v n where vn: "dec_fields ds p (take m full) = Inr (v, n)" using Inr by (cases vn) simp
    have "n \<le> m" using stableD(1) [OF stable_fields vn] by simp
    moreover have "n = length (wire_fields fs p)" using stableD(2) [OF stable_fields vn, of "drop m full"] whole by simp
    ultimately show ?thesis using assms(3) by simp
  qed
  then show ?thesis by (simp only: full_def)
qed

lemma truncated_run:
  assumes fs: "\<forall>f \<in> set fs. typed f \<and> ok_field f" and shapes: "map shape ds = map shape fs" and k: "k < length (message_bytes fs)"
  obtains s' gs i where "serialize_fields (Reading (NewReadStream (take k (message_bytes fs)) slack :: 'c read_stream)) ds = Inr (Reading s', gs)"
    "rs_err s' = Some (ErrRefusal ErrPastEnd)" "i < length ds" "length (wire_fields (take i fs) 0) \<le> 8 * k"
    "8 * k < length (wire_fields (take (Suc i) fs) 0)" "gs = map recovered (take i fs) @ drop i ds"
proof -
  define bs where "bs = take (8 * k) (wire_fields fs 0 @ wire_align (length (wire_fields fs 0)))"
  define s :: "'c read_stream" where "s = NewReadStream (take k (message_bytes fs)) slack"
  have rest: "rs_rest s = bs" "rs_pos s = 0" and s: "br_inv (rs_reader s)" "rs_err s = None"
    by (simp_all add: s_def bs_def flip: take_bytes_bits message_bytes_bits)
  have "8 * length (message_bytes fs) = length (wire_fields fs 0) + align_len (length (wire_fields fs 0))"
    using arg_cong [OF message_bytes_bits [of fs], of length] by (simp add: wire_align_def)
  then have cut: "8 * k < length (wire_fields fs 0)" using k align_len_le7 [of "length (wire_fields fs 0)"] by linarith
  have typed: "\<forall>d \<in> set ds. typed d" using typed_shapes [OF shapes] fs by blast
  obtain s' gs where run: "serialize_fields (Reading s) ds = Inr (Reading s', gs)" and D: "delivers s ds s' gs"
    using read_fields [OF typed s] by blast
  have "dec_fields ds 0 bs = Inl ErrPastEnd" unfolding bs_def by (rule dec_fields_cut [OF fs shapes cut])
  then obtain j i xs n where D': "s' = latch ErrPastEnd (advance j s)" "i < length ds" "dec_fields (take i ds) 0 bs = Inr (xs, n)"
    "gs = xs @ drop i ds" "dec_fields (take (Suc i) ds) 0 bs = Inl ErrPastEnd"
    using D rest by (auto simp: delivers_def simp del: dec_fields.simps take_Suc_Cons)
  have ts: "\<forall>f \<in> set (take l fs). typed f \<and> ok_field f" for l using fs by (auto dest: in_set_takeD)
  have sh: "map shape (take l ds) = map shape (take l fs)" for l using shapes by (metis take_map)
  have split: "\<exists>rest'. wire_fields fs 0 @ wire_align (length (wire_fields fs 0)) = wire_fields (take l fs) 0 @ rest'" for l
    using wire_fields_append [of "take l fs" "drop l fs" 0] by simp
  have "8 * k < length (wire_fields (take (Suc i) fs) 0)"
  proof (rule ccontr)
    assume "\<not> 8 * k < length (wire_fields (take (Suc i) fs) 0)"
    moreover obtain rest' where "wire_fields fs 0 @ wire_align (length (wire_fields fs 0)) = wire_fields (take (Suc i) fs) 0 @ rest'"
      using split by blast
    ultimately have "bs = wire_fields (take (Suc i) fs) 0 @ take (8 * k - length (wire_fields (take (Suc i) fs) 0)) rest'"
      unfolding bs_def by (simp only: take_append not_less take_all)
    then show False using dec_fields_written [OF ts sh] D'(5) by simp
  qed
  moreover obtain rest' where "wire_fields fs 0 @ wire_align (length (wire_fields fs 0)) = wire_fields (take i fs) 0 @ rest'"
    using split by blast
  then have "bs @ drop (8 * k) (wire_fields (take i fs) 0 @ rest') = wire_fields (take i fs) 0 @ rest'"
    unfolding bs_def by (simp only: append_take_drop_id)
  then have "xs = map recovered (take i fs)" "n = length (wire_fields (take i fs) 0)"
    using stableD(2) [OF stable_fields D'(3), of "drop (8 * k) (wire_fields (take i fs) 0 @ rest')"]
      dec_fields_written [OF ts sh, where p = 0 and rest = rest'] by simp_all
  moreover have "n \<le> 8 * k" using stableD(1) [OF stable_fields D'(3)] by (simp add: bs_def)
  ultimately show thesis using that [of s' gs i] run D' by (simp add: s_def)
qed

text \<open>The end of a written message: after its last field there is the padding of the final byte.\<close>

lemma written_end:
  assumes "br_inv (rs_reader s)" and "rs_err s = None" and "rs_pos s = length (wire_fields fs 0)"
    and "rs_rest s = wire_align (length (wire_fields fs 0))"
  obtains s' where "ReadStream_SerializeEnd s = Inr (s', None)" "rs_err s' = None" "rs_pos s' = 8 * length (message_bytes fs)"
proof -
  let ?w = "wire_fields fs 0"
  have "dec_end (length ?w) (wire_align (length ?w)) = Inr ((), align_len (length ?w))"
    using align_len_le7 [of "length ?w"] by (simp add: dec_end_def wire_align_def Let_def)
  then have "ReadStream_SerializeEnd s = Inr (advance (align_len (length ?w)) s, None)"
    using reads0D [OF readsD(2) [OF SerializeEnd_reads [where pre = "\<lambda>_ _. True"]] assms(1,2)] assms(3,4)
    by (auto simp: follows_def no_value_def andThen_Inr_iff split: prod.splits)
  moreover have "length ?w + align_len (length ?w) = 8 * length (message_bytes fs)"
    using arg_cong [OF message_bytes_bits [of fs], of length] by (simp add: wire_align_def)
  ultimately show thesis using that [of "advance (align_len (length ?w)) s"] assms(2,3) by simp
qed

text \<open>A written message, read to its end: the stream stops at the last bit of the packet.\<close>

lemma written_run:
  assumes fs: "\<forall>f \<in> set fs. typed f \<and> ok_field f" and shapes: "map shape ds = map shape fs"
  obtains s1 s2 where "serialize_fields (Reading (NewReadStream (message_bytes fs) slack :: 'c read_stream)) ds = Inr (Reading s1, map recovered fs)"
    "ReadStream_SerializeEnd s1 = Inr (s2, None)" "rs_err s2 = None" "rs_pos s2 = 8 * length (message_bytes fs)"
proof -
  let ?w = "wire_fields fs 0"
  define s :: "'c read_stream" where "s = NewReadStream (message_bytes fs) slack"
  have rest: "rs_rest s = ?w @ wire_align (length ?w)" "rs_pos s = 0" and s: "br_inv (rs_reader s)" "rs_err s = None"
    by (simp_all add: s_def message_bytes_bits)
  have typed: "\<forall>d \<in> set ds. typed d" using typed_shapes [OF shapes] fs by blast
  obtain s1 gs where run: "serialize_fields (Reading s) ds = Inr (Reading s1, gs)" and D: "delivers s ds s1 gs"
    using read_fields [OF typed s] by blast
  have s1: "s1 = advance (length ?w) s" "gs = map recovered fs"
    using D dec_fields_written [OF fs shapes, of 0 "wire_align (length ?w)"] rest by (simp_all add: delivers_def)
  have inv: "br_inv (rs_reader s1)" "rs_err s1 = None" "rs_pos s1 = length ?w" "rs_rest s1 = wire_align (length ?w)"
    using br_inv_advance_stream [OF s(1), of "length ?w"] rest s(2) unfolding s1(1) by simp_all
  obtain s2 where "ReadStream_SerializeEnd s1 = Inr (s2, None)" "rs_err s2 = None" "rs_pos s2 = 8 * length (message_bytes fs)"
    using written_end [OF inv] by blast
  then show thesis using that [of s1 s2] run unfolding s1(2) s_def by simp
qed

text \<open>A packet whose first fields are as written and whose next one is refused.\<close>

lemma dec_fields_append:
  "dec_fields (xs @ ys) = dec_bind (dec_fields xs) (\<lambda>us. dec_bind (dec_fields ys) (\<lambda>vs. dec_return (us @ vs)))"
  by (induction xs) (auto simp: dec_bind_def dec_return_def fun_eq_iff ac_simps split: sum.splits)

lemma refused_run:
  assumes fs: "\<forall>f \<in> set fs. typed f \<and> ok_field f" and shapes: "map shape ds = map shape fs"
    and typed: "\<forall>d' \<in> set (d # ds'). typed d'"
    and packet: "bytes_bits packet = wire_fields fs 0 @ rest" and refused: "dec_of d (length (wire_fields fs 0)) rest = Inl r"
  obtains s' xs i where "serialize_fields (Reading (NewReadStream packet slack :: 'c read_stream)) (ds @ d # ds') = Inr (Reading s', xs @ drop i (ds @ d # ds'))"
    "rs_err s' = Some (ErrRefusal r)" "i \<le> length ds" "length xs = i"
proof -
  define s :: "'c read_stream" where "s = NewReadStream packet slack"
  have s: "br_inv (rs_reader s)" "rs_err s = None" "rs_pos s = 0" "rs_rest s = wire_fields fs 0 @ rest" by (simp_all add: s_def packet)
  have all: "\<forall>d' \<in> set (ds @ d # ds'). typed d'" using typed typed_shapes [OF shapes] fs by auto
  obtain s' gs where run: "serialize_fields (Reading s) (ds @ d # ds') = Inr (Reading s', gs)" and D: "delivers s (ds @ d # ds') s' gs"
    using read_fields [OF all s(1,2)] by blast
  have stop: "dec_fields (ds @ d # zs) 0 (wire_fields fs 0 @ rest) = Inl r" for zs
    unfolding dec_fields_append using dec_fields_written [OF fs shapes, of 0 rest] refused by (simp add: dec_bind_def)
  then obtain k i xs n where K: "s' = latch r (advance k s)" "i < length (ds @ d # ds')"
    "dec_fields (take i (ds @ d # ds')) 0 (wire_fields fs 0 @ rest) = Inr (xs, n)" "gs = xs @ drop i (ds @ d # ds')"
    using D s(3,4) by (auto simp: delivers_def)
  have "i \<le> length ds"
  proof (rule ccontr)
    assume "\<not> i \<le> length ds"
    then obtain j where "i = length ds + Suc j" by (metis add_Suc_right less_imp_Suc_add not_le)
    then have "take i (ds @ d # ds') = ds @ d # take j ds'" by simp
    then show False using K(3) stop by simp
  qed
  moreover have "\<forall>d' \<in> set (take i (ds @ d # ds')). typed d'" using all by (meson in_set_takeD)
  from delivered_fields(1) [OF this K(3)] have "length xs = i" using K(2) by (metis length_map length_take min.absorb2 less_imp_le)
  ultimately show thesis using that [of s' xs i] run K(1,4) by (simp add: s_def)
qed

lemma SerializeEnd_terminal: "rs_err s \<noteq> None \<Longrightarrow> ReadStream_SerializeEnd s = Inr (s, rs_err s)"
  by (simp add: ReadStream_SerializeEnd_def)

lemma write_message_bytes:
  assumes "length buf mod 8 = 0" and "\<forall>f \<in> set fs. ok_field f" and "write_message buf fs = Inr packet"
  shows "packet = message_bytes fs"
  using write_message_ok [OF assms(1,2)] write_message_overflow [OF assms(1,2)] assms(3)
  by (cases "length (wire_fields fs 0) \<le> 8 * length buf") simp_all



end
