(* ===== verification/Compat.thy ===== *)
theory Compat
  imports Streams
begin

text \<open>
  The conformance harness (compat/main.go): its data, the serialize function of 45 calls written
  once for every stream, the writer of the vector file and the reader that checks one. A file is
  its bytes; the values of a float are bit patterns, those of a string its bytes. The field \<open>text\<close> of the Go
  struct is \<open>cyrillic\<close> here.
\<close>

section \<open>The data\<close>

record compat_data =
  bits4 :: u32
  bits11 :: u32
  bits24 :: u32
  bits32 :: u32
  intSmall :: i32
  intFull :: i32
  degenerate :: i32
  flag :: bool
  floatValue :: f32
  compressedFloatValue :: f32
  compressedFloatHalf :: f32
  compressedFloatShift :: f32
  clampRejectWitness :: f32
  clampWideWitness :: f32
  doubleValue :: u64
  uint8Value :: u8
  uint16Value :: u16
  uint32Value :: u32
  uint64Value :: u64
  relativeNear :: i32
  relativeFar :: i32
  bytes :: "u8 list"
  str :: "u8 list"
  cyrillic :: "u8 list"
  bits33 :: u64
  int64Full :: i64
  int64Range :: i64
  uint128Value :: uint128
  int128Degenerate :: int128
  int128OneGroup :: int128
  int128TwoGroup :: int128
  int128ThreeGroup :: int128
  int128FourGroup :: int128
  int128Full :: int128
  fixedQ8_8 :: i64
  fixedQ16_16 :: i64
  fixedQ48_16 :: i64
  fixedQ16_16Unsigned :: i64
  fixedQ48_16Degenerate :: i64
  fixedQ112_16Small :: int128
  fixedQ112_16Mid :: int128
  fixedQ112_16Degenerate :: int128
  fixedQ112_16Wide :: int128
  fixedQ64_64Wide :: int128

definition initCompatData :: compat_data where
  "initCompatData = \<lparr>
     bits4 = 13,
     bits11 = 1445,
     bits24 = 11259375,
     bits32 = 0xDEADBEEF,
     intSmall = - 37,
     intFull = - 123456789,
     degenerate = 42,
     flag = True,
     floatValue = 0x40490FDA,
     compressedFloatValue = 0x40A00000,
     compressedFloatHalf = 0x3BA3D70A,
     compressedFloatShift = 0xC22A4AC1,
     clampRejectWitness = 0x4B000001,
     clampWideWitness = 0x4B7FFFFF,
     doubleValue = 0x3FD5555555555555,
     uint8Value = 0x7F,
     uint16Value = 0x1234,
     uint32Value = 0x12345678,
     uint64Value = 0x123456789ABCDEF0,
     relativeNear = 101,
     relativeFar = 2100,
     bytes = [0xDE, 0xAD, 0xBE, 0xEF, 0xCA, 0xFE, 0x01],
     str = [103, 111, 108, 100, 101, 110],
     cyrillic = [0xD0, 0xBC, 0xD0, 0xB8, 0xD1, 0x80],
     bits33 = 0x1DEADBEEF,
     int64Full = - 123456789012345,
     int64Range = 4123456789,
     uint128Value = Uint128 0xFEDCBA9876543210 0x0123456789ABCDEF,
     int128Degenerate = Int128 7 (push_bit 36 1),
     int128OneGroup = Int128From64 (- 37),
     int128TwoGroup = Int128From64 4123456789,
     int128ThreeGroup = Int128From64 (- 0x0123456789ABCDEF),
     int128FourGroup = Int128_Neg (Int128_Add (Int128_Lsh (Int128From64 0x123456789) 64) (Int128From64 0x0FEDCBA987654321)),
     int128Full = Int128_Add (Int128_Lsh (Int128From64 0x0123456789ABCDEF) 64) (Int128From64 0x0FEDCBA987654321),
     fixedQ8_8 = - (3 * 256 + 64),
     fixedQ16_16 = 1234 * 65536 + 32768,
     fixedQ48_16 = - (54321 * 65536 + 12345),
     fixedQ16_16Unsigned = 29999 * 65536 + 65535,
     fixedQ48_16Degenerate = - (push_bit 16 7),
     fixedQ112_16Small = Int128From64 (- (1 * 65536 + 16384)),
     fixedQ112_16Mid = Int128From64 (12345678901 * 65536 + 32768),
     fixedQ112_16Degenerate = Int128From64 (push_bit 16 9),
     fixedQ112_16Wide = Int128From64 (- (98765432109 * 65536 + 4321)),
     fixedQ64_64Wide = Int128_Add (Int128_Lsh (Int128From64 0x0123456789ABCDEF) 64) (Int128From64 0x0FEDCBA987654321)\<rparr>"

definition sentinel128 :: int128 where
  "sentinel128 = Int128 0xDEADDEADDEADDEAD 0x5A5A5A5A5A5A5A5A"

definition initSentinelCompatData :: compat_data where
  "initSentinelCompatData = \<lparr>
     bits4 = 0xA5A5A5A5,
     bits11 = 0xA5A5A5A5,
     bits24 = 0xA5A5A5A5,
     bits32 = 0xA5A5A5A5,
     intSmall = - 777777,
     intFull = - 777777,
     degenerate = - 777777,
     flag = False,
     floatValue = 0xC7C34FC0,
     compressedFloatValue = 0xC7C34FC0,
     compressedFloatHalf = 0xC7C34FC0,
     compressedFloatShift = 0xC7C34FC0,
     clampRejectWitness = 0xC7C34FC0,
     clampWideWitness = 0xC7C34FC0,
     doubleValue = 0xC0F869F800000000,
     uint8Value = 0x5A,
     uint16Value = 0x5A5A,
     uint32Value = 0x5A5A5A5A,
     uint64Value = 0x5A5A5A5A5A5A5A5A,
     relativeNear = - 777777,
     relativeFar = - 777777,
     bytes = [0x5A, 0x5A, 0x5A, 0x5A, 0x5A, 0x5A, 0x5A],
     str = [115, 101, 110, 116, 105, 110, 101, 108],
     cyrillic = [115, 101, 110, 116],
     bits33 = 0x5A5A5A5A5A5A5A5A,
     int64Full = - 777777777777,
     int64Range = - 777777777777,
     uint128Value = Uint128 0xDEADDEADDEADDEAD 0x5A5A5A5A5A5A5A5A,
     int128Degenerate = sentinel128,
     int128OneGroup = sentinel128,
     int128TwoGroup = sentinel128,
     int128ThreeGroup = sentinel128,
     int128FourGroup = sentinel128,
     int128Full = sentinel128,
     fixedQ8_8 = - 777777777777,
     fixedQ16_16 = - 777777777777,
     fixedQ48_16 = - 777777777777,
     fixedQ16_16Unsigned = - 777777777777,
     fixedQ48_16Degenerate = - 777777777777,
     fixedQ112_16Small = sentinel128,
     fixedQ112_16Mid = sentinel128,
     fixedQ112_16Degenerate = sentinel128,
     fixedQ112_16Wide = sentinel128,
     fixedQ64_64Wide = sentinel128\<rparr>"

definition expectedCompatData :: compat_data where
  "expectedCompatData = initCompatData\<lparr>compressedFloatHalf := 0x3C23D70B, compressedFloatShift := 0xC22A47AE\<rparr>"

section \<open>The serialize function\<close>

text \<open>
  The calls of \<open>serializeCompat\<close> in order: what is serialized, and where a call delivers what it
  read. No call reads a destination that another one writes, so the values of all calls can be
  taken before the first.
\<close>

definition int128DegenUnit :: int128 where "int128DegenUnit = Int128 7 (push_bit 36 1)"
definition int128Bound70 :: int128 where "int128Bound70 = Int128_Lsh (Int128From64 1) 70"
definition int128Bound100 :: int128 where "int128Bound100 = Int128_Lsh (Int128From64 1) 100"
definition int128Min :: int128 where "int128Min = Int128 0 (push_bit 63 1)"
definition int128Max :: int128 where "int128Max = Int128 (NOT 0) (drop_bit 1 (NOT 0))"

definition compat_calls :: "compat_data \<Rightarrow> (field \<times> (field \<Rightarrow> compat_data \<Rightarrow> compat_data)) list" where
  "compat_calls data = [
     (FBits (bits4 data) 4, \<lambda>f d. case f of FBits v _ \<Rightarrow> d\<lparr>bits4 := v\<rparr> | _ \<Rightarrow> d),
     (FBits (bits11 data) 11, \<lambda>f d. case f of FBits v _ \<Rightarrow> d\<lparr>bits11 := v\<rparr> | _ \<Rightarrow> d),
     (FBits (bits24 data) 24, \<lambda>f d. case f of FBits v _ \<Rightarrow> d\<lparr>bits24 := v\<rparr> | _ \<Rightarrow> d),
     (FBits (bits32 data) 32, \<lambda>f d. case f of FBits v _ \<Rightarrow> d\<lparr>bits32 := v\<rparr> | _ \<Rightarrow> d),
     (FInt (intSmall data) (- 100) 100, \<lambda>f d. case f of FInt v _ _ \<Rightarrow> d\<lparr>intSmall := v\<rparr> | _ \<Rightarrow> d),
     (FInt (intFull data) (- 2147483648) 2147483647, \<lambda>f d. case f of FInt v _ _ \<Rightarrow> d\<lparr>intFull := v\<rparr> | _ \<Rightarrow> d),
     (FInt (degenerate data) 42 42, \<lambda>f d. case f of FInt v _ _ \<Rightarrow> d\<lparr>degenerate := v\<rparr> | _ \<Rightarrow> d),
     (FBool (flag data), \<lambda>f d. case f of FBool v \<Rightarrow> d\<lparr>flag := v\<rparr> | _ \<Rightarrow> d),
     (FFloat32 (floatValue data), \<lambda>f d. case f of FFloat32 v \<Rightarrow> d\<lparr>floatValue := v\<rparr> | _ \<Rightarrow> d),
     (FCompressedFloat32 (compressedFloatValue data) 0 0x41200000 0x3C23D70A, \<lambda>f d. case f of FCompressedFloat32 v _ _ _ \<Rightarrow> d\<lparr>compressedFloatValue := v\<rparr> | _ \<Rightarrow> d),
     (FCompressedFloat32Precomputed (compressedFloatHalf data) 1000 10 0x41200000 0, \<lambda>f d. case f of FCompressedFloat32Precomputed v _ _ _ _ \<Rightarrow> d\<lparr>compressedFloatHalf := v\<rparr> | _ \<Rightarrow> d),
     (FCompressedFloat32 (compressedFloatShift data) 0xC2C80000 0x42C80000 0x3C23D70A, \<lambda>f d. case f of FCompressedFloat32 v _ _ _ \<Rightarrow> d\<lparr>compressedFloatShift := v\<rparr> | _ \<Rightarrow> d),
     (FCompressedFloat32 (clampRejectWitness data) 0 0x4B000001 0x3F800000, \<lambda>f d. case f of FCompressedFloat32 v _ _ _ \<Rightarrow> d\<lparr>clampRejectWitness := v\<rparr> | _ \<Rightarrow> d),
     (FCompressedFloat32 (clampWideWitness data) 0 0x4B7FFFFF 0x3F800000, \<lambda>f d. case f of FCompressedFloat32 v _ _ _ \<Rightarrow> d\<lparr>clampWideWitness := v\<rparr> | _ \<Rightarrow> d),
     (FFloat64 (doubleValue data), \<lambda>f d. case f of FFloat64 v \<Rightarrow> d\<lparr>doubleValue := v\<rparr> | _ \<Rightarrow> d),
     (FUint8 (uint8Value data), \<lambda>f d. case f of FUint8 v \<Rightarrow> d\<lparr>uint8Value := v\<rparr> | _ \<Rightarrow> d),
     (FUint16 (uint16Value data), \<lambda>f d. case f of FUint16 v \<Rightarrow> d\<lparr>uint16Value := v\<rparr> | _ \<Rightarrow> d),
     (FUint32 (uint32Value data), \<lambda>f d. case f of FUint32 v \<Rightarrow> d\<lparr>uint32Value := v\<rparr> | _ \<Rightarrow> d),
     (FUint64 (uint64Value data), \<lambda>f d. case f of FUint64 v \<Rightarrow> d\<lparr>uint64Value := v\<rparr> | _ \<Rightarrow> d),
     (FIntRelative 100 (relativeNear data), \<lambda>f d. case f of FIntRelative _ v \<Rightarrow> d\<lparr>relativeNear := v\<rparr> | _ \<Rightarrow> d),
     (FIntRelative 100 (relativeFar data), \<lambda>f d. case f of FIntRelative _ v \<Rightarrow> d\<lparr>relativeFar := v\<rparr> | _ \<Rightarrow> d),
     (FAlign, \<lambda>f d. d),
     (FBytes (bytes data), \<lambda>f d. case f of FBytes v \<Rightarrow> d\<lparr>bytes := v\<rparr> | _ \<Rightarrow> d),
     (FString (str data) 16, \<lambda>f d. case f of FString v _ \<Rightarrow> d\<lparr>str := v\<rparr> | _ \<Rightarrow> d),
     (FString (cyrillic data) 8, \<lambda>f d. case f of FString v _ \<Rightarrow> d\<lparr>cyrillic := v\<rparr> | _ \<Rightarrow> d),
     (FBits64 (bits33 data) 33, \<lambda>f d. case f of FBits64 v _ \<Rightarrow> d\<lparr>bits33 := v\<rparr> | _ \<Rightarrow> d),
     (FInt64 (int64Full data) (- 9223372036854775808) 9223372036854775807, \<lambda>f d. case f of FInt64 v _ _ \<Rightarrow> d\<lparr>int64Full := v\<rparr> | _ \<Rightarrow> d),
     (FInt64 (int64Range data) (- 5000000000) 5000000000, \<lambda>f d. case f of FInt64 v _ _ \<Rightarrow> d\<lparr>int64Range := v\<rparr> | _ \<Rightarrow> d),
     (FUint128 (uint128Value data), \<lambda>f d. case f of FUint128 v \<Rightarrow> d\<lparr>uint128Value := v\<rparr> | _ \<Rightarrow> d),
     (FInt128 (int128Degenerate data) int128DegenUnit int128DegenUnit, \<lambda>f d. case f of FInt128 v _ _ \<Rightarrow> d\<lparr>int128Degenerate := v\<rparr> | _ \<Rightarrow> d),
     (FInt128 (int128OneGroup data) (Int128From64 (- 100)) (Int128From64 100), \<lambda>f d. case f of FInt128 v _ _ \<Rightarrow> d\<lparr>int128OneGroup := v\<rparr> | _ \<Rightarrow> d),
     (FInt128 (int128TwoGroup data) (Int128From64 (- 5000000000)) (Int128From64 5000000000), \<lambda>f d. case f of FInt128 v _ _ \<Rightarrow> d\<lparr>int128TwoGroup := v\<rparr> | _ \<Rightarrow> d),
     (FInt128 (int128ThreeGroup data) (Int128_Neg int128Bound70) int128Bound70, \<lambda>f d. case f of FInt128 v _ _ \<Rightarrow> d\<lparr>int128ThreeGroup := v\<rparr> | _ \<Rightarrow> d),
     (FInt128 (int128FourGroup data) (Int128_Neg int128Bound100) int128Bound100, \<lambda>f d. case f of FInt128 v _ _ \<Rightarrow> d\<lparr>int128FourGroup := v\<rparr> | _ \<Rightarrow> d),
     (FInt128 (int128Full data) int128Min int128Max, \<lambda>f d. case f of FInt128 v _ _ \<Rightarrow> d\<lparr>int128Full := v\<rparr> | _ \<Rightarrow> d),
     (FFixed64 (fixedQ8_8 data) 8 8 (- 100) 100, \<lambda>f d. case f of FFixed64 v _ _ _ _ \<Rightarrow> d\<lparr>fixedQ8_8 := v\<rparr> | _ \<Rightarrow> d),
     (FFixed64 (fixedQ16_16 data) 16 16 (- 2000) 2000, \<lambda>f d. case f of FFixed64 v _ _ _ _ \<Rightarrow> d\<lparr>fixedQ16_16 := v\<rparr> | _ \<Rightarrow> d),
     (FFixed64 (fixedQ48_16 data) 48 16 (- 100000) 100000, \<lambda>f d. case f of FFixed64 v _ _ _ _ \<Rightarrow> d\<lparr>fixedQ48_16 := v\<rparr> | _ \<Rightarrow> d),
     (FFixed64 (fixedQ16_16Unsigned data) 16 16 0 30000, \<lambda>f d. case f of FFixed64 v _ _ _ _ \<Rightarrow> d\<lparr>fixedQ16_16Unsigned := v\<rparr> | _ \<Rightarrow> d),
     (FFixed64 (fixedQ48_16Degenerate data) 48 16 (- 7) (- 7), \<lambda>f d. case f of FFixed64 v _ _ _ _ \<Rightarrow> d\<lparr>fixedQ48_16Degenerate := v\<rparr> | _ \<Rightarrow> d),
     (FFixed128 (fixedQ112_16Small data) 112 16 (- 2) 2, \<lambda>f d. case f of FFixed128 v _ _ _ _ \<Rightarrow> d\<lparr>fixedQ112_16Small := v\<rparr> | _ \<Rightarrow> d),
     (FFixed128 (fixedQ112_16Mid data) 112 16 (- 100000000000) 100000000000, \<lambda>f d. case f of FFixed128 v _ _ _ _ \<Rightarrow> d\<lparr>fixedQ112_16Mid := v\<rparr> | _ \<Rightarrow> d),
     (FFixed128 (fixedQ112_16Degenerate data) 112 16 9 9, \<lambda>f d. case f of FFixed128 v _ _ _ _ \<Rightarrow> d\<lparr>fixedQ112_16Degenerate := v\<rparr> | _ \<Rightarrow> d),
     (FFixed128 (fixedQ112_16Wide data) 112 16 (- 144115188075855872) 144115188075855872, \<lambda>f d. case f of FFixed128 v _ _ _ _ \<Rightarrow> d\<lparr>fixedQ112_16Wide := v\<rparr> | _ \<Rightarrow> d),
     (FFixed128 (fixedQ64_64Wide data) 64 64 (- 9223372036854775808) 9223372036854775807, \<lambda>f d. case f of FFixed128 v _ _ _ _ \<Rightarrow> d\<lparr>fixedQ64_64Wide := v\<rparr> | _ \<Rightarrow> d)]"

definition compat_fields :: "compat_data \<Rightarrow> field list" where
  "compat_fields data = map fst (compat_calls data)"

definition compat_store :: "field list \<Rightarrow> compat_data \<Rightarrow> compat_data" where
  "compat_store fs data = fold (\<lambda>(deliver, f). deliver f) (zip (map snd (compat_calls data)) fs) data"

definition serializeCompat :: "'c stream \<Rightarrow> compat_data \<Rightarrow> ('c stream \<times> compat_data \<times> go_error option) res" where
  "serializeCompat stream data =
    andThen (serialize_fields stream (compat_fields data)) (\<lambda>(stream, fs).
    andThen (Stream_SerializeEnd stream) (\<lambda>(stream, _).
      Inr (stream, compat_store fs data, Stream_Err stream)))"

section \<open>The writer\<close>

datatype compat_error =
    WriteStreamFailed go_error
  | ReadStreamFailed go_error
  | DecodedValuesDoNotMatch
  | BitsProcessed nat
  | BytesProcessed nat
  | ReencodeFailed go_error
  | ReencodedBytesDiffer
  | TruncatedReadSucceeded nat
  | TruncatedReadMutated nat
  | SubsequentReadSucceeded nat
  | SubsequentReadAdvanced nat
  | SubsequentReadMutated nat
  | HighGroupFailed go_error
  | HighGroupMatched
  | RangeNotRefused "go_error option"
  | RangeMutated
  | SwapFailed go_error
  | SwapMatched

text \<open>The bytes of a serialized struct, as \<open>write\<close> and the re-encoding of \<open>read\<close> make them.\<close>

definition compat_encode :: "compat_data \<Rightarrow> (go_error + u8 list) res" where
  "compat_encode data =
    andThen (NewWriteStream (replicate 512 0)) (\<lambda>s :: unit write_stream.
    andThen (serializeCompat (Writing s) data) (\<lambda>(stream, _, err).
      case err of Some e \<Rightarrow> Inr (Inl e)
      | None \<Rightarrow> (case stream of
          Writing s \<Rightarrow> andThen (WriteStream_Flush s) (\<lambda>s. andThen (WriteStream_Data s) (\<lambda>bs. Inr (Inr bs)))
        | _ \<Rightarrow> Inr (Inr []))))"

definition compat_write :: "(compat_error + u8 list) res" where
  "compat_write = andThen (compat_encode initCompatData) (\<lambda>r.
     case r of Inl e \<Rightarrow> Inr (Inl (WriteStreamFailed e)) | Inr bs \<Rightarrow> Inr (Inr bs))"

section \<open>The reader\<close>

text \<open>
  A check gives the error it returns with, or nothing; the next one runs when it gave nothing.
\<close>

definition next_check :: "compat_error option res \<Rightarrow> compat_error option res \<Rightarrow> compat_error option res" where
  "next_check c d = andThen c (\<lambda>e. case e of Some e \<Rightarrow> Inr (Some e) | None \<Rightarrow> d)"

definition compat_decode :: "u8 list \<Rightarrow> u8 list \<Rightarrow> (unit stream \<times> compat_data \<times> go_error option) res" where
  "compat_decode packet slack = serializeCompat (Reading (NewReadStream packet slack)) initSentinelCompatData"

text \<open>
  Equality of two structs in Go: the floats by value, so that a NaN differs from itself, every other
  member bit for bit.
\<close>

definition f64_eq :: "u64 \<Rightarrow> u64 \<Rightarrow> bool" where
  "f64_eq x y \<longleftrightarrow>
    (let magnitude = (\<lambda>x :: u64. x AND 0x7FFFFFFFFFFFFFFF)
     in magnitude x \<le> 0x7FF0000000000000 \<and> magnitude y \<le> 0x7FF0000000000000 \<and> (x = y \<or> magnitude x = 0 \<and> magnitude y = 0))"

definition compat_equal :: "compat_data \<Rightarrow> compat_data \<Rightarrow> bool" where
  "compat_equal a b \<longleftrightarrow>
    f32_eq (floatValue a) (floatValue b) \<and> f32_eq (compressedFloatValue a) (compressedFloatValue b)
    \<and> f32_eq (compressedFloatHalf a) (compressedFloatHalf b) \<and> f32_eq (compressedFloatShift a) (compressedFloatShift b)
    \<and> f32_eq (clampRejectWitness a) (clampRejectWitness b) \<and> f32_eq (clampWideWitness a) (clampWideWitness b)
    \<and> f64_eq (doubleValue a) (doubleValue b)
    \<and> a\<lparr>floatValue := floatValue b, compressedFloatValue := compressedFloatValue b, compressedFloatHalf := compressedFloatHalf b,
         compressedFloatShift := compressedFloatShift b, clampRejectWitness := clampRejectWitness b,
         clampWideWitness := clampWideWitness b, doubleValue := doubleValue b\<rparr> = b"

definition reencode_check :: "u8 list \<Rightarrow> compat_data \<Rightarrow> compat_error option res" where
  "reencode_check packet data = andThen (compat_encode data) (\<lambda>r.
     case r of Inl e \<Rightarrow> Inr (Some (ReencodeFailed e))
     | Inr bs \<Rightarrow> if bs \<noteq> packet then Inr (Some ReencodedBytesDiffer) else Inr None)"

text \<open>The sweep: every prefix of the packet must fail, and stay failed.\<close>

definition truncation_check :: "u8 list \<Rightarrow> nat \<Rightarrow> compat_error option res" where
  "truncation_check packet truncLen =
    andThen (compat_decode (take truncLen packet) []) (\<lambda>(stream, data, err).
      if err = None then Inr (Some (TruncatedReadSucceeded truncLen))
      else if int truncLen \<le> int (length packet) - 16 \<and> fixedQ64_64Wide data \<noteq> fixedQ64_64Wide initSentinelCompatData
      then Inr (Some (TruncatedReadMutated truncLen))
      else
        let bitsBefore = Stream_BitsProcessed stream;
            afterFail = fixedQ64_64Wide initSentinelCompatData
        in andThen (serialize_field stream (FFixed128 afterFail 64 64 (- 9223372036854775808) 9223372036854775807)) (\<lambda>(stream, f, err).
             if err = None then Inr (Some (SubsequentReadSucceeded truncLen))
             else if Stream_BitsProcessed stream \<noteq> bitsBefore then Inr (Some (SubsequentReadAdvanced truncLen))
             else if f \<noteq> FFixed128 (fixedQ64_64Wide initSentinelCompatData) 64 64 (- 9223372036854775808) 9223372036854775807
             then Inr (Some (SubsequentReadMutated truncLen))
             else Inr None))"

definition truncation_sweep :: "u8 list \<Rightarrow> compat_error option res" where
  "truncation_sweep packet = foldr (\<lambda>truncLen rest. next_check (truncation_check packet truncLen) rest) [0..<length packet] (Inr None)"

text \<open>The negative controls. An index out of range panics.\<close>

definition change_byte :: "int \<Rightarrow> (u8 \<Rightarrow> u8) \<Rightarrow> u8 list \<Rightarrow> u8 list res" where
  "change_byte i f bs = (if 0 \<le> i \<and> i < int (length bs) then Inr (bs[nat i := f (bs ! nat i)]) else Inl RuntimeIndex)"

definition swap_bytes :: "int \<Rightarrow> int \<Rightarrow> u8 list \<Rightarrow> u8 list res" where
  "swap_bytes i j bs =
    (if 0 \<le> i \<and> i < int (length bs) \<and> 0 \<le> j \<and> j < int (length bs)
     then Inr (bs[nat i := bs ! nat j, nat j := bs ! nat i]) else Inl RuntimeIndex)"

definition high_group_check :: "u8 list \<Rightarrow> compat_error option res" where
  "high_group_check packet =
    andThen (change_byte (int (length packet) - 2) (\<lambda>b. b XOR 0xFF) packet) (\<lambda>corruptHigh.
    andThen (compat_decode corruptHigh []) (\<lambda>(_, data, err).
      case err of Some e \<Rightarrow> Inr (Some (HighGroupFailed e))
      | None \<Rightarrow>
          if compat_equal data expectedCompatData \<or> fixedQ64_64Wide data = fixedQ64_64Wide expectedCompatData
          then Inr (Some HighGroupMatched) else Inr None))"

definition range_check :: "u8 list \<Rightarrow> compat_error option res" where
  "range_check packet =
    andThen (change_byte (int (length packet) - 17) (\<lambda>_. 0xFF) packet) (\<lambda>corruptRange.
    andThen (change_byte (int (length packet) - 18) (\<lambda>_. 0xFF) corruptRange) (\<lambda>corruptRange.
    andThen (compat_decode corruptRange []) (\<lambda>(_, data, err).
      if \<not> (case err of Some e \<Rightarrow> errors_Is e ErrValueOutOfRange | None \<Rightarrow> False) then Inr (Some (RangeNotRefused err))
      else if fixedQ64_64Wide data \<noteq> fixedQ64_64Wide initSentinelCompatData then Inr (Some RangeMutated)
      else Inr None)))"

definition swap_check :: "u8 list \<Rightarrow> compat_error option res" where
  "swap_check packet =
    andThen (foldM (\<lambda>swapped i. swap_bytes (int (length swapped) - 14 + i) (int (length swapped) - 6 + i) swapped) packet [0, 1, 2, 3]) (\<lambda>swapped.
    andThen (compat_decode swapped []) (\<lambda>(_, data, err).
      case err of Some e \<Rightarrow> Inr (Some (SwapFailed e))
      | None \<Rightarrow>
          if compat_equal data expectedCompatData \<or> fixedQ64_64Wide data = fixedQ64_64Wide expectedCompatData
          then Inr (Some SwapMatched) else Inr None))"

definition compat_read :: "u8 list \<Rightarrow> u8 list \<Rightarrow> compat_error option res" where
  "compat_read packet slack =
    andThen (compat_decode packet slack) (\<lambda>(stream, data, err).
      case err of Some e \<Rightarrow> Inr (Some (ReadStreamFailed e))
      | None \<Rightarrow>
          if \<not> compat_equal data expectedCompatData then Inr (Some DecodedValuesDoNotMatch)
          else if Stream_BitsProcessed stream \<noteq> 8 * length packet then Inr (Some (BitsProcessed (Stream_BitsProcessed stream)))
          else if Stream_BytesProcessed stream \<noteq> length packet then Inr (Some (BytesProcessed (Stream_BytesProcessed stream)))
          else next_check (reencode_check packet data) (next_check (truncation_sweep packet)
                 (next_check (high_group_check packet) (next_check (range_check packet) (swap_check packet)))))"

end
