(* ===== verification/Compat_Eval.thy ===== *)
theory Compat_Eval
  imports Compat Field_Eval Truncation
begin

text \<open>
  The harness's data evaluated: the constants of its wide bounds, the encoding of each of its
  fields, and so the 199 bytes of its file. The last field, 128 bits wide, is kept as a variable:
  the negative controls of the harness are files that differ in it.
\<close>

section \<open>Constants and floats\<close>

lemma word128_eqI: "i128 x = i128 y \<Longrightarrow> x = y"
  by simp

lemmas wide_eval = i128_ring i128_bitwise i128_From64 i128_Int128 u128_Uint128 u128_Lsh

lemma compat_bounds:
  "int128DegenUnit = Int128 7 68719476736"
  "int128Bound70 = Int128 0 64"
  "Int128_Neg (Int128 0 64) = Int128 0 18446744073709551552"
  "int128Bound100 = Int128 0 68719476736"
  "Int128_Neg (Int128 0 68719476736) = Int128 0 18446744004990074880"
  "int128Min = Int128 0 9223372036854775808"
  "Int128From64 (- 100) = Int128 18446744073709551516 18446744073709551615"
  "Int128From64 100 = Int128 100 0"
  "Int128From64 (- 5000000000) = Int128 18446744068709551616 18446744073709551615"
  "Int128From64 5000000000 = Int128 5000000000 0"
  "Int128From64 (- 37) = Int128 18446744073709551579 18446744073709551615"
  "Int128From64 4123456789 = Int128 4123456789 0"
  "Int128From64 (- 81985529216486895) = Int128 18364758544493064721 18446744073709551615"
  "Int128From64 (- 81920) = Int128 18446744073709469696 18446744073709551615"
  "Int128From64 809086412488704 = Int128 809086412488704 0"
  "Int128From64 589824 = Int128 589824 0"
  "Int128From64 (- 6472691358699745) = Int128 18440271382350851871 18446744073709551615"
  "Int128_Neg (Int128_Add (Int128_Lsh (Int128From64 4886718345) 64) (Int128From64 1147797409030816545)) = Int128 17298946664678735071 18446744068822833270"
  "Int128_Add (Int128_Lsh (Int128From64 81985529216486895) 64) (Int128From64 1147797409030816545) = Int128 1147797409030816545 81985529216486895"
  by ((rule word128_eqI; simp add: int128DegenUnit_def int128Bound70_def int128Bound100_def int128Min_def int128Max_def Int128_Lsh_def wide_eval)+)

lemma compat_int128Max: "int128Max = Int128 18446744073709551615 9223372036854775807"
  by (simp add: int128Max_def mask_eq_exp_minus_1)

definition compat_prefix :: "field list" where
  "compat_prefix =
    [FBits 13 4,
     FBits 1445 11,
     FBits 11259375 24,
     FBits 3735928559 32,
     FInt (- 37) (- 100) 100,
     FInt (- 123456789) (- 2147483648) 2147483647,
     FInt 42 42 42,
     FBool True,
     FFloat32 1078530010,
     FCompressedFloat32 0x40A00000 0 0x41200000 0x3C23D70A,
     FCompressedFloat32Precomputed 0x3BA3D70A 1000 10 0x41200000 0,
     FCompressedFloat32 0xC22A4AC1 0xC2C80000 0x42C80000 0x3C23D70A,
     FCompressedFloat32 0x4B000001 0 0x4B000001 0x3F800000,
     FCompressedFloat32 0x4B7FFFFF 0 0x4B7FFFFF 0x3F800000,
     FFloat64 0x3FD5555555555555,
     FUint8 127,
     FUint16 4660,
     FUint32 305419896,
     FUint64 1311768467463790320,
     FIntRelative 100 101,
     FIntRelative 100 2100,
     FAlign,
     FBytes [222, 173, 190, 239, 202, 254, 1],
     FString [103, 111, 108, 100, 101, 110] 16,
     FString [208, 188, 208, 184, 209, 128] 8,
     FBits64 8030895855 33,
     FInt64 (- 123456789012345) (- 9223372036854775808) 9223372036854775807,
     FInt64 4123456789 (- 5000000000) 5000000000,
     FUint128 (Uint128 18364758544493064720 81985529216486895),
     FInt128 (Int128 7 68719476736) (Int128 7 68719476736) (Int128 7 68719476736),
     FInt128 (Int128 18446744073709551579 18446744073709551615) (Int128 18446744073709551516 18446744073709551615) (Int128 100 0),
     FInt128 (Int128 4123456789 0) (Int128 18446744068709551616 18446744073709551615) (Int128 5000000000 0),
     FInt128 (Int128 18364758544493064721 18446744073709551615) (Int128 0 18446744073709551552) (Int128 0 64),
     FInt128 (Int128 17298946664678735071 18446744068822833270) (Int128 0 18446744004990074880) (Int128 0 68719476736),
     FInt128 (Int128 1147797409030816545 81985529216486895) (Int128 0 9223372036854775808) (Int128 18446744073709551615 9223372036854775807),
     FFixed64 (- 832) 8 8 (- 100) 100,
     FFixed64 80904192 16 16 (- 2000) 2000,
     FFixed64 (- 3559993401) 48 16 (- 100000) 100000,
     FFixed64 1966079999 16 16 0 30000,
     FFixed64 (- 458752) 48 16 (- 7) (- 7),
     FFixed128 (Int128 18446744073709469696 18446744073709551615) 112 16 (- 2) 2,
     FFixed128 (Int128 809086412488704 0) 112 16 (- 100000000000) 100000000000,
     FFixed128 (Int128 589824 0) 112 16 9 9,
     FFixed128 (Int128 18440271382350851871 18446744073709551615) 112 16 (- 144115188075855872) 144115188075855872]"

abbreviation compat_last :: "int128 \<Rightarrow> field" where
  "compat_last v \<equiv> FFixed128 v 64 64 (- 9223372036854775808) 9223372036854775807"

text \<open>The file: its last 18 bytes, which the negative controls change, apart.\<close>

definition compat_front :: "u8 list" where
  "compat_front =
    [0x5D, 0xDA, 0xF7, 0xE6, 0xD5, 0x77, 0xDF, 0x56, 0xEF, 0x9F, 0x75, 0x19, 0x52, 0xBC, 0xDA, 0x0F,
     0x49, 0x40, 0xF4, 0x05, 0xF0, 0x66, 0x09, 0x00, 0x00, 0xFC, 0xFF, 0xFF, 0xAF, 0xAA, 0xAA, 0xAA,
     0xAA, 0xAA, 0xAA, 0xFE, 0xF9, 0xA3, 0x91, 0xC0, 0xB3, 0xA2, 0x91, 0x80, 0xF7, 0xE6, 0xD5, 0xC4,
     0xB3, 0xA2, 0x91, 0x08, 0x6F, 0x0D, 0xDE, 0xAD, 0xBE, 0xEF, 0xCA, 0xFE, 0x01, 0x06, 0x67, 0x6F,
     0x6C, 0x64, 0x65, 0x6E, 0x06, 0xD0, 0xBC, 0xD0, 0xB8, 0xD1, 0x80, 0xEF, 0xBE, 0xAD, 0xDE, 0x0F,
     0x41, 0xE4, 0xF3, 0x6E, 0x1F, 0xFF, 0xFF, 0x2A, 0xCE, 0x99, 0x3F, 0x84, 0x90, 0xA1, 0xB2, 0xC3,
     0xD4, 0xE5, 0xF6, 0x7F, 0x6F, 0x5E, 0x4D, 0x3C, 0x2B, 0x1A, 0x09, 0xF8, 0xA9, 0x38, 0x67, 0xFE,
     0x30, 0x42, 0x86, 0xCA, 0x0E, 0x53, 0x97, 0xDB, 0xFF, 0xE7, 0x9B, 0x57, 0x13, 0xCF, 0x8A, 0x46,
     0x02, 0xDE, 0x0E, 0x53, 0x97, 0xDB, 0x09, 0x19, 0x2A, 0x3B, 0x4C, 0x5D, 0x6E, 0x7F, 0x78, 0x6F,
     0x5E, 0x4D, 0x3C, 0x2B, 0x1A, 0x09, 0x04, 0x06, 0x03, 0x00, 0x14, 0xE5, 0xE3, 0x67, 0x37, 0x59,
     0xFE, 0xFF, 0x5F, 0xEA, 0x00, 0xC0, 0x00, 0x00, 0xAC, 0x21, 0x98, 0x42, 0xD1, 0x3E, 0xDE, 0xA5,
     0x35, 0x3E, 0x02, 0xD2, 0xFF]"

definition compat_back :: "u8 list" where
  "compat_back =
    [0xFF, 0x13, 0x32, 0x54, 0x76, 0x98, 0xBA, 0xDC, 0xFE, 0xF0, 0xDE, 0xBC, 0x9A, 0x78, 0x56, 0x34,
     0x12, 0x08]"

definition compat_bytes :: "u8 list" where
  "compat_bytes = compat_front @ compat_back"

lemma compat_field_0: "length (wire_field (FBits 13 4) 0) = 4" "bits_int (wire_field (FBits 13 4) 0) = 13"
  by (simp_all add: field_eval)

lemma compat_field_1: "length (wire_field (FBits 1445 11) 4) = 11" "bits_int (wire_field (FBits 1445 11) 4) = 1445"
  by (simp_all add: field_eval)

lemma compat_field_2: "length (wire_field (FBits 11259375 24) 15) = 24" "bits_int (wire_field (FBits 11259375 24) 15) = 11259375"
  by (simp_all add: field_eval)

lemma compat_field_3: "length (wire_field (FBits 3735928559 32) 39) = 32" "bits_int (wire_field (FBits 3735928559 32) 39) = 3735928559"
  by (simp_all add: field_eval)

lemma compat_field_4: "length (wire_field (FInt (- 37) (- 100) 100) 71) = 8" "bits_int (wire_field (FInt (- 37) (- 100) 100) 71) = 63"
  by (simp_all add: field_eval)

lemma compat_field_5: "length (wire_field (FInt (- 123456789) (- 2147483648) 2147483647) 79) = 32" "bits_int (wire_field (FInt (- 123456789) (- 2147483648) 2147483647) 79) = 2024026859"
  by (simp_all add: field_eval)

lemma compat_field_6: "length (wire_field (FInt 42 42 42) 111) = 0" "bits_int (wire_field (FInt 42 42 42) 111) = 0"
  by (simp_all add: field_eval)

lemma compat_field_7: "length (wire_field (FBool True) 111) = 1" "bits_int (wire_field (FBool True) 111) = 1"
  by (simp_all add: field_eval)

lemma compat_field_8: "length (wire_field (FFloat32 1078530010) 112) = 32" "bits_int (wire_field (FFloat32 1078530010) 112) = 1078530010"
  by (simp_all add: field_eval)

lemma compat_field_9: "length (wire_field (FCompressedFloat32 0x40A00000 0 0x41200000 0x3C23D70A) 144) = 10" "bits_int (wire_field (FCompressedFloat32 0x40A00000 0 0x41200000 0x3C23D70A) 144) = 500"
  by (simp_all add: field_eval)

lemma compat_field_10: "length (wire_field (FCompressedFloat32Precomputed 0x3BA3D70A 1000 10 0x41200000 0) 154) = 10" "bits_int (wire_field (FCompressedFloat32Precomputed 0x3BA3D70A 1000 10 0x41200000 0) 154) = 1"
  by (simp_all add: field_eval)

lemma compat_field_11: "length (wire_field (FCompressedFloat32 0xC22A4AC1 0xC2C80000 0x42C80000 0x3C23D70A) 164) = 15" "bits_int (wire_field (FCompressedFloat32 0xC22A4AC1 0xC2C80000 0x42C80000 0x3C23D70A) 164) = 5743"
  by (simp_all add: field_eval)

lemma compat_field_12: "length (wire_field (FCompressedFloat32 0x4B000001 0 0x4B000001 0x3F800000) 179) = 24" "bits_int (wire_field (FCompressedFloat32 0x4B000001 0 0x4B000001 0x3F800000) 179) = 8388609"
  by (simp_all add: field_eval)

lemma compat_field_13: "length (wire_field (FCompressedFloat32 0x4B7FFFFF 0 0x4B7FFFFF 0x3F800000) 203) = 24" "bits_int (wire_field (FCompressedFloat32 0x4B7FFFFF 0 0x4B7FFFFF 0x3F800000) 203) = 16777215"
  by (simp_all add: field_eval)

lemma compat_field_14: "length (wire_field (FFloat64 0x3FD5555555555555) 227) = 64" "bits_int (wire_field (FFloat64 0x3FD5555555555555) 227) = 4599676419421066581"
  by (simp_all add: field_eval)

lemma compat_field_15: "length (wire_field (FUint8 127) 291) = 8" "bits_int (wire_field (FUint8 127) 291) = 127"
  by (simp_all add: field_eval)

lemma compat_field_16: "length (wire_field (FUint16 4660) 299) = 16" "bits_int (wire_field (FUint16 4660) 299) = 4660"
  by (simp_all add: field_eval)

lemma compat_field_17: "length (wire_field (FUint32 305419896) 315) = 32" "bits_int (wire_field (FUint32 305419896) 315) = 305419896"
  by (simp_all add: field_eval)

lemma compat_field_18: "length (wire_field (FUint64 1311768467463790320) 347) = 64" "bits_int (wire_field (FUint64 1311768467463790320) 347) = 1311768467463790320"
  by (simp_all add: field_eval)

lemma compat_field_19: "length (wire_field (FIntRelative 100 101) 411) = 1" "bits_int (wire_field (FIntRelative 100 101) 411) = 1"
  by (simp_all add: field_eval)

lemma compat_field_20: "length (wire_field (FIntRelative 100 2100) 412) = 18" "bits_int (wire_field (FIntRelative 100 2100) 412) = 55024"
  by (simp_all add: field_eval)

lemma compat_field_21: "length (wire_field (FAlign) 430) = 2" "bits_int (wire_field (FAlign) 430) = 0"
  by (simp_all add: field_eval)

lemma compat_field_22: "length (wire_field (FBytes [222, 173, 190, 239, 202, 254, 1]) 432) = 56" "bits_int (wire_field (FBytes [222, 173, 190, 239, 202, 254, 1]) 432) = 561622535810526"
  by (simp_all add: field_eval)

lemma compat_field_23: "length (wire_field (FString [103, 111, 108, 100, 101, 110] 16) 488) = 56" "bits_int (wire_field (FString [103, 111, 108, 100, 101, 110] 16) 488) = 31073729428547334"
  by (simp_all add: field_eval)

lemma compat_field_24: "length (wire_field (FString [208, 188, 208, 184, 209, 128] 8) 544) = 56" "bits_int (wire_field (FString [208, 188, 208, 184, 209, 128] 8) 544) = 36259388725186566"
  by (simp_all add: field_eval)

lemma compat_field_25: "length (wire_field (FBits64 8030895855 33) 600) = 33" "bits_int (wire_field (FBits64 8030895855 33) 600) = 8030895855"
  by (simp_all add: field_eval)

lemma compat_field_26: "length (wire_field (FInt64 (- 123456789012345) (- 9223372036854775808) 9223372036854775807) 633) = 64" "bits_int (wire_field (FInt64 (- 123456789012345) (- 9223372036854775808) 9223372036854775807) 633) = 9223248580065763463"
  by (simp_all add: field_eval)

lemma compat_field_27: "length (wire_field (FInt64 4123456789 (- 5000000000) 5000000000) 697) = 34" "bits_int (wire_field (FInt64 4123456789 (- 5000000000) 5000000000) 697) = 9123456789"
  by (simp_all add: field_eval)

lemma compat_field_28: "length (wire_field (FUint128 (Uint128 18364758544493064720 81985529216486895)) 731) = 128" "bits_int (wire_field (FUint128 (Uint128 18364758544493064720 81985529216486895)) 731) = 1512366075204170947332355369683137040"
  by (simp_all add: field_eval)

lemma compat_field_29: "length (wire_field (FInt128 (Int128 7 68719476736) (Int128 7 68719476736) (Int128 7 68719476736)) 859) = 0" "bits_int (wire_field (FInt128 (Int128 7 68719476736) (Int128 7 68719476736) (Int128 7 68719476736)) 859) = 0"
  by (simp_all add: field_eval)

lemma compat_field_30: "length (wire_field (FInt128 (Int128 18446744073709551579 18446744073709551615) (Int128 18446744073709551516 18446744073709551615) (Int128 100 0)) 859) = 8" "bits_int (wire_field (FInt128 (Int128 18446744073709551579 18446744073709551615) (Int128 18446744073709551516 18446744073709551615) (Int128 100 0)) 859) = 63"
  by (simp_all add: field_eval)

lemma compat_field_31: "length (wire_field (FInt128 (Int128 4123456789 0) (Int128 18446744068709551616 18446744073709551615) (Int128 5000000000 0)) 867) = 34" "bits_int (wire_field (FInt128 (Int128 4123456789 0) (Int128 18446744068709551616 18446744073709551615) (Int128 5000000000 0)) 867) = 9123456789"
  by (simp_all add: field_eval)

lemma compat_field_32: "length (wire_field (FInt128 (Int128 18364758544493064721 18446744073709551615) (Int128 0 18446744073709551552) (Int128 0 64)) 901) = 72" "bits_int (wire_field (FInt128 (Int128 18364758544493064721 18446744073709551615) (Int128 0 18446744073709551552) (Int128 0 64)) 901) = 1180509635188194816529"
  by (simp_all add: field_eval)

lemma compat_field_33: "length (wire_field (FInt128 (Int128 17298946664678735071 18446744068822833270) (Int128 0 18446744004990074880) (Int128 0 68719476736)) 973) = 102" "bits_int (wire_field (FInt128 (Int128 17298946664678735071 18446744068822833270) (Int128 0 18446744004990074880) (Int128 0 68719476736)) 973) = 1177506557556565106004040793311"
  by (simp_all add: field_eval)

lemma compat_field_34: "length (wire_field (FInt128 (Int128 1147797409030816545 81985529216486895) (Int128 0 9223372036854775808) (Int128 18446744073709551615 9223372036854775807)) 1075) = 128" "bits_int (wire_field (FInt128 (Int128 1147797409030816545 81985529216486895) (Int128 0 9223372036854775808) (Int128 18446744073709551615 9223372036854775807)) 1075) = 171653549535673402661802697950104994593"
  by (simp_all add: field_eval)

lemma compat_field_35: "length (wire_field (FFixed64 (- 832) 8 8 (- 100) 100) 1203) = 16" "bits_int (wire_field (FFixed64 (- 832) 8 8 (- 100) 100) 1203) = 24768"
  by (simp_all add: field_eval)

lemma compat_field_36: "length (wire_field (FFixed64 80904192 16 16 (- 2000) 2000) 1219) = 28" "bits_int (wire_field (FFixed64 80904192 16 16 (- 2000) 2000) 1219) = 211976192"
  by (simp_all add: field_eval)

lemma compat_field_37: "length (wire_field (FFixed64 (- 3559993401) 48 16 (- 100000) 100000) 1247) = 34" "bits_int (wire_field (FFixed64 (- 3559993401) 48 16 (- 100000) 100000) 1247) = 2993606599"
  by (simp_all add: field_eval)

lemma compat_field_38: "length (wire_field (FFixed64 1966079999 16 16 0 30000) 1281) = 31" "bits_int (wire_field (FFixed64 1966079999 16 16 0 30000) 1281) = 1966079999"
  by (simp_all add: field_eval)

lemma compat_field_39: "length (wire_field (FFixed64 (- 458752) 48 16 (- 7) (- 7)) 1312) = 0" "bits_int (wire_field (FFixed64 (- 458752) 48 16 (- 7) (- 7)) 1312) = 0"
  by (simp_all add: field_eval)

lemma compat_field_40: "length (wire_field (FFixed128 (Int128 18446744073709469696 18446744073709551615) 112 16 (- 2) 2) 1312) = 19" "bits_int (wire_field (FFixed128 (Int128 18446744073709469696 18446744073709551615) 112 16 (- 2) 2) 1312) = 49152"
  by (simp_all add: field_eval)

lemma compat_field_41: "length (wire_field (FFixed128 (Int128 809086412488704 0) 112 16 (- 100000000000) 100000000000) 1331) = 54" "bits_int (wire_field (FFixed128 (Int128 809086412488704 0) 112 16 (- 100000000000) 100000000000) 1331) = 7362686412488704"
  by (simp_all add: field_eval)

lemma compat_field_42: "length (wire_field (FFixed128 (Int128 589824 0) 112 16 9 9) 1385) = 0" "bits_int (wire_field (FFixed128 (Int128 589824 0) 112 16 9 9) 1385) = 0"
  by (simp_all add: field_eval)

lemma compat_field_43: "length (wire_field (FFixed128 (Int128 18440271382350851871 18446744073709551615) 112 16 (- 144115188075855872) 144115188075855872) 1385) = 75" "bits_int (wire_field (FFixed128 (Int128 18440271382350851871 18446744073709551615) 112 16 (- 144115188075855872) 144115188075855872) 1385) = 9444726493047931727647"
  by (simp_all add: field_eval)

lemmas compat_field_evals = compat_field_0 compat_field_1 compat_field_2 compat_field_3 compat_field_4 compat_field_5 compat_field_6 compat_field_7 compat_field_8 compat_field_9 compat_field_10 compat_field_11 compat_field_12 compat_field_13 compat_field_14 compat_field_15 compat_field_16 compat_field_17 compat_field_18 compat_field_19 compat_field_20 compat_field_21 compat_field_22 compat_field_23 compat_field_24 compat_field_25 compat_field_26 compat_field_27 compat_field_28 compat_field_29 compat_field_30 compat_field_31 compat_field_32 compat_field_33 compat_field_34 compat_field_35 compat_field_36 compat_field_37 compat_field_38 compat_field_39 compat_field_40 compat_field_41 compat_field_42 compat_field_43

lemma compat_prefix_wire: "length (wire_fields compat_prefix 0) = 1460" "bits_int (wire_fields compat_prefix 0) = 7975049373491508694898381091469832647701479329499245266791498423506155472540561375442649169638827866382683027753495926320790424189049268952726678000290558688427142035382119253255141383833987475358401666307151644033852562213737691487628204610647896819873251326329852404521372065247586118611433565686452245573774465190958966633180031988310795327931195975381352739856574414739474660458207068067765909804410057527478767175042832917814866074205"
  unfolding compat_prefix_def by (simp_all add: compat_field_evals)

text \<open>The two floats that come back changed quantize to the codes they came from.\<close>

lemma requantize_sub: "f32_sub 0x3C23D70B 0 = 0x3C23D70B" "f32_sub 0xC22A47AE 0xC2C80000 = 0x4265B852"
  by ((rule f32_sub_check, rule f32_add_check; simp add: f32_literal)+)

lemma requantize_div: "f32_div 0x3C23D70B 0x41200000 = 0x3A83126F" "f32_div 0x4265B852 0x43480000 = 0x3E930553"
  by ((rule f32_div_check; simp add: f32_literal)+)

lemma requantize_le: "f32_le 0 0x3A83126F" "f32_le 0x3A83126F 0x3F800000" "f32_le 0 0x3E930553" "f32_le 0x3E930553 0x3F800000"
  by (simp_all add: f32_literal)

lemma requantize_mul: "f32_mul 0x3A83126F 0x447A0000 = 0x3F800000" "f32_mul 0x3E930553 0x469C4000 = 0x45B37800"
  by ((rule f32_mul_check; simp add: f32_literal)+)

lemma requantize_add: "f32_add 0x3F800000 0x3F000000 = 0x3FC00000" "f32_add 0x45B37800 0x3F000000 = 0x45B37C00"
  by ((rule f32_add_check; simp add: f32_literal)+)

lemma requantize_floor: "floor_u32 0x3FC00000 = 1" "floor_u32 0x45B37C00 = 5743"
  by (simp_all add: f32_literal)

lemma requantize:
  "quantize_float32 0x3C23D70B 1000 0x41200000 0 = 1"
  "quantize_float32 0xC22A47AE 20000 0x43480000 0xC2C80000 = 5743"
  by (simp_all add: quantize_float32_def Let_def compat_of requantize_sub requantize_div requantize_le requantize_mul
      requantize_add requantize_floor)

section \<open>The message\<close>

lemma compat_fields_init:
  "compat_fields (initCompatData\<lparr>fixedQ64_64Wide := v\<rparr>) = compat_prefix @ [compat_last v]"
  by (simp add: compat_fields_def compat_calls_def initCompatData_def compat_bounds compat_int128Max compat_prefix_def)

lemma compat_last_wire: "wire_field (compat_last v) p = bits_of 128 (i128 v + 170141183460469231731687303715884105728)"
  by (simp add: field_eval)

lemma compat_length: "length (wire_fields (compat_prefix @ [compat_last v]) 0) = 1588"
  by (simp add: wire_fields_append compat_prefix_wire compat_last_wire)

lemma compat_message:
  assumes "length bs = 199"
    and "bits_int (bytes_bits bs) = 7975049373491508694898381091469832647701479329499245266791498423506155472540561375442649169638827866382683027753495926320790424189049268952726678000290558688427142035382119253255141383833987475358401666307151644033852562213737691487628204610647896819873251326329852404521372065247586118611433565686452245573774465190958966633180031988310795327931195975381352739856574414739474660458207068067765909804410057527478767175042832917814866074205 + 2 ^ 1460 * uint (i128 v + 170141183460469231731687303715884105728)"
  shows "message_bytes (compat_prefix @ [compat_last v]) = bs"
proof (rule bytes_bits_inj, rule bits_int_inj)
  have bits: "bytes_bits (message_bytes (compat_prefix @ [compat_last v]))
      = wire_fields compat_prefix 0 @ bits_of 128 (i128 v + 170141183460469231731687303715884105728) @ replicate 4 False"
    unfolding message_bytes_bits compat_length
    by (simp add: wire_fields_append compat_last_wire wire_align_def align_len_def)
  show "length (bytes_bits (message_bytes (compat_prefix @ [compat_last v]))) = length (bytes_bits bs)"
    unfolding bits using assms(1) by (simp add: compat_prefix_wire)
  show "bits_int (bytes_bits (message_bytes (compat_prefix @ [compat_last v]))) = bits_int (bytes_bits bs)"
    unfolding bits assms(2) bits_int_simps(3) compat_prefix_wire bits_int_replicate
    using uint_lt2p [of "i128 v + 170141183460469231731687303715884105728"] by (simp add: bits_int_bits_of)
qed

lemma compat_texts: "utf8_valid [103, 111, 108, 100, 101, 110]" "utf8_valid [208, 188, 208, 184, 209, 128]"
  by code_simp+

lemma compat_precomputed: "compressedFloatConstantsValid 1000 10 0x41200000"
proof -
  have "f32_sub 0x41200000 0x41200000 = 0" by (rule f32_sub_check) (simp add: f32_add_def f32_make_def f32_literal)
  then show ?thesis by (simp add: compressedFloatConstantsValid_def compat_ops f32_literal)
qed

lemma compat_prefix_ok: "\<forall>f \<in> set compat_prefix. typed f \<and> ok_field f"
  by (simp add: compat_prefix_def ok_eval compat_texts compat_precomputed ok_precomputed_def compat_ops)

lemma compat_prefix_recovered:
  "map recovered compat_prefix @ [compat_last v] = compat_fields (expectedCompatData\<lparr>fixedQ64_64Wide := v\<rparr>)"
  by (simp add: expectedCompatData_def compat_fields_def compat_calls_def initCompatData_def compat_bounds compat_int128Max compat_prefix_def
      recovered_def Let_def compat_params compat_quantize compat_dequantize)

lemma compat_expected_code:
  "map code (compat_fields (expectedCompatData\<lparr>fixedQ64_64Wide := v\<rparr>)) = map code (compat_prefix @ [compat_last v])"
  by (simp add: expectedCompatData_def compat_fields_def compat_calls_def initCompatData_def compat_bounds compat_int128Max compat_prefix_def
      Let_def compat_params compat_quantize requantize)

lemma compat_expected_ok: "\<forall>f \<in> set (compat_fields expectedCompatData). typed f \<and> ok_field f"
  by (simp add: expectedCompatData_def compat_fields_def compat_calls_def initCompatData_def compat_bounds compat_int128Max
      ok_eval compat_texts compat_precomputed ok_precomputed_def compat_ops)

lemma compat_shape: "length (bytes d) = length (bytes e) \<Longrightarrow> map shape (compat_fields d) = map shape (compat_fields e)"
  by (simp add: compat_fields_def compat_calls_def)

lemma compat_store_fields: "compat_store (compat_fields d) e = d"
  by (cases d; cases e) (simp add: compat_store_def compat_fields_def compat_calls_def)

end
