(* ===== verification/Compat_Props.thy ===== *)
theory Compat_Props
  imports Compat_Eval
begin

text \<open>
  The harness passes on its own file and on no other: what \<open>compat_write\<close> writes, and that
  \<open>compat_read\<close> accepts exactly those bytes, with its truncation sweep and its negative controls.
\<close>

section \<open>Writing\<close>

lemma compat_encode_ok:
  assumes "\<forall>f \<in> set (compat_fields d). ok_field f" and "length (wire_fields (compat_fields d) 0) \<le> 4096"
  shows "compat_encode d = Inr (Inr (message_bytes (compat_fields d)))"
proof -
  have "write_message (replicate 512 0) (compat_fields d) = Inr (message_bytes (compat_fields d))"
    by (rule write_message_ok) (use assms in simp_all)
  then show ?thesis
    by (auto simp: compat_encode_def write_message_def serializeCompat_def write_fields WriteStream_SerializeEnd_def
        andThen_Inr_iff WriteStream_Err_def)
qed

lemma compat_init_last: "initCompatData = initCompatData\<lparr>fixedQ64_64Wide := Int128 1147797409030816545 81985529216486895\<rparr>"
  by (simp add: initCompatData_def compat_bounds)

lemma compat_init_fields: "compat_fields initCompatData = compat_prefix @ [compat_last (Int128 1147797409030816545 81985529216486895)]"
  using compat_fields_init [of "Int128 1147797409030816545 81985529216486895"] by (simp only: flip: compat_init_last)

lemma compat_last_ok:
  "i128 v + 170141183460469231731687303715884105728 \<le> 340282366920938463444927863358058659840 \<Longrightarrow> typed (compat_last v) \<and> ok_field (compat_last v)"
  by (simp add: ok_eval)

lemma compat_init_bytes: "message_bytes (compat_fields initCompatData) = compat_bytes"
  unfolding compat_init_fields
  by (rule compat_message) (simp_all add: compat_bytes_def compat_front_def compat_back_def bits_int_bits_of wide_eval)

lemma compat_init_ok: "\<forall>f \<in> set (compat_fields initCompatData). typed f \<and> ok_field f"
  unfolding compat_init_fields using compat_prefix_ok compat_last_ok [of "Int128 1147797409030816545 81985529216486895"]
  by (simp add: wide_eval)

lemma compat_init_encode: "compat_encode initCompatData = Inr (Inr compat_bytes)"
  using compat_encode_ok [of initCompatData] compat_init_ok compat_init_bytes compat_length by (simp add: compat_init_fields)

lemma compat_expected_encode: "compat_encode expectedCompatData = Inr (Inr compat_bytes)"
proof -
  have e: "expectedCompatData = expectedCompatData\<lparr>fixedQ64_64Wide := Int128 1147797409030816545 81985529216486895\<rparr>"
    by (simp add: expectedCompatData_def initCompatData_def compat_bounds)
  have c: "map code (compat_fields expectedCompatData) = map code (compat_fields initCompatData)"
    unfolding compat_init_fields by (subst e) (rule compat_expected_code)
  then have "message_bytes (compat_fields expectedCompatData) = compat_bytes"
    unfolding message_bytes_def by (simp only: flip: compat_init_bytes message_bytes_def)
  moreover have "length (wire_fields (compat_fields expectedCompatData) 0) = length (wire_fields (compat_fields initCompatData) 0)"
    by (simp only: wire_fields_codes c)
  then have "length (wire_fields (compat_fields expectedCompatData) 0) \<le> 4096" by (simp add: compat_init_fields compat_length)
  ultimately show ?thesis using compat_encode_ok [of expectedCompatData] compat_expected_ok by simp
qed

section \<open>Reading\<close>

lemma compat_decode_written:
  assumes "\<forall>f \<in> set fs. typed f \<and> ok_field f" and "map recovered fs = compat_fields d" and "length (bytes d) = 7"
  obtains s' where "compat_decode (message_bytes fs) slack = Inr (Reading s', d, None)" "rs_pos s' = 8 * length (message_bytes fs)"
proof -
  have "map shape (compat_fields initSentinelCompatData) = map shape (compat_fields d)"
    by (rule compat_shape) (simp add: initSentinelCompatData_def assms(3))
  also have "\<dots> = map shape fs" by (simp flip: assms(2) add: comp_def)
  finally have "map shape (compat_fields initSentinelCompatData) = map shape fs" .
  then obtain s1 s2 :: "unit read_stream" where "serialize_fields (Reading (NewReadStream (message_bytes fs) slack)) (compat_fields initSentinelCompatData)
      = Inr (Reading s1, compat_fields d)"
    "ReadStream_SerializeEnd s1 = Inr (s2, None)" "rs_err s2 = None" "rs_pos s2 = 8 * length (message_bytes fs)"
    using written_run [OF assms(1), of "compat_fields initSentinelCompatData" slack, where 'c = unit] unfolding assms(2) by metis
  then show thesis
    by (intro that [of s2]) (simp_all add: compat_decode_def serializeCompat_def ReadStream_Err_def compat_store_fields)
qed

lemma compat_decode_last:
  assumes "i128 v + 170141183460469231731687303715884105728 \<le> 340282366920938463444927863358058659840"
    and "message_bytes (compat_prefix @ [compat_last v]) = packet"
  obtains s' where "compat_decode packet slack = Inr (Reading s', expectedCompatData\<lparr>fixedQ64_64Wide := v\<rparr>, None)"
    "rs_pos s' = 8 * length packet"
proof (rule compat_decode_written [of "compat_prefix @ [compat_last v]" "expectedCompatData\<lparr>fixedQ64_64Wide := v\<rparr>" slack])
  show "\<forall>f \<in> set (compat_prefix @ [compat_last v]). typed f \<and> ok_field f"
    using compat_prefix_ok compat_last_ok [OF assms(1)] by simp
  show "map recovered (compat_prefix @ [compat_last v]) = compat_fields (expectedCompatData\<lparr>fixedQ64_64Wide := v\<rparr>)"
    by (simp add: exact_simps flip: compat_prefix_recovered)
  show "length (bytes (expectedCompatData\<lparr>fixedQ64_64Wide := v\<rparr>)) = 7"
    by (simp add: expectedCompatData_def initCompatData_def)
qed (use that in \<open>simp add: assms(2)\<close>)

lemma compat_decode_bytes:
  obtains s' where "compat_decode compat_bytes slack = Inr (Reading s', expectedCompatData, None)" "rs_pos s' = 8 * length compat_bytes"
proof -
  let ?v = "Int128 1147797409030816545 81985529216486895"
  have e: "expectedCompatData\<lparr>fixedQ64_64Wide := ?v\<rparr> = expectedCompatData"
    by (simp add: expectedCompatData_def initCompatData_def compat_bounds)
  have "i128 ?v + 170141183460469231731687303715884105728 \<le> 340282366920938463444927863358058659840" by (simp add: wide_eval)
  from compat_decode_last [OF this compat_init_bytes [unfolded compat_init_fields], of slack thesis] that show thesis
    by (simp only: e)
qed

text \<open>Equality with the expected data is equality: no expected float is a NaN or a zero.\<close>

lemma f32_value_inj: "f32_value x = f32_value y \<Longrightarrow> f32_value y \<noteq> 0 \<Longrightarrow> x = y"
proof -
  assume "f32_value x = f32_value y" and "f32_value y \<noteq> 0"
  then have "negative x = negative y" "magnitude x = magnitude y" by (auto simp: f32_value_def split: if_splits)
  then have "f32_make (negative x) (magnitude x) = f32_make (negative y) (magnitude y)" by (simp only:)
  then show "x = y" unfolding f32_make_pattern .
qed

lemma compat_equal_expected: "compat_equal d expectedCompatData \<longleftrightarrow> d = expectedCompatData"
proof
  assume "compat_equal d expectedCompatData"
  then have E: "f32_eq (floatValue d) (floatValue expectedCompatData)" "f32_eq (compressedFloatValue d) (compressedFloatValue expectedCompatData)"
    "f32_eq (compressedFloatHalf d) (compressedFloatHalf expectedCompatData)" "f32_eq (compressedFloatShift d) (compressedFloatShift expectedCompatData)"
    "f32_eq (clampRejectWitness d) (clampRejectWitness expectedCompatData)" "f32_eq (clampWideWitness d) (clampWideWitness expectedCompatData)"
    "f64_eq (doubleValue d) (doubleValue expectedCompatData)"
    and R: "d\<lparr>floatValue := floatValue expectedCompatData, compressedFloatValue := compressedFloatValue expectedCompatData,
      compressedFloatHalf := compressedFloatHalf expectedCompatData, compressedFloatShift := compressedFloatShift expectedCompatData,
      clampRejectWitness := clampRejectWitness expectedCompatData, clampWideWitness := clampWideWitness expectedCompatData,
      doubleValue := doubleValue expectedCompatData\<rparr> = expectedCompatData"
    unfolding compat_equal_def by blast+
  have nz: "f32_value (floatValue expectedCompatData) \<noteq> 0" "f32_value (compressedFloatValue expectedCompatData) \<noteq> 0"
    "f32_value (compressedFloatHalf expectedCompatData) \<noteq> 0" "f32_value (compressedFloatShift expectedCompatData) \<noteq> 0"
    "f32_value (clampRejectWitness expectedCompatData) \<noteq> 0" "f32_value (clampWideWitness expectedCompatData) \<noteq> 0"
    by (simp_all add: expectedCompatData_def initCompatData_def f32_literal)
  have "floatValue d = floatValue expectedCompatData" "compressedFloatValue d = compressedFloatValue expectedCompatData"
    "compressedFloatHalf d = compressedFloatHalf expectedCompatData" "compressedFloatShift d = compressedFloatShift expectedCompatData"
    "clampRejectWitness d = clampRejectWitness expectedCompatData" "clampWideWitness d = clampWideWitness expectedCompatData"
    using E(1-6) nz f32_value_inj unfolding f32_eq_def by blast+
  moreover have "doubleValue d = doubleValue expectedCompatData"
    using E(7) by (simp add: f64_eq_def Let_def expectedCompatData_def initCompatData_def)
  ultimately have "d\<lparr>floatValue := floatValue d, compressedFloatValue := compressedFloatValue d,
      compressedFloatHalf := compressedFloatHalf d, compressedFloatShift := compressedFloatShift d,
      clampRejectWitness := clampRejectWitness d, clampWideWitness := clampWideWitness d, doubleValue := doubleValue d\<rparr> = expectedCompatData"
    using R by (simp only:)
  moreover have "d\<lparr>floatValue := floatValue d, compressedFloatValue := compressedFloatValue d,
      compressedFloatHalf := compressedFloatHalf d, compressedFloatShift := compressedFloatShift d,
      clampRejectWitness := clampRejectWitness d, clampWideWitness := clampWideWitness d, doubleValue := doubleValue d\<rparr> = d"
    by (cases d) simp
  ultimately show "d = expectedCompatData" by simp
next
  show "d = expectedCompatData \<Longrightarrow> compat_equal d expectedCompatData"
    by (simp add: compat_equal_def f64_eq_def f32_literal expectedCompatData_def initCompatData_def)
qed

section \<open>The negative controls\<close>

text \<open>They change bytes of the last 18, which are an update of a short list.\<close>

lemma change_byte_append:
  "0 \<le> j \<Longrightarrow> change_byte (int (length xs) + j) f (xs @ ys) = andThen (change_byte j f ys) (\<lambda>ys. Inr (xs @ ys))"
  by (auto simp: change_byte_def nat_add_distrib list_update_append nth_append)

lemma swap_bytes_append:
  "0 \<le> i \<Longrightarrow> 0 \<le> j \<Longrightarrow>
   swap_bytes (int (length xs) + i) (int (length xs) + j) (xs @ ys) = andThen (swap_bytes i j ys) (\<lambda>ys. Inr (xs @ ys))"
  by (auto simp: swap_bytes_def nat_add_distrib list_update_append nth_append)

lemma compat_last_differs: "v \<noteq> fixedQ64_64Wide d \<Longrightarrow> d\<lparr>fixedQ64_64Wide := v\<rparr> \<noteq> d"
  by (cases d) simp

lemma compat_front_length: "length compat_front = 181"
  by (simp add: compat_front_def)

lemmas change_back = change_byte_append [of _ compat_front, unfolded compat_front_length]
lemmas swap_back = swap_bytes_append [of _ _ compat_front, unfolded compat_front_length]

lemma high_group_passes: "high_group_check compat_bytes = Inr None"
proof -
  let ?tail_bytes = "[0xFF, 0x13, 0x32, 0x54, 0x76, 0x98, 0xBA, 0xDC, 0xFE, 0xF0, 0xDE, 0xBC, 0x9A, 0x78, 0x56, 0x34, 0xED, 0x08] :: u8 list"
  let ?v = "Int128 1147797409030816545 1068273847610625519"
  have "change_byte (int (length compat_bytes) - 2) (\<lambda>b. b XOR 0xFF) compat_bytes = Inr (compat_front @ ?tail_bytes)"
    using change_back [of 16 "\<lambda>b. b XOR 0xFF" compat_back]
    by (simp add: compat_bytes_def compat_front_length change_byte_def [of 16] compat_back_def)
  moreover have "message_bytes (compat_prefix @ [compat_last ?v]) = compat_front @ ?tail_bytes"
    by (rule compat_message) (simp_all add: compat_front_def bits_int_bits_of wide_eval)
  then obtain s' where "compat_decode (compat_front @ ?tail_bytes) [] = Inr (Reading s', expectedCompatData\<lparr>fixedQ64_64Wide := ?v\<rparr>, None)"
    by (rule compat_decode_last [rotated, where slack = "[]"]) (simp_all add: wide_eval)
  moreover have v: "?v \<noteq> fixedQ64_64Wide expectedCompatData"
    by (simp add: expectedCompatData_def initCompatData_def compat_bounds)
  have "\<not> compat_equal (expectedCompatData\<lparr>fixedQ64_64Wide := ?v\<rparr>) expectedCompatData"
    unfolding compat_equal_expected by (rule compat_last_differs [OF v])
  ultimately show ?thesis using v by (simp add: high_group_check_def)
qed

lemma swap_passes: "swap_check compat_bytes = Inr None"
proof -
  let ?tail_bytes = "[0xFF, 0x13, 0x32, 0x54, 0x9A, 0x78, 0x56, 0x34, 0xFE, 0xF0, 0xDE, 0xBC, 0x76, 0x98, 0xBA, 0xDC, 0x12, 0x08] :: u8 list"
  let ?v = "Int128 1144835041275495201 84947896971808239"
  have "foldM (\<lambda>swapped i. swap_bytes (int (length swapped) - 14 + i) (int (length swapped) - 6 + i) swapped) compat_bytes [0, 1, 2, 3]
      = Inr (compat_front @ ?tail_bytes)"
    using swap_back [of 4 12] swap_back [of 5 13] swap_back [of 6 14] swap_back [of 7 15]
    by (simp add: compat_bytes_def compat_front_length swap_bytes_def [of 4] swap_bytes_def [of 5] swap_bytes_def [of 6] swap_bytes_def [of 7]
        compat_back_def)
  moreover have "message_bytes (compat_prefix @ [compat_last ?v]) = compat_front @ ?tail_bytes"
    by (rule compat_message) (simp_all add: compat_front_def bits_int_bits_of wide_eval)
  then obtain s' where "compat_decode (compat_front @ ?tail_bytes) [] = Inr (Reading s', expectedCompatData\<lparr>fixedQ64_64Wide := ?v\<rparr>, None)"
    by (rule compat_decode_last [rotated, where slack = "[]"]) (simp_all add: wide_eval)
  moreover have v: "?v \<noteq> fixedQ64_64Wide expectedCompatData"
    by (simp add: expectedCompatData_def initCompatData_def compat_bounds)
  have "\<not> compat_equal (expectedCompatData\<lparr>fixedQ64_64Wide := ?v\<rparr>) expectedCompatData"
    unfolding compat_equal_expected by (rule compat_last_differs [OF v])
  ultimately show ?thesis using v by (simp add: swap_check_def)
qed

text \<open>A refused packet: the last member of the struct keeps its sentinel.\<close>

lemma compat_store_last: "length gs = 44 \<Longrightarrow> fixedQ64_64Wide (compat_store (gs @ [compat_last v]) d) = v"
proof -
  assume gs: "length gs = 44"
  define ss where "ss = butlast (map snd (compat_calls d))"
  have "map snd (compat_calls d) = ss @ [\<lambda>f d. case f of FFixed128 v _ _ _ _ \<Rightarrow> d\<lparr>fixedQ64_64Wide := v\<rparr> | _ \<Rightarrow> d]" "length ss = 44"
    by (simp_all add: ss_def compat_calls_def)
  then show ?thesis using gs by (simp add: compat_store_def)
qed

lemma compat_sentinel_fields:
  obtains ds where "compat_fields initSentinelCompatData = ds @ [FFixed128 sentinel128 112 16 (- 144115188075855872) 144115188075855872, compat_last sentinel128]"
    "length ds = 43"
proof
  show "compat_fields initSentinelCompatData = take 43 (compat_fields initSentinelCompatData)
      @ [FFixed128 sentinel128 112 16 (- 144115188075855872) 144115188075855872, compat_last sentinel128]"
    "length (take 43 (compat_fields initSentinelCompatData)) = 43"
    by (simp_all add: compat_fields_def compat_calls_def initSentinelCompatData_def)
qed

lemma compat_sentinel_last: "fixedQ64_64Wide initSentinelCompatData = sentinel128"
  by (simp add: initSentinelCompatData_def)

lemma compat_kept:
  assumes "i \<le> 44" and "length xs = i"
  shows "fixedQ64_64Wide (compat_store (xs @ drop i (compat_fields initSentinelCompatData)) d) = sentinel128"
proof -
  obtain ds where ds: "compat_fields initSentinelCompatData = ds @ [FFixed128 sentinel128 112 16 (- 144115188075855872) 144115188075855872, compat_last sentinel128]"
    "length ds = 43" by (rule compat_sentinel_fields)
  define front where "front = ds @ [FFixed128 sentinel128 112 16 (- 144115188075855872) 144115188075855872]"
  have front: "compat_fields initSentinelCompatData = front @ [compat_last sentinel128]" "length front = 44"
    using ds by (simp_all add: front_def)
  then have "xs @ drop i (compat_fields initSentinelCompatData) = (xs @ drop i front) @ [compat_last sentinel128]"
    using assms(1) by simp
  moreover have "length (xs @ drop i front) = 44" using assms front(2) by simp
  ultimately show ?thesis by (simp only: compat_store_last)
qed

lemma compat_same_shape: "map shape (compat_fields initSentinelCompatData) = map shape (compat_fields initCompatData)"
  by (rule compat_shape) (simp add: initSentinelCompatData_def initCompatData_def)

lemma compat_before_wide:
  "length (wire_fields (take 43 compat_prefix) 0) = 1385" "bits_int (wire_fields (take 43 compat_prefix) 0) = 345112374955617284220237685003910725196734959918928080266815034791579646728053696321525818914562673848723370470337527142019874895496031262804682449554186105645727500210122580790802897115571277317138459327281863447726303521314609294869867517507760023431833954574119971546139581348235087058593242040451088203289527002976061294425115998945454889420702382038998883106924803879177870733826384422988567537541000161838750301"
  unfolding compat_prefix_def by (simp_all add: compat_field_evals)

lemma range_passes: "range_check compat_bytes = Inr None"
proof -
  let ?tail_bytes = "[0xFF, 0xFF, 0x32, 0x54, 0x76, 0x98, 0xBA, 0xDC, 0xFE, 0xF0, 0xDE, 0xBC, 0x9A, 0x78, 0x56, 0x34, 0x12, 0x08] :: u8 list"
  let ?wide = "FFixed128 sentinel128 112 16 (- 144115188075855872) 144115188075855872"
  obtain ds where ds: "compat_fields initSentinelCompatData = ds @ [?wide, compat_last sentinel128]" "length ds = 43"
    by (rule compat_sentinel_fields)
  let ?rest = "bits_of 75 (37778925390265803009823 :: 128 word) @ bits_of 128 (171653549535673402661802697950104994607 :: 128 word) @ replicate 4 False"
  have change: "change_byte 182 (\<lambda>_. 0xFF) compat_bytes = Inr (compat_front @ compat_back[1 := 0xFF])"
    "change_byte 181 (\<lambda>_. 0xFF) (compat_front @ compat_back[1 := 0xFF]) = Inr (compat_front @ ?tail_bytes)"
    using change_back [of 1 "\<lambda>_. 0xFF" compat_back] change_back [of 0 "\<lambda>_. 0xFF" "compat_back[1 := 0xFF]"]
    by (simp_all add: compat_bytes_def change_byte_def [of 1] change_byte_def [of 0] compat_back_def)
  have len: "length compat_bytes = 199" by (simp add: compat_bytes_def compat_front_length compat_back_def)
  have bits: "bytes_bits (compat_front @ ?tail_bytes) = wire_fields (take 43 compat_prefix) 0 @ ?rest"
  proof (rule bits_int_inj)
    show "length (bytes_bits (compat_front @ ?tail_bytes)) = length (wire_fields (take 43 compat_prefix) 0 @ ?rest)"
      by (simp add: compat_before_wide compat_front_length)
    show "bits_int (bytes_bits (compat_front @ ?tail_bytes)) = bits_int (wire_fields (take 43 compat_prefix) 0 @ ?rest)"
      by (simp add: compat_before_wide compat_front_def bits_int_bits_of)
  qed
  have ok: "\<forall>f \<in> set (take 43 compat_prefix). typed f \<and> ok_field f" using compat_prefix_ok by (meson in_set_takeD)
  have "map shape (compat_fields initSentinelCompatData) = map shape (compat_prefix @ [compat_last (Int128 1147797409030816545 81985529216486895)])"
    using compat_same_shape by (simp only: compat_init_fields)
  then have "map shape compat_prefix = map shape ds @ [shape ?wide]" unfolding ds(1) by simp
  then have shapes: "map shape ds = map shape (take 43 compat_prefix)" using ds(2) by (simp flip: take_map)
  have typed: "\<forall>d' \<in> set [?wide, compat_last sentinel128]. typed d'" by (simp add: go_int_def)
  have refused: "dec_of ?wide (length (wire_fields (take 43 compat_prefix) 0)) ?rest = Inl ErrValueOutOfRange"
    by (simp add: dec_of_exact dec_fixed128_def dec_field_def dec_map_def ok_eval Len_def)
  obtain s' xs i where run: "serialize_fields (Reading (NewReadStream (compat_front @ ?tail_bytes) [] :: unit read_stream)) (compat_fields initSentinelCompatData)
      = Inr (Reading s', xs @ drop i (compat_fields initSentinelCompatData))"
    "rs_err s' = Some (ErrRefusal ErrValueOutOfRange)" "i \<le> 43" "length xs = i"
    using refused_run [OF ok shapes typed bits refused, where 'c = unit] unfolding ds by metis
  have "compat_decode (compat_front @ ?tail_bytes) [] = Inr (Reading s', compat_store (xs @ drop i (compat_fields initSentinelCompatData)) initSentinelCompatData,
      Some (ErrRefusal ErrValueOutOfRange))"
    using run(1,2) SerializeEnd_terminal [of s'] by (simp add: compat_decode_def serializeCompat_def ReadStream_Err_def)
  then show ?thesis
    using change compat_kept [of i xs] run(3,4) by (simp add: range_check_def len compat_sentinel_last)
qed

section \<open>The truncation sweep\<close>

lemma truncation_passes:
  assumes "k < length compat_bytes"
  shows "truncation_check compat_bytes k = Inr None"
proof -
  have k: "k < length (message_bytes (compat_fields initCompatData))" using assms by (simp add: compat_init_bytes)
  obtain s' :: "unit read_stream" and gs i where run:
    "serialize_fields (Reading (NewReadStream (take k compat_bytes) [])) (compat_fields initSentinelCompatData) = Inr (Reading s', gs)"
    "rs_err s' = Some (ErrRefusal ErrPastEnd)" "i < length (compat_fields initSentinelCompatData)"
    "gs = map recovered (take i (compat_fields initCompatData)) @ drop i (compat_fields initSentinelCompatData)"
    using truncated_run [OF compat_init_ok compat_same_shape k, where 'c = unit and slack = "[]"] unfolding compat_init_bytes by metis
  have len: "length (compat_fields d) = 45" for d by (simp add: compat_fields_def compat_calls_def)
  have decode: "compat_decode (take k compat_bytes) [] = Inr (Reading s', compat_store gs initSentinelCompatData, Some (ErrRefusal ErrPastEnd))"
    using run(1,2) SerializeEnd_terminal [of s'] by (simp add: compat_decode_def serializeCompat_def ReadStream_Err_def)
  have kept: "fixedQ64_64Wide (compat_store gs initSentinelCompatData) = fixedQ64_64Wide initSentinelCompatData"
    unfolding run(4) compat_sentinel_last by (rule compat_kept) (use run(3) len in simp_all)
  have "read_field s' (compat_last v) = Inr (s', compat_last v, Some (ErrRefusal ErrPastEnd))" for v
    using read_field_terminal [of s' "compat_last v"] run(2) by (simp add: go_int_def)
  then show ?thesis by (simp add: truncation_check_def decode kept Let_def)
qed

lemma sweep_passes: "truncation_sweep compat_bytes = Inr None"
proof -
  have "foldr (\<lambda>truncLen rest. next_check (truncation_check compat_bytes truncLen) rest) ks (Inr None) = Inr None"
    if "\<forall>k \<in> set ks. truncation_check compat_bytes k = Inr None" for ks
    using that by (induction ks) (simp_all add: next_check_def)
  then show ?thesis unfolding truncation_sweep_def by (simp add: truncation_passes)
qed

section \<open>The harness\<close>

lemma compat_read_iff: "compat_read packet slack = Inr None \<longleftrightarrow> packet = compat_bytes"
proof -
  have "packet = compat_bytes" if read: "compat_read packet slack = Inr None"
  proof -
    obtain stream data where "compat_decode packet slack = Inr (stream, data, None)" "compat_equal data expectedCompatData"
      "reencode_check packet data = Inr None"
      using read by (auto simp: compat_read_def next_check_def andThen_Inr_iff split: option.splits if_splits)
    then show ?thesis using compat_expected_encode by (simp add: compat_equal_expected reencode_check_def split: if_splits)
  qed
  moreover have "compat_read compat_bytes slack = Inr None"
  proof -
    obtain s' where "compat_decode compat_bytes slack = Inr (Reading s', expectedCompatData, None)" "rs_pos s' = 8 * length compat_bytes"
      by (rule compat_decode_bytes)
    moreover have "reencode_check compat_bytes expectedCompatData = Inr None" by (simp add: reencode_check_def compat_expected_encode)
    moreover have "compat_equal expectedCompatData expectedCompatData" by (simp add: compat_equal_expected)
    ultimately show ?thesis
      by (simp add: compat_read_def next_check_def sweep_passes high_group_passes range_passes swap_passes
          ReadStream_BitsProcessed_def ReadStream_BytesProcessed_def BitReader_BitsRead_def)
  qed
  ultimately show ?thesis by auto
qed

text \<open>
  The file the harness writes: the golden sequence extended with the 64 bit, the 128 bit and
  the fixed point paths is written without an error, as these 199 bytes.
\<close>

lemma compat_write_bytes: "compat_write = Inr (Inr compat_bytes)"
  by (simp add: compat_write_def compat_init_encode)

text \<open>
  C11. The harness's reader accepts the file the harness's writer writes, and no other: on
  those bytes every check passes (the exact values and both positions, the re-encoding, the
  failure of all 199 prefixes, the negative controls), and any other file fails one of them.
\<close>

theorem compat_read_accepts: "compat_read packet slack = Inr None \<longleftrightarrow> compat_write = Inr (Inr packet)"
  by (auto simp: compat_read_iff compat_write_bytes)

end
