(* ===== verification/Compat_Main.thy ===== *)
theory Compat_Main
  imports Compat_Props
begin

text \<open>
  The program of the conformance harness (compat/main.go): \<open>write\<close>, \<open>read\<close> and \<open>main\<close> over the
  files of a system and the command line. A run gives the system it leaves, the line it prints and
  its exit status; the text of a printed error is its constructor.
\<close>

section \<open>The system\<close>

text \<open>
  \<open>os.ReadFile\<close> fails on a file that is missing or not readable, and otherwise gives its bytes in a slice
  with some slack past them. \<open>os.WriteFile\<close> truncates the file and writes it; a call that fails may
  leave anything in its place, which \<open>torn\<close> names (\<open>None\<close> is a call that succeeds).
\<close>

record system =
  contents :: "string \<Rightarrow> u8 list option"
  readable :: "string \<Rightarrow> bool"
  slack_of :: "string \<Rightarrow> u8 list"
  torn :: "string \<Rightarrow> u8 list \<Rightarrow> u8 list option option"

datatype harness_error = CannotRead string | CannotWrite string | Failed compat_error

definition os_ReadFile :: "system \<Rightarrow> string \<Rightarrow> harness_error + u8 list \<times> u8 list" where
  "os_ReadFile sys path =
    (case contents sys path of
       Some bs \<Rightarrow> if readable sys path then Inr (bs, slack_of sys path) else Inl (CannotRead path)
     | None \<Rightarrow> Inl (CannotRead path))"

definition os_WriteFile :: "system \<Rightarrow> string \<Rightarrow> u8 list \<Rightarrow> system \<times> harness_error option" where
  "os_WriteFile sys path bs =
    (case torn sys path bs of
       None \<Rightarrow> (sys\<lparr>contents := (contents sys)(path := Some bs)\<rparr>, None)
     | Some left \<Rightarrow> (sys\<lparr>contents := (contents sys)(path := left)\<rparr>, Some (CannotWrite path)))"

section \<open>The program\<close>

definition harness_write :: "system \<Rightarrow> string \<Rightarrow> (system \<times> harness_error option) res" where
  "harness_write sys path =
    andThen compat_write (\<lambda>r. case r of
        Inl e \<Rightarrow> Inr (sys, Some (Failed e))
      | Inr packet \<Rightarrow> Inr (os_WriteFile sys path packet))"

definition harness_read :: "system \<Rightarrow> string \<Rightarrow> harness_error option res" where
  "harness_read sys path =
    (case os_ReadFile sys path of
       Inl err \<Rightarrow> Inr (Some err)
     | Inr (packet, slack) \<Rightarrow> andThen (compat_read packet slack) (\<lambda>err. Inr (map_option Failed err)))"

datatype printed = Usage | ErrorOf string harness_error | OkOf string

definition harness_main :: "system \<Rightarrow> string list \<Rightarrow> (system \<times> printed \<times> nat) res" where
  "harness_main sys args =
    (if length args \<noteq> 3 \<or> (args ! 1 \<noteq> ''write'' \<and> args ! 1 \<noteq> ''read'') then Inr (sys, Usage, 2)
     else
       andThen (if args ! 1 = ''write'' then harness_write sys (args ! 2)
                else andThen (harness_read sys (args ! 2)) (\<lambda>err. Inr (sys, err))) (\<lambda>(sys, err).
         case err of
           Some e \<Rightarrow> Inr (sys, ErrorOf (args ! 1) e, 1)
         | None \<Rightarrow> Inr (sys, OkOf (args ! 1), 0)))"

section \<open>Every run exits\<close>

lemma compat_decode_total: "\<exists>stream data err. compat_decode packet slack = Inr (stream, data, err)"
proof -
  have "\<forall>d \<in> set (compat_fields initSentinelCompatData). typed d"
    by (rule typed_shapes [OF compat_same_shape]) (use compat_init_ok in blast)
  from read_message_eq [OF this, of packet slack] show ?thesis
    by (fastforce simp: read_message_def compat_decode_def serializeCompat_def andThen_Inr_iff)
qed

text \<open>A file other than the harness's is refused before the negative controls could index past it.\<close>

lemma compat_read_total: "\<exists>err. compat_read packet slack = Inr err"
proof (cases "packet = compat_bytes")
  case True
  then have "compat_read packet slack = Inr None" by (simp add: compat_read_iff)
  then show ?thesis ..
next
  case False
  obtain stream data err where run: "compat_decode packet slack = Inr (stream, data, err)"
    using compat_decode_total by blast
  have "reencode_check packet expectedCompatData = Inr (Some ReencodedBytesDiffer)"
    using False by (simp add: reencode_check_def compat_expected_encode)
  then show ?thesis by (simp add: compat_read_def run compat_equal_expected next_check_def split: option.split)
qed

text \<open>
  C22. The command line. Any but three arguments with a verb exits with status 2 and touches
  nothing. \<open>write\<close> exits with 0 and leaves the 199 bytes in the file, or with 1 when the system
  could not write them. \<open>read\<close> changes nothing and exits with 0 exactly when the file can be read
  and holds those bytes, else with 1: no file makes it panic, and what \<open>write\<close> wrote it accepts.
\<close>

theorem harness_main_exits:
  "(length args \<noteq> 3 \<or> args ! 1 \<notin> {''write'', ''read''} \<longrightarrow> harness_main sys args = Inr (sys, Usage, 2))
    \<and> harness_main sys [program, ''write'', path] = Inr (case torn sys path compat_bytes of
        None \<Rightarrow> (sys\<lparr>contents := (contents sys)(path \<mapsto> compat_bytes)\<rparr>, OkOf ''write'', 0)
      | Some left \<Rightarrow> (sys\<lparr>contents := (contents sys)(path := left)\<rparr>, ErrorOf ''write'' (CannotWrite path), 1))
    \<and> (\<exists>line status. harness_main sys [program, ''read'', path] = Inr (sys, line, status) \<and> status \<in> {0, 1}
        \<and> (status = 0 \<longleftrightarrow> contents sys path = Some compat_bytes \<and> readable sys path))
    \<and> (\<forall>sys' line. harness_main sys [program, ''write'', path] = Inr (sys', line, 0) \<and> readable sys path
        \<longrightarrow> harness_main sys' [program, ''read'', path] = Inr (sys', OkOf ''read'', 0))"
proof (intro conjI)
  have outcome: "\<exists>err. harness_read s path = Inr err \<and> (err = None \<longleftrightarrow> contents s path = Some compat_bytes \<and> readable s path)" for s
  proof (cases "os_ReadFile s path")
    case (Inr opened)
    obtain packet slack where opened: "opened = (packet, slack)" by (cases opened)
    obtain err where "compat_read packet slack = Inr err" using compat_read_total by blast
    then show ?thesis
      using Inr compat_read_iff [of packet slack] unfolding opened
      by (auto simp: harness_read_def os_ReadFile_def split: option.splits if_splits)
  qed (auto simp: harness_read_def os_ReadFile_def split: option.splits if_splits)
  show "length args \<noteq> 3 \<or> args ! 1 \<notin> {''write'', ''read''} \<longrightarrow> harness_main sys args = Inr (sys, Usage, 2)"
    by (simp add: harness_main_def)
  show written: "harness_main sys [program, ''write'', path] = Inr (case torn sys path compat_bytes of
        None \<Rightarrow> (sys\<lparr>contents := (contents sys)(path \<mapsto> compat_bytes)\<rparr>, OkOf ''write'', 0)
      | Some left \<Rightarrow> (sys\<lparr>contents := (contents sys)(path := left)\<rparr>, ErrorOf ''write'' (CannotWrite path), 1))"
    by (simp add: harness_main_def harness_write_def os_WriteFile_def compat_write_bytes split: option.split)
  show "\<exists>line status. harness_main sys [program, ''read'', path] = Inr (sys, line, status) \<and> status \<in> {0, 1}
        \<and> (status = 0 \<longleftrightarrow> contents sys path = Some compat_bytes \<and> readable sys path)"
    using outcome [of sys] by (auto simp: harness_main_def split: option.split)
  show "\<forall>sys' line. harness_main sys [program, ''write'', path] = Inr (sys', line, 0) \<and> readable sys path
        \<longrightarrow> harness_main sys' [program, ''read'', path] = Inr (sys', OkOf ''read'', 0)"
  proof (intro allI impI)
    fix sys' line
    assume run: "harness_main sys [program, ''write'', path] = Inr (sys', line, 0) \<and> readable sys path"
    then have "contents sys' path = Some compat_bytes \<and> readable sys' path"
      unfolding written by (auto split: option.splits)
    then show "harness_main sys' [program, ''read'', path] = Inr (sys', OkOf ''read'', 0)"
      using outcome [of sys'] by (auto simp: harness_main_def)
  qed
qed

definition sample_system :: system where
  "sample_system = \<lparr>contents = (\<lambda>_. None), readable = (\<lambda>_. True), slack_of = (\<lambda>_. [1, 2, 3]), torn = (\<lambda>_ _. None)\<rparr>"

theorem harness_main_exits_witness:
  "harness_main sample_system [''compat'', ''run''] = Inr (sample_system, Usage, 2)
    \<and> (\<exists>sys'. harness_main sample_system [''compat'', ''write'', ''f''] = Inr (sys', OkOf ''write'', 0)
        \<and> harness_main sys' [''compat'', ''read'', ''f''] = Inr (sys', OkOf ''read'', 0))"
  using harness_main_exits [of "[''compat'', ''run'']" sample_system "''compat''" "''f''"] by (simp add: sample_system_def)

end
