(* ===== verification/Stream_Steps.thy ===== *)
theory Stream_Steps
  imports Streams
begin

text \<open>
  What a caller can do with a stream through the \<open>Stream\<close> interface, as a step relation: a call of any
  serialize method, the end of a message, a refusal of its own, a context, an object that serializes itself by
  steps of its own. \<open>Reset\<close> and \<open>Flush\<close> are methods of the concrete types, outside the interface: the one starts another
  stream, the other ends a write, and neither is a step. What every stream reached keeps is proved once for the relation.
\<close>

section \<open>Objects\<close>

text \<open>
  \<open>SerializeObject\<close> through the interface: the object's \<open>Serialize\<close> is handed the stream it was called with, and
  keeps its kind.
\<close>

type_synonym ('c, 'o) object = "'c stream \<Rightarrow> 'o \<Rightarrow> ('c stream \<times> 'o \<times> go_error option) res"

definition on_reader :: "('c, 'o) object \<Rightarrow> 'c read_stream \<Rightarrow> 'o \<Rightarrow> ('c read_stream \<times> 'o \<times> go_error option) res" where
  "on_reader object s held = andThen (object (Reading s) held) (\<lambda>(st, held, err).
     case st of Reading s' \<Rightarrow> Inr (s', held, err) | _ \<Rightarrow> Inr (s, held, err))"

definition on_writer :: "('c, 'o) object \<Rightarrow> 'c write_stream \<Rightarrow> 'o \<Rightarrow> ('c write_stream \<times> 'o \<times> go_error option) res" where
  "on_writer object s held = andThen (object (Writing s) held) (\<lambda>(st, held, err).
     case st of Writing s' \<Rightarrow> Inr (s', held, err) | _ \<Rightarrow> Inr (s, held, err))"

definition on_measurer :: "('c, 'o) object \<Rightarrow> 'c measure_stream \<Rightarrow> 'o \<Rightarrow> ('c measure_stream \<times> 'o \<times> go_error option) res" where
  "on_measurer object s held = andThen (object (Measuring s) held) (\<lambda>(st, held, err).
     case st of Measuring s' \<Rightarrow> Inr (s', held, err) | _ \<Rightarrow> Inr (s, held, err))"

fun Stream_SerializeObject :: "'c stream \<Rightarrow> ('c, 'o) object \<Rightarrow> 'o \<Rightarrow> ('c stream \<times> 'o \<times> go_error option) res" where
  "Stream_SerializeObject (Writing s) object held =
     andThen (WriteStream_SerializeObject s (on_writer object) held) (\<lambda>(s, held, err). Inr (Writing s, held, err))"
| "Stream_SerializeObject (Reading s) object held =
     andThen (ReadStream_SerializeObject s (on_reader object) held) (\<lambda>(s, held, err). Inr (Reading s, held, err))"
| "Stream_SerializeObject (Measuring s) object held =
     andThen (MeasureStream_SerializeObject s (on_measurer object) held) (\<lambda>(s, held, err). Inr (Measuring s, held, err))"

section \<open>Steps\<close>

text \<open>What an object holds is its own affair: a step sees the stream alone, so the objects of steps hold nothing.\<close>

inductive stream_step :: "'c stream \<Rightarrow> 'c stream \<Rightarrow> bool" where
  step_field: "typed f \<Longrightarrow> serialize_field st f = Inr (st', f', err) \<Longrightarrow> stream_step st st'"
| step_end: "Stream_SerializeEnd st = Inr (st', err) \<Longrightarrow> stream_step st st'"
| step_fail: "Fail st reason = (st', err) \<Longrightarrow> stream_step st st'"
| step_reject: "Reject st = Inr (st', err) \<Longrightarrow> stream_step st st'"
| step_context: "stream_step st (Stream_SetContext st context)"
| step_object: "(\<And>st1 st2 err. object st1 () = Inr (st2, (), err) \<Longrightarrow> stream_step\<^sup>*\<^sup>* st1 st2) \<Longrightarrow>
    Stream_SerializeObject st object () = Inr (st', (), err) \<Longrightarrow> stream_step st st'"

text \<open>
  What a step keeps. A writer keeps its buffer's invariant and every bit it has written; a reader stays
  inside its data, only moves forward, and from its first error on does not move nor change the
  error, which is one \<open>RefusalName\<close> knows; a measure only grows. No stream changes its kind.
\<close>

fun evolves :: "'c stream \<Rightarrow> 'c stream \<Rightarrow> bool" where
  "evolves (Writing s) (Writing s') \<longleftrightarrow>
     (\<forall>buf. ws_inv buf s \<longrightarrow> ws_inv buf s' \<and> ws_numBits s' = ws_numBits s \<and> (\<exists>e. ws_bits s' = ws_bits s @ e))"
| "evolves (Reading s) (Reading s') \<longleftrightarrow>
     (br_inv (rs_reader s) \<longrightarrow>
       (\<exists>k \<le> length (rs_rest s). rs_reader s' = rs_reader (advance k s))
       \<and> (case rs_err s of
            Some e \<Rightarrow> rs_reader s' = rs_reader s \<and> rs_err s' = Some e
          | None \<Rightarrow> (case rs_err s' of Some e \<Rightarrow> latchable e | None \<Rightarrow> True)))"
| "evolves (Measuring s) (Measuring s') \<longleftrightarrow> ms_bitsWritten s \<le> ms_bitsWritten s'"
| "evolves _ _ \<longleftrightarrow> False"

fun_cases evolves_WritingE: "evolves (Writing s) st"
  and evolves_ReadingE: "evolves (Reading s) st"
  and evolves_MeasuringE: "evolves (Measuring s) st"

lemma evolves_reader:
  assumes "br_inv (rs_reader s)" and "evolves (Reading s) (Reading s')"
  shows "br_inv (rs_reader s')" and "rs_pos s \<le> rs_pos s'" and "br_data (rs_reader s') = br_data (rs_reader s)"
proof -
  obtain k where k: "k \<le> length (rs_rest s)" "rs_reader s' = rs_reader (advance k s)" using assms by auto
  then show "br_inv (rs_reader s')" using br_inv_advance_stream [OF assms(1)] by simp
  show "rs_pos s \<le> rs_pos s'" "br_data (rs_reader s') = br_data (rs_reader s)" using k(2) by (simp_all add: advance_def)
qed

lemma evolves_refl: "evolves st st"
  by (cases st) (auto simp: advance_def split: option.splits intro: exI [of _ 0])

lemma evolves_trans:
  assumes "evolves st st1" and "evolves st1 st2"
  shows "evolves st st2"
proof (cases st)
  case (Reading s)
  then obtain s1 s2 where st: "st1 = Reading s1" "st2 = Reading s2" using assms by (metis evolves_ReadingE)
  have "evolves (Reading s) (Reading s2)"
  proof (cases "br_inv (rs_reader s)")
    case inv: True
    have E: "evolves (Reading s) (Reading s1)" "evolves (Reading s1) (Reading s2)" using assms Reading st by simp_all
    note inv1 = evolves_reader(1) [OF inv E(1)]
    obtain j where j: "j \<le> length (rs_rest s)" "rs_reader s1 = rs_reader (advance j s)" using E(1) inv by auto
    obtain k where k: "k \<le> length (rs_rest s1)" "rs_reader s2 = rs_reader (advance k s1)" using E(2) inv1 by auto
    have "rs_rest s1 = drop j (rs_rest s)" using j(2) advance_simps(4) [of j s] by simp
    then have "j + k \<le> length (rs_rest s)" "rs_reader s2 = rs_reader (advance (j + k) s)"
      using j k by (simp_all add: advance_def)
    then show ?thesis using E inv inv1 by (auto split: option.splits)
  qed simp
  then show ?thesis using Reading st by simp
next
  case (Writing s)
  then obtain s1 s2 where st: "st1 = Writing s1" "st2 = Writing s2" using assms by (metis evolves_WritingE)
  show ?thesis using assms unfolding Writing st by (metis append.assoc evolves.simps(1))
next
  case (Measuring s)
  then show ?thesis using assms by (auto elim!: evolves_MeasuringE)
qed

section \<open>Every step keeps it\<close>

lemma write_field_extends:
  assumes "typed f" and "ws_inv buf s" and "write_field f s = Inr s'"
  shows "\<exists>e. extends buf e s s'"
proof (cases "ok_field f")
  case True
  show ?thesis
    using emitsD [OF write_field_emits [OF True] assms(2)] emits_overflow [OF write_field_emits [OF True] assms(2)] assms(3)
    by (cases "ws_bitsWritten s + length (wire_field f (ws_bitsWritten s)) \<le> ws_numBits s") auto
next
  case False
  then show ?thesis using measure_field_checked [OF assms(1), where 'a = 'a] assms(3) by (auto simp: checked_def)
qed

lemma follows_evolves:
  assumes "follows s v (Inr (s', x, err)) d" and "rs_err s = None"
  shows "evolves (Reading s) (Reading s')"
  using assms by (auto simp: follows_def latchable_def advance_def latch_def split: sum.splits option.splits)

lemma field_evolves:
  assumes "typed f" and "serialize_field st f = Inr (st', f', err)"
  shows "evolves st st'"
proof (cases st)
  case (Writing s)
  then obtain s' where s': "write_field f s = Inr s'" "st' = Writing s'" using assms(2) by (auto simp: andThen_Inr_iff)
  have "\<exists>e. extends buf e s s'" if "ws_inv buf s" for buf by (rule write_field_extends [OF assms(1) that s'(1)])
  then show ?thesis unfolding Writing s'(2) by (fastforce simp: extends_def)
next
  case (Reading s)
  then obtain s' where s': "read_field s f = Inr (s', f', err)" "st' = Reading s'" using assms(2) by (auto simp: andThen_Inr_iff)
  show ?thesis
  proof (cases "br_inv (rs_reader s) \<and> rs_err s = None")
    case True
    then show ?thesis using read_field_follows [OF assms(1), of s] s'(1) follows_evolves unfolding Reading s'(2) by metis
  next
    case False
    then show ?thesis using read_field_terminal [OF _ assms(1), of s] s'(1) evolves_refl [of "Reading s"] unfolding Reading s'(2) by auto
  qed
next
  case (Measuring s)
  then obtain s' where s': "measure_field f s = Inr s'" "st' = Measuring s'" using assms(2) by (auto simp: andThen_Inr_iff)
  then show ?thesis using measure_field_checked [OF assms(1), where 'a = 'a] unfolding Measuring by (auto simp: checked_def split: if_splits)
qed

lemma end_evolves:
  assumes "Stream_SerializeEnd st = Inr (st', err)"
  shows "evolves st st'"
proof (cases st)
  case (Reading s)
  then obtain s' where s': "ReadStream_SerializeEnd s = Inr (s', err)" "st' = Reading s'" using assms by (auto simp: andThen_Inr_iff)
  show ?thesis
  proof (cases "br_inv (rs_reader s) \<and> rs_err s = None")
    case True
    then have "follows s () (no_value ReadStream_SerializeEnd s ()) (dec_end (rs_pos s) (rs_rest s))"
      using reads0D [OF readsD(2) [OF SerializeEnd_reads [where pre = "\<lambda>_ _. True"]]] by blast
    then show ?thesis using follows_evolves [of s "()" s' "()" err] s'(1) True unfolding Reading s'(2) by (simp add: no_value_def)
  next
    case False
    have "s' = s" if "rs_err s \<noteq> None" using s'(1) that by (simp add: ReadStream_SerializeEnd_def)
    then show ?thesis using False evolves_refl [of "Reading s"] unfolding Reading s'(2) by auto
  qed
next
  case (Writing s)
  then show ?thesis using assms evolves_refl [of st] by (simp add: WriteStream_SerializeEnd_def del: evolves.simps)
next
  case (Measuring s)
  then show ?thesis using assms evolves_refl [of st] by (simp add: MeasureStream_SerializeEnd_def del: evolves.simps)
qed

lemma latch_evolves: "latchable e \<Longrightarrow> ReadStream_fail s e = (s', err) \<Longrightarrow> evolves (Reading s) (Reading s')"
  by (auto simp: ReadStream_fail_def advance_def Let_def split: if_splits option.splits intro: exI [of _ 0])

lemma fail_evolves: "Fail st reason = (st', err) \<Longrightarrow> evolves st st'"
  using latch_evolves [of "ErrRefusal (closedRefusal reason)"] evolves_refl
  by (cases st) (auto simp: ReadStream_Fail_def latchable_def closedRefusal_closed simp del: evolves.simps split: prod.splits)

lemma reject_evolves: "Reject st = Inr (st', err) \<Longrightarrow> evolves st st'"
  using latch_evolves [of "ErrRefusal ErrRejected"]
  by (cases st) (auto simp: ReadStream_Reject_def latchable_def library_refusals_closed simp del: evolves.simps split: prod.splits)

lemma context_evolves: "evolves st (Stream_SetContext st context)"
  by (cases st) (auto simp: WriteStream_SetContext_def ReadStream_SetContext_def MeasureStream_SetContext_def advance_def ws_inv_def ws_bits_def
      bw_of_def split: option.splits intro: exI [of _ 0])

lemma object_evolves:
  assumes "Stream_SerializeObject st object held = Inr (st', held', err)"
    and object: "\<And>st1 st2 held held' err. object st1 held = Inr (st2, held', err) \<Longrightarrow> evolves st1 st2"
  shows "evolves st st'"
proof (cases st)
  case (Writing s)
  then obtain s1 where o: "on_writer object s held = Inr (s1, held', err)" "st' = Writing s1"
    using assms(1) by (auto simp: WriteStream_SerializeObject_def andThen_Inr_iff)
  then obtain st1 where "object (Writing s) held = Inr (st1, held', err)"
    by (cases "object (Writing s) held") (auto simp: on_writer_def split: stream.splits)
  with o object [OF this] show ?thesis unfolding Writing by (cases st1) (simp_all add: on_writer_def del: evolves.simps(1))
next
  case (Measuring s)
  then obtain s1 where o: "on_measurer object s held = Inr (s1, held', err)" "st' = Measuring s1"
    using assms(1) by (auto simp: MeasureStream_SerializeObject_def andThen_Inr_iff)
  then obtain st1 where "object (Measuring s) held = Inr (st1, held', err)"
    by (cases "object (Measuring s) held") (auto simp: on_measurer_def split: stream.splits)
  with o object [OF this] show ?thesis unfolding Measuring by (cases st1) (simp_all add: on_measurer_def del: evolves.simps(3))
next
  case (Reading s)
  show ?thesis
  proof (cases "rs_err s = None")
    case False
    then show ?thesis using assms(1) evolves_refl [of st] Reading by (simp add: ReadStream_SerializeObject_def del: evolves.simps)
  next
    case True
    obtain s1 held1 err1 where o: "on_reader object s held = Inr (s1, held1, err1)"
      using assms(1) Reading True by (auto simp: ReadStream_SerializeObject_def andThen_Inr_iff)
    have st': "st' = Reading s1 \<or> (\<exists>e s2 err2. ReadStream_fail s1 (rejection e) = (s2, err2) \<and> st' = Reading s2)"
      using assms(1) Reading True o by (auto simp: ReadStream_SerializeObject_def andThen_Inr_iff split: option.splits if_splits prod.splits)
    obtain st1 where "object (Reading s) held = Inr (st1, held1, err1)"
      using o by (cases "object (Reading s) held") (auto simp: on_reader_def split: stream.splits)
    from object [OF this] have "evolves (Reading s) (Reading s1)"
      using o \<open>object (Reading s) held = Inr (st1, held1, err1)\<close> by (cases st1) (simp_all add: on_reader_def del: evolves.simps(2))
    moreover have "evolves (Reading s1) st'"
      using st' latch_evolves [OF rejection_latchable] evolves_refl [of "Reading s1"] by (elim disjE exE conjE) simp_all
    ultimately show ?thesis unfolding Reading by (rule evolves_trans)
  qed
qed

lemma step_evolves: "stream_step st st' \<Longrightarrow> evolves st st'"
proof (induction rule: stream_step.induct)
  case (step_object object st st' err)
  have "evolves st1 st2" if "object st1 held = Inr (st2, held', e)" for st1 st2 held held' e
  proof -
    have "(\<lambda>st st'. stream_step st st' \<and> evolves st st')\<^sup>*\<^sup>* st1 st2" using step_object.IH that by (metis old.unit.exhaust)
    then show ?thesis
    proof (induction rule: rtranclp_induct)
      case (step st2 st3)
      then show ?case using evolves_trans by blast
    qed (rule evolves_refl)
  qed
  then show ?case using object_evolves [OF step_object.hyps] by blast
qed (use field_evolves end_evolves fail_evolves reject_evolves context_evolves in blast)+

lemma reachable_evolves: "stream_step\<^sup>*\<^sup>* st st' \<Longrightarrow> evolves st st'"
proof (induction rule: rtranclp_induct)
  case (step st2 st3)
  then show ?case using evolves_trans step_evolves by blast
qed (rule evolves_refl)

section \<open>Reachable streams\<close>

lemma latched_stays:
  assumes "br_inv (rs_reader s)" and "rs_err s = Some e" and "stream_step (Reading s) st'"
  shows "Stream_Err st' = Some e \<and> Stream_BitsProcessed st' = Stream_BitsProcessed (Reading s)"
  using step_evolves [OF assms(3)] assms(1,2)
  by (cases st') (simp_all add: ReadStream_Err_def ReadStream_BitsProcessed_def BitReader_BitsRead_def)

text \<open>
  C13. The invariant of a read stream. Whatever calls of the interface are made on it, in whatever order, and whatever
  the objects handed to it do, it stays a read stream of its packet, its reader's invariant holds, its
  position stays inside the data, and an error it has latched has a name in the closed list and is
  never replaced, nor the position changed, by any further call.
\<close>

theorem reachable_reader:
  assumes "stream_step\<^sup>*\<^sup>* (Reading (NewReadStream packet slack :: 'c read_stream)) st"
  shows "\<exists>s. st = Reading s \<and> br_inv (rs_reader s) \<and> br_data (rs_reader s) = packet
    \<and> Stream_BitsProcessed st \<le> 8 * length packet
    \<and> (case Stream_Err st of None \<Rightarrow> True
       | Some e \<Rightarrow> RefusalName (Some e) \<in> set (tl refusalNames)
           \<and> (\<forall>st'. stream_step st st' \<longrightarrow> Stream_Err st' = Some e \<and> Stream_BitsProcessed st' = Stream_BitsProcessed st))"
proof -
  let ?s = "NewReadStream packet slack :: 'c read_stream"
  note E = reachable_evolves [OF assms]
  then obtain s where s: "st = Reading s" by (cases st) auto
  have inv: "br_inv (rs_reader s)" and data: "br_data (rs_reader s) = br_data (rs_reader ?s)"
    using evolves_reader [OF NewReadStream_simps(1) E [unfolded s]] by simp_all
  have packet: "br_data (rs_reader ?s) = packet" by (simp add: NewReadStream_def NewBitReader_simps [unfolded NewBitReader_def])
  have "rs_pos s \<le> 8 * length packet" using br_invD [OF inv] data packet by simp
  moreover have "latchable e" if "rs_err s = Some e" for e using E that by (simp add: s)
  ultimately show ?thesis
    using inv data packet latched_stays [OF inv] RefusalName_latchable unfolding s
    by (auto simp: ReadStream_Err_def ReadStream_BitsProcessed_def BitReader_BitsRead_def split: option.splits)
qed

text \<open>
  C14. The invariant of a write stream. Whatever calls of the interface are made on it, it stays a write stream with no error, within
  its buffer, and what it has written stays written: at any two moments, flushing hands on bytes
  of the length reported, and those of the later one begin with every bit of the earlier one.
\<close>

theorem reachable_writer:
  assumes "NewWriteStream buf = Inr (s0 :: 'c write_stream)" and "stream_step\<^sup>*\<^sup>* (Writing s0) st1" and "stream_step\<^sup>*\<^sup>* st1 st2"
  shows "\<exists>s1 s2 bs1 bs2. st1 = Writing s1 \<and> st2 = Writing s2 \<and> Stream_Err st2 = None
    \<and> andThen (WriteStream_Flush s1) WriteStream_Data = Inr bs1 \<and> length bs1 = Stream_BytesProcessed st1
    \<and> andThen (WriteStream_Flush s2) WriteStream_Data = Inr bs2 \<and> length bs2 = Stream_BytesProcessed st2
    \<and> Stream_BitsProcessed st1 \<le> Stream_BitsProcessed st2 \<and> Stream_BitsProcessed st2 \<le> 8 * length buf
    \<and> take (Stream_BitsProcessed st1) (bytes_bits bs2) = take (Stream_BitsProcessed st1) (bytes_bits bs1)"
proof -
  have "length buf mod 8 = 0" using assms(1) by (auto simp: NewWriteStream_def WriteStream_Reset_def split: if_splits)
  then have s0: "ws_inv buf s0" "ws_numBits s0 = 8 * length buf" using NewWriteStream_ok [of buf, where 'c = 'c] assms(1) by auto
  note E1 = reachable_evolves [OF assms(2)] and E2 = reachable_evolves [OF assms(3)]
  obtain s1 where s1: "st1 = Writing s1" using E1 by (cases st1) auto
  obtain s2 where s2: "st2 = Writing s2" using E2 s1 by (cases st2) auto
  have i1: "ws_inv buf s1" "ws_numBits s1 = 8 * length buf" using E1 s0 by (auto simp: s1)
  then obtain e where i2: "ws_inv buf s2" "ws_numBits s2 = 8 * length buf" "ws_bits s2 = ws_bits s1 @ e" using E2 by (auto simp: s1 s2)
  obtain t1 bs1 where f1: "WriteStream_Flush s1 = Inr t1" "WriteStream_Data t1 = Inr bs1" "length bs1 = WriteStream_BytesProcessed s1"
    "bytes_bits bs1 = ws_bits s1 @ wire_align (ws_bitsWritten s1)" using Flush_ok [OF i1(1)] by blast
  obtain t2 bs2 where f2: "WriteStream_Flush s2 = Inr t2" "WriteStream_Data t2 = Inr bs2" "length bs2 = WriteStream_BytesProcessed s2"
    "bytes_bits bs2 = ws_bits s2 @ wire_align (ws_bitsWritten s2)" using Flush_ok [OF i2(1)] by blast
  note len = length_ws_bits [OF i1(1)] length_ws_bits [OF i2(1)]
  have "ws_bitsWritten s1 \<le> ws_bitsWritten s2" using len i2(3) by simp
  moreover have "ws_bitsWritten s2 \<le> 8 * length buf" using ws_invD(4) [OF i2(1)] i2(2) by simp
  moreover have "take (ws_bitsWritten s1) (bytes_bits bs2) = take (ws_bitsWritten s1) (bytes_bits bs1)"
    unfolding f1(4) f2(4) i2(3) using len(1) by simp
  ultimately show ?thesis using f1(1-3) f2(1-3) s1 s2 by (simp add: WriteStream_Err_def WriteStream_BitsProcessed_def)
qed

text \<open>Well formed streams, whatever they have been through.\<close>

fun stream_ok :: "'c stream \<Rightarrow> bool" where
  "stream_ok (Writing s) \<longleftrightarrow> (\<exists>buf. ws_inv buf s)"
| "stream_ok (Reading s) \<longleftrightarrow> br_inv (rs_reader s)"
| "stream_ok (Measuring s) \<longleftrightarrow> True"

lemma evolves_ok: "evolves st st' \<Longrightarrow> stream_ok st \<Longrightarrow> stream_ok st'"
  using evolves_reader(1) by (cases st; cases st') (auto simp del: evolves.simps(2))

lemma read_field_total:
  assumes "typed f" and "br_inv (rs_reader s)"
  shows "\<exists>s' f' err. read_field s f = Inr (s', f', err) \<and> typed f' \<and> shape f' = shape f
    \<and> (case err of None \<Rightarrow> ok_delivered f' | Some e \<Rightarrow> f' = f \<and> rs_err s' = Some e)"
proof (cases "rs_err s")
  case (Some e)
  then show ?thesis using read_field_terminal [OF _ assms(1), of s] assms(1) by simp
next
  case None
  note F = read_field_follows [OF assms None]
  show ?thesis
  proof (cases "dec_of f (rs_pos s) (rs_rest s)")
    case (Inl r)
    then show ?thesis using F assms(1) by (auto simp: follows_def)
  next
    case (Inr xn)
    obtain x n where x: "dec_of f (rs_pos s) (rs_rest s) = Inr (x, n)" using Inr by (cases xn) simp
    then have d: "dec_fields [f] (rs_pos s) (rs_rest s) = Inr ([x], n)" by (simp add: dec_bind_def dec_return_def)
    have "shape x = shape f" "ok_delivered x" using delivered_fields [OF _ d] assms(1) by simp_all
    moreover have "typed x" using shape_typed [OF \<open>shape x = shape f\<close>] assms(1) by simp
    ultimately show ?thesis using F x by (simp add: follows_def)
  qed
qed

text \<open>
  C15. The types of a serialize call. On any well formed stream, a call with a field of a Go program
  gives a well formed stream of the same kind and a field of the same declaration. A reader never
  panics: it delivers a value that conforms to its declaration, or latches an error and leaves
  the destination alone. The other two panic, or hand the field back, which then conforms.
\<close>

theorem serialize_field_typed:
  assumes "typed f" and "stream_ok st"
  shows "case serialize_field st f of
      Inl p \<Rightarrow> Stream_IsWriting st \<and> (ok_field f \<longrightarrow> p = PanicWriteOverflow)
    | Inr (st', f', err) \<Rightarrow> stream_ok st' \<and> Stream_IsWriting st' = Stream_IsWriting st \<and> typed f' \<and> shape f' = shape f
        \<and> (case err of
             None \<Rightarrow> if Stream_IsReading st then ok_delivered f' else ok_field f \<and> f' = f
           | Some e \<Rightarrow> f' = f \<and> Stream_Err st' = Some e)"
proof -
  have ok: "stream_ok st'" if "serialize_field st f = Inr (st', f', err)" for st' f' err
    using evolves_ok [OF field_evolves [OF assms(1) that] assms(2)] .
  show ?thesis
  proof (cases st)
    case (Writing s)
    have "p = PanicWriteOverflow" if "ok_field f" "write_field f s = Inl p" for p
    proof -
      obtain buf where "ws_inv buf s" using assms(2) Writing by auto
      then show ?thesis using emitsD [OF write_field_emits [OF that(1)]] emits_overflow [OF write_field_emits [OF that(1)]] that(2)
        by (cases "ws_bitsWritten s + length (wire_field f (ws_bitsWritten s)) \<le> ws_numBits s") fastforce+
    qed
    moreover have "ok_field f" if "write_field f s = Inr s'" for s'
      using measure_field_checked [OF assms(1), where 'a = 'a] that by (auto simp: checked_def split: if_splits)
    ultimately show ?thesis using ok assms(1) Writing
      by (cases "write_field f s") (auto simp: WriteStream_IsWriting_def WriteStream_IsReading_def)
  next
    case (Measuring s)
    then show ?thesis using measure_field_checked [OF assms(1), where 'a = 'a] assms(1)
      by (cases "measure_field f s") (auto simp: checked_def MeasureStream_IsWriting_def MeasureStream_IsReading_def split: if_splits)
  next
    case (Reading s)
    have inv: "br_inv (rs_reader s)" using assms(2) Reading by simp
    then obtain s' f' err where r: "read_field s f = Inr (s', f', err)" "typed f'" "shape f' = shape f"
      "case err of None \<Rightarrow> ok_delivered f' | Some e \<Rightarrow> f' = f \<and> rs_err s' = Some e"
      using read_field_total [OF assms(1) inv] by blast
    then have run: "serialize_field st f = Inr (Reading s', f', err)" using Reading by simp
    show ?thesis using ok [OF run] r(2-4) unfolding run using Reading
      by (simp add: ReadStream_IsWriting_def ReadStream_IsReading_def ReadStream_Err_def split: option.splits)
  qed
qed

section \<open>Witnesses\<close>

lemma sample_steps:
  "stream_step\<^sup>*\<^sup>* (Reading (NewReadStream [13] [] :: unit read_stream)) (fst (Fail (Reading (NewReadStream [13] [])) ErrNonCanonical))"
  by (rule r_into_rtranclp, rule step_fail) (rule surjective_pairing)

theorem reachable_reader_witness:
  "\<exists>s. fst (Fail (Reading (NewReadStream [13] [] :: unit read_stream)) ErrNonCanonical) = Reading s \<and> br_inv (rs_reader s)"
  using reachable_reader [OF sample_steps] by blast

lemma sample_write: "\<exists>s0 s1. NewWriteStream (replicate 8 0) = Inr (s0 :: unit write_stream) \<and> write_field (FUint8 7) s0 = Inr s1"
proof -
  obtain s0 :: "unit write_stream" where s0: "NewWriteStream (replicate 8 0) = Inr s0" "ws_inv (replicate 8 0) s0" "ws_bitsWritten s0 = 0" "ws_numBits s0 = 64"
    using NewWriteStream_ok [of "replicate 8 0"] by auto
  have "ok_field (FUint8 7)" by simp
  from emitsD [OF write_field_emits [OF this] s0(2)] s0(3,4) obtain s1 where "write_field (FUint8 7) s0 = Inr s1"
    by (auto simp: wire_field_def)
  with s0(1) show ?thesis by blast
qed

theorem reachable_writer_witness:
  "\<exists>(s0 :: unit write_stream) s1 bs. NewWriteStream (replicate 8 0) = Inr s0 \<and> write_field (FUint8 7) s0 = Inr s1
    \<and> andThen (WriteStream_Flush s1) WriteStream_Data = Inr bs"
proof -
  obtain s0 s1 :: "unit write_stream" where s: "NewWriteStream (replicate 8 0) = Inr s0" "write_field (FUint8 7) s0 = Inr s1"
    using sample_write by blast
  have "stream_step (Writing s0) (Writing s1)" by (rule step_field [of "FUint8 7"]) (simp_all add: s(2) [simplified])
  then have "stream_step\<^sup>*\<^sup>* (Writing s0) (Writing s1)" by (rule r_into_rtranclp)
  from reachable_writer [OF s(1) rtranclp.rtrancl_refl this] s show ?thesis by auto
qed

theorem serialize_field_typed_witness:
  "\<exists>st' f' err. serialize_field (Reading (NewReadStream [13] [] :: unit read_stream)) (FInt 0 (- 3) 4) = Inr (st', f', err) \<and> shape f' = FInt 0 (- 3) 4"
  using serialize_field_typed [of "FInt 0 (- 3) 4" "Reading (NewReadStream [13] [] :: unit read_stream)"]
  by (auto simp: ReadStream_IsWriting_def split: sum.splits)

end
