(* ===== verification/Serialize_Functions.thy ===== *)
theory Serialize_Functions
  imports Stream_Steps Truncation Field_Eval
begin

text \<open>
  Serialize functions, as a caller writes one for all three streams: a program of serialize
  calls whose control flow may depend on what was serialized before (a flag, a count, a previous value), with
  nested objects (the \<open>Serializer\<close> interface of stream.go). The rule of the documentation, that control flow
  depends on values already serialized, is \<open>settled\<close>, a definite assignment analysis; under it
  every function reads back what it wrote.
\<close>

section \<open>Programs\<close>

text \<open>
  A memory gives each variable of the caller the field it is serialized as, its value included. \<open>Call x xs d\<close>
  serializes \<open>x\<close>, declared by \<open>d\<close> from the values of \<open>xs\<close>; \<open>Branch\<close> is an \<open>if\<close>, \<open>Repeat\<close> a loop over
  an index, \<open>Demand\<close> the caller's own refusal of a value it has read, \<open>Nested\<close> a \<open>SerializeObject\<close> of an
  object whose \<open>Serialize\<close> returns \<open>stream.Err()\<close>.
\<close>

type_synonym 'x memory = "'x \<Rightarrow> field"

datatype 'x serializer =
    Nothing
  | Call 'x "'x list" "field list \<Rightarrow> field \<Rightarrow> field"
  | Both "'x serializer" "'x serializer"
  | Branch "'x list" "field list \<Rightarrow> bool" "'x serializer" "'x serializer"
  | Repeat "'x list" "field list \<Rightarrow> nat" "nat \<Rightarrow> 'x serializer"
  | Demand "'x list" "field list \<Rightarrow> bool" refusal
  | Nested "'x serializer"

text \<open>As the documented pattern does, a function looks at no error on the way.\<close>

primrec serialize :: "'x serializer \<Rightarrow> 'c stream \<Rightarrow> 'x memory \<Rightarrow> ('c stream \<times> 'x memory) res" where
  "serialize Nothing st m = Inr (st, m)"
| "serialize (Call x xs d) st m =
     andThen (serialize_field st (d (map m xs) (m x))) (\<lambda>(st, f, _). Inr (st, m(x := f)))"
| "serialize (Both p q) st m = andThen (serialize p st m) (\<lambda>(st, m). serialize q st m)"
| "serialize (Branch xs c p q) st m = (if c (map m xs) then serialize p st m else serialize q st m)"
| "serialize (Repeat xs n body) st m = foldM (\<lambda>(st, m) i. serialize (body i) st m) (st, m) [0..<n (map m xs)]"
| "serialize (Demand xs c reason) st m =
     Inr (if Stream_IsReading st \<and> \<not> c (map m xs) then fst (Fail st reason) else st, m)"
| "serialize (Nested p) st m =
     andThen (Stream_SerializeObject st (\<lambda>st m. andThen (serialize p st m) (\<lambda>(st, m). Inr (st, m, Stream_Err st))) m)
       (\<lambda>(st, m, _). Inr (st, m))"

text \<open>A whole packet: the function, the end, the bytes handed on; and read back, to the end.\<close>

definition write_object :: "'x serializer \<Rightarrow> 'x memory \<Rightarrow> u8 list \<Rightarrow> (u8 list \<times> 'x memory) res" where
  "write_object p m buf =
    andThen (NewWriteStream buf) (\<lambda>s :: unit write_stream.
    andThen (serialize p (Writing s) m) (\<lambda>(st, m).
    andThen (Stream_SerializeEnd st) (\<lambda>(st, _).
      case st of Writing s \<Rightarrow> andThen (WriteStream_Flush s) (\<lambda>s. andThen (WriteStream_Data s) (\<lambda>bs. Inr (bs, m)))
      | _ \<Rightarrow> Inr ([], m))))"

definition read_object :: "'x serializer \<Rightarrow> 'x memory \<Rightarrow> u8 list \<Rightarrow> u8 list \<Rightarrow> ('x memory \<times> go_error option) res" where
  "read_object p m packet slack =
    andThen (serialize p (Reading (NewReadStream packet slack :: unit read_stream)) m) (\<lambda>(st, m).
    andThen (Stream_SerializeEnd st) (\<lambda>(st, _). Inr (m, Stream_Err st)))"

definition measure_object :: "'x serializer \<Rightarrow> 'x memory \<Rightarrow> nat res" where
  "measure_object p m =
    andThen (serialize p (Measuring (NewMeasureStream :: unit measure_stream)) m) (\<lambda>(st, _). Inr (Stream_BitsProcessed st))"

section \<open>The calls a writer makes\<close>

text \<open>The fields a function serializes from a memory, in order, and the memory it leaves.\<close>

primrec repeated :: "(nat \<Rightarrow> 'm \<Rightarrow> 'a list \<times> 'm) \<Rightarrow> nat list \<Rightarrow> 'm \<Rightarrow> 'a list \<times> 'm" where
  "repeated run [] m = ([], m)"
| "repeated run (i # js) m = (let (fs, m) = run i m; (gs, m) = repeated run js m in (fs @ gs, m))"

primrec flatten :: "'x serializer \<Rightarrow> 'x memory \<Rightarrow> field list \<times> 'x memory" where
  "flatten Nothing m = ([], m)"
| "flatten (Call x xs d) m = (let f = d (map m xs) (m x) in ([f], m(x := f)))"
| "flatten (Both p q) m = (let (fs, m) = flatten p m; (gs, m) = flatten q m in (fs @ gs, m))"
| "flatten (Branch xs c p q) m = (if c (map m xs) then flatten p m else flatten q m)"
| "flatten (Repeat xs n body) m = repeated (\<lambda>i m. flatten (body i) m) [0..<n (map m xs)] m"
| "flatten (Demand xs c reason) m = ([], m)"
| "flatten (Nested p) m = flatten p m"

definition calls :: "'x serializer \<Rightarrow> 'x memory \<Rightarrow> field list" where
  "calls p m = fst (flatten p m)"

definition after :: "'x serializer \<Rightarrow> 'x memory \<Rightarrow> 'x memory" where
  "after p m = snd (flatten p m)"

declare andThen_return [simp]

text \<open>On a stream that writes or measures, a function is the list of its calls, nested or not.\<close>

definition flat :: "'c stream \<Rightarrow> field list \<times> 'x memory \<Rightarrow> ('c stream \<times> 'x memory) res" where
  "flat st r = andThen (serialize_fields st (fst r)) (\<lambda>(st, _). Inr (st, snd r))"

lemma flat_Nil [simp]: "flat st ([], m) = Inr (st, m)"
  by (simp add: flat_def)

lemma writing_kind:
  assumes "Stream_IsWriting st"
  obtains s where "st = Writing s" | s where "st = Measuring s"
  using assms by (cases st) (auto simp: ReadStream_IsWriting_def)

lemma writing_simps [simp]: "WriteStream_IsWriting s" "MeasureStream_IsWriting u"
  by (simp_all add: WriteStream_IsWriting_def MeasureStream_IsWriting_def)

lemma writing_fields:
  "serialize_fields (Writing s) fs = Inr (st', gs) \<Longrightarrow> \<exists>s'. st' = Writing s'"
  "serialize_fields (Measuring u) fs = Inr (st', gs) \<Longrightarrow> \<exists>u'. st' = Measuring u'"
  by (auto simp: write_fields measure_fields andThen_Inr_iff)

lemma writing_stays: "Stream_IsWriting st \<Longrightarrow> serialize_fields st fs = Inr (st', gs) \<Longrightarrow> Stream_IsWriting st'"
  by (cases st) (auto simp: ReadStream_IsWriting_def dest!: writing_fields)

lemma flat_then:
  assumes "Stream_IsWriting st" and k: "\<And>st'. Stream_IsWriting st' \<Longrightarrow> k (st', m) = flat st' (gs, m')"
  shows "andThen (flat st (fs, m)) k = flat st (fs @ gs, m')"
proof (cases "serialize_fields st fs")
  case (Inr r)
  obtain st1 fs1 where r: "r = (st1, fs1)" by (cases r)
  then show ?thesis
    using Inr k [OF writing_stays [OF assms(1)], of fs st1 fs1]
    by (simp add: flat_def serialize_fields_append andThen_assoc case_prod_unfold)
qed (simp add: flat_def serialize_fields_append)

lemma flat_call:
  assumes "Stream_IsWriting st"
  shows "andThen (serialize_field st f) (\<lambda>(st, f, _). Inr (st, m(x := f))) = flat st ([f], m(x := f))"
  using assms by (rule writing_kind) (simp_all add: flat_def andThen_assoc case_prod_unfold)

lemma flat_nested:
  assumes "Stream_IsWriting st" and "\<And>st m. Stream_IsWriting st \<Longrightarrow> object st m = andThen (flat st (r m)) (\<lambda>(st, m). Inr (st, m, Stream_Err st))"
  shows "andThen (Stream_SerializeObject st object m) (\<lambda>(st, m, _). Inr (st, m)) = flat st (r m)"
proof (cases "flat st (r m)")
  case (Inl e)
  show ?thesis
    by (rule writing_kind [OF assms(1)])
      (use Inl assms(2) [OF assms(1), of m] in \<open>simp_all add: WriteStream_SerializeObject_def MeasureStream_SerializeObject_def on_writer_def on_measurer_def\<close>)
next
  case (Inr q)
  obtain st' m' where q: "q = (st', m')" by (cases q)
  then obtain gs where gs: "serialize_fields st (fst (r m)) = Inr (st', gs)"
    using Inr by (auto simp: flat_def andThen_Inr_iff)
  show ?thesis
    using assms(1)
  proof (rule writing_kind)
    fix s assume s: "st = Writing s"
    then obtain s' where "st' = Writing s'" using writing_fields(1) [OF gs [unfolded s]] by blast
    then show ?thesis
      using Inr q assms(2) [OF assms(1), of m] by (simp add: s WriteStream_SerializeObject_def on_writer_def)
  next
    fix s assume s: "st = Measuring s"
    then obtain s' where "st' = Measuring s'" using writing_fields(2) [OF gs [unfolded s]] by blast
    then show ?thesis
      using Inr q assms(2) [OF assms(1), of m] by (simp add: s MeasureStream_SerializeObject_def on_measurer_def)
  qed
qed

lemma serialize_flat: "Stream_IsWriting (st :: 'c stream) \<Longrightarrow> serialize p st m = flat st (flatten p m)"
proof (induction p arbitrary: st m)
  case (Call x xs d)
  then show ?case using flat_call by (simp add: Let_def)
next
  case (Both p q)
  obtain fs m1 where p: "flatten p m = (fs, m1)" by (cases "flatten p m")
  obtain gs m2 where q: "flatten q m1 = (gs, m2)" by (cases "flatten q m1")
  show ?case
    unfolding serialize.simps flatten.simps Both.IH(1) [OF Both.prems] p
    using flat_then [OF Both.prems, of "\<lambda>(st, m). serialize q st m" m1 gs m2 fs] Both.IH(2) q by simp
next
  case (Repeat xs n body)
  have "foldM (\<lambda>(st, m) i. serialize (body i) st m) (st, m) js = flat st (repeated (\<lambda>i m. flatten (body i) m) js m)"
    if "Stream_IsWriting st" for js and st :: "'c stream" and m
    using that
  proof (induction js arbitrary: st m)
    case (Cons i js)
    obtain fs m1 where p: "flatten (body i) m = (fs, m1)" by (cases "flatten (body i) m")
    obtain gs m2 where q: "repeated (\<lambda>i m. flatten (body i) m) js m1 = (gs, m2)" by (cases "repeated (\<lambda>i m. flatten (body i) m) js m1")
    show ?case
      using flat_then [OF Cons.prems, of "\<lambda>s. foldM (\<lambda>(st, m) i. serialize (body i) st m) s js" m1 gs m2 fs]
        Cons.IH Repeat.IH [OF rangeI Cons.prems] p q by simp
  qed simp
  then show ?case using Repeat.prems by simp
next
  case (Demand xs c reason)
  then show ?case by (rule writing_kind) (simp_all add: WriteStream_IsReading_def MeasureStream_IsReading_def)
next
  case (Nested p)
  show ?case
    unfolding serialize.simps flatten.simps
    by (rule flat_nested [OF Nested.prems]) (simp add: Nested.IH)
qed simp_all

text \<open>The demands a function makes of a memory, each of what it holds at that point.\<close>

primrec demanded :: "(nat \<Rightarrow> 'm \<Rightarrow> bool) \<Rightarrow> (nat \<Rightarrow> 'm \<Rightarrow> 'm) \<Rightarrow> nat list \<Rightarrow> 'm \<Rightarrow> bool" where
  "demanded holds run [] m \<longleftrightarrow> True"
| "demanded holds run (i # js) m \<longleftrightarrow> holds i m \<and> demanded holds run js (run i m)"

primrec demands :: "'x serializer \<Rightarrow> 'x memory \<Rightarrow> bool" where
  "demands Nothing m \<longleftrightarrow> True"
| "demands (Call x xs d) m \<longleftrightarrow> True"
| "demands (Both p q) m \<longleftrightarrow> demands p m \<and> demands q (after p m)"
| "demands (Branch xs c p q) m \<longleftrightarrow> (if c (map m xs) then demands p m else demands q m)"
| "demands (Repeat xs n body) m \<longleftrightarrow> demanded (\<lambda>i. demands (body i)) (\<lambda>i. after (body i)) [0..<n (map m xs)] m"
| "demands (Demand xs c reason) m \<longleftrightarrow> c (map m xs)"
| "demands (Nested p) m \<longleftrightarrow> demands p m"

section \<open>Settled functions\<close>

text \<open>
  \<open>settled X E p E'\<close>: control flow and declarations of \<open>p\<close> depend only on variables already serialized exactly;
  \<open>E\<close> are those before it runs, \<open>E'\<close> those after, \<open>X\<close> the variables that never hold a compressed float.
\<close>

definition declares :: "(field list \<Rightarrow> field \<Rightarrow> field) \<Rightarrow> bool" where
  "declares d \<longleftrightarrow> (\<forall>vs f g. shape f = shape g \<longrightarrow> shape (d vs f) = shape (d vs g))"

inductive settled :: "'x set \<Rightarrow> 'x set \<Rightarrow> 'x serializer \<Rightarrow> 'x set \<Rightarrow> bool" for X where
  settled_Nothing: "settled X E Nothing E"
| settled_exact: "set xs \<subseteq> E \<Longrightarrow> declares d \<Longrightarrow> x \<in> X \<Longrightarrow> (\<And>vs f. exact f \<Longrightarrow> exact (d vs f)) \<Longrightarrow>
    settled X E (Call x xs d) (insert x E)"
| settled_rounded: "set xs \<subseteq> E \<Longrightarrow> declares d \<Longrightarrow> x \<notin> X \<Longrightarrow> settled X E (Call x xs d) (E - {x})"
| settled_Both: "settled X E p E1 \<Longrightarrow> settled X E1 q E2 \<Longrightarrow> settled X E (Both p q) E2"
| settled_Branch: "set xs \<subseteq> E \<Longrightarrow> settled X E p E1 \<Longrightarrow> settled X E q E2 \<Longrightarrow> settled X E (Branch xs c p q) (E1 \<inter> E2)"
| settled_Repeat: "set xs \<subseteq> E \<Longrightarrow> (\<And>i. settled X E (body i) (B i)) \<Longrightarrow> (\<And>i. E \<subseteq> B i) \<Longrightarrow> settled X E (Repeat xs n body) E"
| settled_Demand: "set xs \<subseteq> E \<Longrightarrow> settled X E (Demand xs c reason) E"
| settled_Nested: "settled X E p E' \<Longrightarrow> settled X E (Nested p) E'"

text \<open>The variables that a run of \<open>p\<close> from a memory serializes: those of the branch it takes and of every turn of its loops.\<close>

primrec gathered :: "(nat \<Rightarrow> 'm \<Rightarrow> 'x set) \<Rightarrow> (nat \<Rightarrow> 'm \<Rightarrow> 'm) \<Rightarrow> nat list \<Rightarrow> 'm \<Rightarrow> 'x set" where
  "gathered vars run [] m = {}"
| "gathered vars run (i # js) m = vars i m \<union> gathered vars run js (run i m)"

primrec serialized :: "'x serializer \<Rightarrow> 'x memory \<Rightarrow> 'x set" where
  "serialized Nothing m = {}"
| "serialized (Call x xs d) m = {x}"
| "serialized (Both p q) m = serialized p m \<union> serialized q (after p m)"
| "serialized (Branch xs c p q) m = (if c (map m xs) then serialized p m else serialized q m)"
| "serialized (Repeat xs n body) m = gathered (\<lambda>i. serialized (body i)) (\<lambda>i. after (body i)) [0..<n (map m xs)] m"
| "serialized (Demand xs c reason) m = {}"
| "serialized (Nested p) m = serialized p m"

text \<open>
  A reader's memory against the writer's: \<open>A\<close> are the variables serialized so far; any other holds what it
  held in \<open>m0\<close>, at the start.
\<close>

definition agree :: "'x set \<Rightarrow> 'x set \<Rightarrow> 'x set \<Rightarrow> 'x memory \<Rightarrow> 'x memory \<Rightarrow> 'x memory \<Rightarrow> bool" where
  "agree X E A m0 mw mr \<longleftrightarrow> (\<forall>x. shape (mr x) = shape (mw x)) \<and> (\<forall>x \<in> X. exact (mw x))
     \<and> (\<forall>x \<in> E. mr x = mw x) \<and> (\<forall>x \<in> A. mr x = recovered (mw x)) \<and> (\<forall>x. x \<notin> A \<longrightarrow> m0 x = mr x)"

lemma agree_mono: "agree X E A m0 mw mr \<Longrightarrow> E' \<subseteq> E \<Longrightarrow> agree X E' A m0 mw mr"
  unfolding agree_def by blast

lemma agree_map: "agree X E A m0 mw mr \<Longrightarrow> set xs \<subseteq> E \<Longrightarrow> map mr xs = map mw xs"
  unfolding agree_def by auto

lemma agree_update:
  assumes "agree X E A m0 mw mr"
  shows "x \<notin> X \<Longrightarrow> agree X (E - {x}) (insert x A) m0 (mw(x := f)) (mr(x := recovered f))"
    and "exact f \<Longrightarrow> agree X (insert x E) (insert x A) m0 (mw(x := f)) (mr(x := recovered f))"
  using assms by (auto simp: agree_def exact_simps)

section \<open>Reading back\<close>

text \<open>
  \<open>reads_back\<close>: a run of a reader over the bits of the writer's calls \<open>fs\<close> consumes them and brings its memory
  into agreement with the writer's.
\<close>

definition reads_back :: "('c stream \<Rightarrow> 'x memory \<Rightarrow> ('c stream \<times> 'x memory) res) \<Rightarrow> 'x set \<Rightarrow> 'x set \<Rightarrow> 'x set
    \<Rightarrow> 'x memory \<Rightarrow> field list \<Rightarrow> 'x memory \<Rightarrow> 'x set \<Rightarrow> 'x set \<Rightarrow> bool" where
  "reads_back run X E A mw fs mw' E' A' \<longleftrightarrow> (\<forall>m0 s mr tail. agree X E A m0 mw mr \<and> br_inv (rs_reader s) \<and> rs_err s = None
     \<and> rs_rest s = wire_fields fs (rs_pos s) @ tail \<longrightarrow>
       (\<exists>mr'. run (Reading s) mr = Inr (Reading (advance (length (wire_fields fs (rs_pos s))) s), mr') \<and> agree X E' A' m0 mw' mr'))"

lemma reads_backI:
  assumes "\<And>m0 s mr tail. agree X E A m0 mw mr \<Longrightarrow> br_inv (rs_reader s) \<Longrightarrow> rs_err s = None
      \<Longrightarrow> rs_rest s = wire_fields fs (rs_pos s) @ tail \<Longrightarrow>
      \<exists>mr'. run (Reading s) mr = Inr (Reading (advance (length (wire_fields fs (rs_pos s))) s), mr') \<and> agree X E' A' m0 mw' mr'"
  shows "reads_back run X E A mw fs mw' E' A'"
  using assms unfolding reads_back_def by blast

lemma reads_backD:
  assumes "reads_back run X E A mw fs mw' E' A'" and "agree X E A m0 mw mr" and "br_inv (rs_reader s)" and "rs_err s = None"
    and "rs_rest s = wire_fields fs (rs_pos s) @ tail"
  obtains mr' where "run (Reading s) mr = Inr (Reading (advance (length (wire_fields fs (rs_pos s))) s), mr')" "agree X E' A' m0 mw' mr'"
  using assms unfolding reads_back_def by blast

lemma reads_back_nothing: "reads_back (\<lambda>st m. Inr (st, m)) X E A mw [] mw E A"
  by (rule reads_backI) (simp add: advance_def)

lemma reads_back_mono:
  assumes "reads_back run X E A mw fs mw' E1 A'" and "E' \<subseteq> E1"
  shows "reads_back run X E A mw fs mw' E' A'"
  using assms unfolding reads_back_def by (meson agree_mono)

lemma reads_back_both:
  assumes f: "reads_back run X E A mw fs mw1 E1 A1" and g: "reads_back run' X E1 A1 mw1 gs mw2 E2 A2"
  shows "reads_back (\<lambda>st m. andThen (run st m) (\<lambda>(st, m). run' st m)) X E A mw (fs @ gs) mw2 E2 A2"
proof (rule reads_backI)
  fix m0 and s :: "'a read_stream" and mr tail
  assume a: "agree X E A m0 mw mr" and inv: "br_inv (rs_reader s)" and none: "rs_err s = None"
    and rest: "rs_rest s = wire_fields (fs @ gs) (rs_pos s) @ tail"
  let ?k = "length (wire_fields fs (rs_pos s))"
  define s1 where "s1 = advance ?k s"
  obtain m1 where m1: "run (Reading s) mr = Inr (Reading s1, m1)" "agree X E1 A1 m0 mw1 m1"
    using reads_backD [OF f a inv none] rest unfolding s1_def by (metis append.assoc wire_fields_append)
  have k: "?k \<le> length (rs_rest s)" using rest by (simp add: wire_fields_append)
  have s1: "br_inv (rs_reader s1)" "rs_err s1 = None" "rs_pos s1 = rs_pos s + ?k"
    using br_inv_advance_stream [OF inv k] none by (simp_all add: s1_def)
  have "rs_rest s1 = wire_fields gs (rs_pos s1) @ tail"
    using rest unfolding s1(3) by (simp add: s1_def wire_fields_append)
  from reads_backD [OF g m1(2) s1(1,2) this] obtain m2 where
    m2: "run' (Reading s1) m1 = Inr (Reading (advance (length (wire_fields gs (rs_pos s1))) s1), m2)" "agree X E2 A2 m0 mw2 m2" .
  have "advance (length (wire_fields gs (rs_pos s1))) s1 = advance (length (wire_fields (fs @ gs) (rs_pos s))) s"
    unfolding s1(3) by (simp add: s1_def wire_fields_append advance_def add.assoc)
  then show "\<exists>mr'. andThen (run (Reading s) mr) (\<lambda>(st, m). run' st m)
      = Inr (Reading (advance (length (wire_fields (fs @ gs) (rs_pos s))) s), mr') \<and> agree X E2 A2 m0 mw2 mr'"
    using m1(1) m2 by simp
qed

lemma read_call:
  assumes f: "typed f" "ok_field f" and g: "shape g = shape f" and s: "br_inv (rs_reader s)" "rs_err s = None"
    and rest: "rs_rest s = wire_field f (rs_pos s) @ tail"
  shows "read_field s g = Inr (advance (length (wire_field f (rs_pos s))) s, recovered f, None)"
proof -
  have "dec_fields [g] (rs_pos s) (wire_fields [f] (rs_pos s) @ tail) = Inr ([recovered f], length (wire_fields [f] (rs_pos s)))"
    using dec_fields_written [of "[f]" "[g]" "rs_pos s" tail] f g by simp
  then have "dec_of g (rs_pos s) (rs_rest s) = Inr (recovered f, length (wire_field f (rs_pos s)))"
    unfolding rest by (auto simp: dec_bind_def dec_return_def split: sum.splits)
  then show ?thesis
    using read_field_follows [of g s] shape_typed [OF g] f(1) s by (simp add: follows_def)
qed

lemma reads_back_call:
  assumes "set xs \<subseteq> E" and d: "declares d" and f: "typed (d (map mw xs) (mw x))" "ok_field (d (map mw xs) (mw x))"
    and E': "\<And>m0 mr f. agree X E A m0 mw mr \<Longrightarrow> f = d (map mw xs) (mw x) \<Longrightarrow> agree X E' (insert x A) m0 (mw(x := f)) (mr(x := recovered f))"
  shows "reads_back (\<lambda>st :: 'c stream. \<lambda>m. andThen (serialize_field st (d (map m xs) (m x))) (\<lambda>(st, f, _). Inr (st, m(x := f))))
    X E A mw [d (map mw xs) (mw x)] (mw(x := d (map mw xs) (mw x))) E' (insert x A)"
proof (rule reads_backI)
  fix m0 and s :: "'c read_stream" and mr tail
  let ?f = "d (map mw xs) (mw x)"
  assume a: "agree X E A m0 mw mr" and s: "br_inv (rs_reader s)" "rs_err s = None"
    and rest: "rs_rest s = wire_fields [?f] (rs_pos s) @ tail"
  have vs: "map mr xs = map mw xs" by (rule agree_map [OF a assms(1)])
  have "shape (mr x) = shape (mw x)" using a by (simp add: agree_def)
  then have "shape (d (map mr xs) (mr x)) = shape ?f" using d unfolding declares_def vs by blast
  from read_call [OF f this s] rest
  have "read_field s (d (map mr xs) (mr x)) = Inr (advance (length (wire_field ?f (rs_pos s))) s, recovered ?f, None)" by simp
  then show "\<exists>mr'. andThen (serialize_field (Reading s) (d (map mr xs) (mr x))) (\<lambda>(st, f, _). Inr (st, mr(x := f)))
      = Inr (Reading (advance (length (wire_fields [?f] (rs_pos s))) s), mr') \<and> agree X E' (insert x A) m0 (mw(x := ?f)) mr'"
    using E' [OF a refl] by simp
qed

lemma reads_back_nested:
  assumes "reads_back run X E A mw fs mw' E' A'"
  shows "reads_back (\<lambda>st m. andThen (Stream_SerializeObject st (\<lambda>st m. andThen (run st m) (\<lambda>(st, m). Inr (st, m, Stream_Err st))) m)
       (\<lambda>(st, m, _). Inr (st, m))) X E A mw fs mw' E' A'"
proof (rule reads_backI)
  fix m0 and s :: "'a read_stream" and mr tail
  assume s: "agree X E A m0 mw mr" "br_inv (rs_reader s)" "rs_err s = None" "rs_rest s = wire_fields fs (rs_pos s) @ tail"
  obtain mr' where "run (Reading s) mr = Inr (Reading (advance (length (wire_fields fs (rs_pos s))) s), mr')" "agree X E' A' m0 mw' mr'"
    by (rule reads_backD [OF assms s])
  then show "\<exists>mr'. andThen (Stream_SerializeObject (Reading s) (\<lambda>st m. andThen (run st m) (\<lambda>(st, m). Inr (st, m, Stream_Err st))) mr)
       (\<lambda>(st, m, _). Inr (st, m)) = Inr (Reading (advance (length (wire_fields fs (rs_pos s))) s), mr') \<and> agree X E' A' m0 mw' mr'"
    using s(3) by (simp add: ReadStream_SerializeObject_def on_reader_def ReadStream_Err_def)
qed

lemma calls_simps:
  "calls Nothing m = []" "after Nothing m = m"
  "calls (Call x xs d) m = [d (map m xs) (m x)]" "after (Call x xs d) m = m(x := d (map m xs) (m x))"
  "calls (Both p q) m = calls p m @ calls q (after p m)" "after (Both p q) m = after q (after p m)"
  "calls (Branch xs c p q) m = (if c (map m xs) then calls p m else calls q m)"
  "after (Branch xs c p q) m = (if c (map m xs) then after p m else after q m)"
  "calls (Demand xs c reason) m = []" "after (Demand xs c reason) m = m"
  "calls (Nested p) m = calls p m" "after (Nested p) m = after p m"
  by (simp_all add: calls_def after_def Let_def case_prod_unfold)

lemma repeated_simps:
  "fst (repeated (\<lambda>i. flatten (body i)) (i # js) m) = calls (body i) m @ fst (repeated (\<lambda>i. flatten (body i)) js (after (body i) m))"
  "snd (repeated (\<lambda>i. flatten (body i)) (i # js) m) = snd (repeated (\<lambda>i. flatten (body i)) js (after (body i) m))"
  by (simp_all add: calls_def after_def Let_def case_prod_unfold)

lemma calls_Repeat:
  "calls (Repeat xs n body) m = fst (repeated (\<lambda>i. flatten (body i)) [0..<n (map m xs)] m)"
  "after (Repeat xs n body) m = snd (repeated (\<lambda>i. flatten (body i)) [0..<n (map m xs)] m)"
  by (simp_all add: calls_def after_def)

lemma reads_back_repeat:
  assumes "\<And>i A mw. \<forall>f \<in> set (calls (body i) mw). typed f \<and> ok_field f \<Longrightarrow> demands (body i) mw \<Longrightarrow>
      reads_back (serialize (body i) :: 'c stream \<Rightarrow> _) X E A mw (calls (body i) mw) (after (body i) mw) E (A \<union> serialized (body i) mw)"
    and "\<forall>f \<in> set (fst (repeated (\<lambda>i. flatten (body i)) js mw)). typed f \<and> ok_field f"
    and "demanded (\<lambda>i. demands (body i)) (\<lambda>i. after (body i)) js mw"
  shows "reads_back (\<lambda>st :: 'c stream. \<lambda>m. foldM (\<lambda>(st, m) i. serialize (body i) st m) (st, m) js) X E A mw
    (fst (repeated (\<lambda>i. flatten (body i)) js mw)) (snd (repeated (\<lambda>i. flatten (body i)) js mw))
    E (A \<union> gathered (\<lambda>i. serialized (body i)) (\<lambda>i. after (body i)) js mw)"
  using assms(2,3)
proof (induction js arbitrary: A mw)
  case Nil
  then show ?case using reads_back_nothing by simp
next
  case (Cons i js)
  note S = repeated_simps [of body i js mw]
  have "reads_back (\<lambda>st :: 'c stream. \<lambda>m. andThen (serialize (body i) st m) (\<lambda>(st, m). foldM (\<lambda>(st, m) i. serialize (body i) st m) (st, m) js))
      X E A mw (fst (repeated (\<lambda>i. flatten (body i)) (i # js) mw)) (snd (repeated (\<lambda>i. flatten (body i)) (i # js) mw)) E
      ((A \<union> serialized (body i) mw) \<union> gathered (\<lambda>i. serialized (body i)) (\<lambda>i. after (body i)) js (after (body i) mw))"
    unfolding S by (rule reads_back_both [OF assms(1) Cons.IH]) (use Cons.prems in \<open>simp_all add: S del: repeated.simps\<close>)
  then show ?case by (simp add: case_prod_unfold Un_assoc del: repeated.simps)
qed

lemma serialize_eqs:
  "serialize Nothing = (\<lambda>st m. Inr (st, m))"
  "serialize (Call x xs d) = (\<lambda>st m. andThen (serialize_field st (d (map m xs) (m x))) (\<lambda>(st, f, _). Inr (st, m(x := f))))"
  "serialize (Both p q) = (\<lambda>st m. andThen (serialize p st m) (\<lambda>(st, m). serialize q st m))"
  "serialize (Nested p) = (\<lambda>st m. andThen (Stream_SerializeObject st
     (\<lambda>st m. andThen (serialize p st m) (\<lambda>(st, m). Inr (st, m, Stream_Err st))) m) (\<lambda>(st, m, _). Inr (st, m)))"
  by (intro ext, simp)+

lemma settled_reads_back:
  assumes "settled X E p E'" and "\<forall>f \<in> set (calls p mw). typed f \<and> ok_field f" and "demands p mw"
  shows "reads_back (serialize p :: 'c stream \<Rightarrow> _) X E A mw (calls p mw) (after p mw) E' (A \<union> serialized p mw)"
  using assms
proof (induction arbitrary: A mw rule: settled.induct)
  case (settled_Nothing E)
  then show ?case unfolding serialize_eqs calls_simps using reads_back_nothing by simp
next
  case (settled_exact xs E d x)
  have "exact (d (map mw xs) (mw x))" if "agree X E A m0 mw mr" for m0 mr using that settled_exact by (simp add: agree_def)
  then have "reads_back (serialize (Call x xs d) :: 'c stream \<Rightarrow> _) X E A mw (calls (Call x xs d) mw) (after (Call x xs d) mw)
      (insert x E) (insert x A)"
    unfolding serialize_eqs calls_simps
    by (intro reads_back_call agree_update(2)) (use settled_exact in \<open>auto simp: calls_simps\<close>)
  then show ?case by (simp only: serialized.simps Un_insert_right Un_empty_right)
next
  case (settled_rounded xs E d x)
  then have "reads_back (serialize (Call x xs d) :: 'c stream \<Rightarrow> _) X E A mw (calls (Call x xs d) mw) (after (Call x xs d) mw)
      (E - {x}) (insert x A)"
    unfolding serialize_eqs calls_simps by (intro reads_back_call) (auto intro: agree_update(1))
  then show ?case by (simp only: serialized.simps Un_insert_right Un_empty_right)
next
  case (settled_Both E p E1 q E2)
  have "reads_back (serialize (Both p q) :: 'c stream \<Rightarrow> _) X E A mw (calls (Both p q) mw) (after (Both p q) mw)
      E2 ((A \<union> serialized p mw) \<union> serialized q (after p mw))"
    unfolding serialize_eqs calls_simps
    by (rule reads_back_both [OF settled_Both.IH]) (use settled_Both.prems in \<open>simp_all add: calls_simps\<close>)
  then show ?case by (simp only: serialized.simps Un_assoc)
next
  case (settled_Branch xs E p E1 q E2 c)
  note P = settled_Branch.IH(1) [of mw A] and Q = settled_Branch.IH(2) [of mw A]
  have "reads_back (\<lambda>st :: 'c stream. \<lambda>m. if c (map mw xs) then serialize p st m else serialize q st m) X E A mw
      (calls (Branch xs c p q) mw) (after (Branch xs c p q) mw) (E1 \<inter> E2) (A \<union> serialized (Branch xs c p q) mw)"
    using P Q settled_Branch.prems by (auto simp: calls_simps intro: reads_back_mono)
  then show ?case
    unfolding reads_back_def using agree_map [OF _ settled_Branch.hyps(1), of X] by (metis serialize.simps(4))
next
  case (settled_Repeat xs E body B n)
  have body: "reads_back (serialize (body i) :: 'c stream \<Rightarrow> _) X E A mw (calls (body i) mw) (after (body i) mw) E (A \<union> serialized (body i) mw)"
    if "\<forall>f \<in> set (calls (body i) mw). typed f \<and> ok_field f" "demands (body i) mw" for i A mw
    by (rule reads_back_mono [OF settled_Repeat.IH [OF that]]) (use settled_Repeat.hyps in auto)
  have "reads_back (\<lambda>st :: 'c stream. \<lambda>m. foldM (\<lambda>(st, m) i. serialize (body i) st m) (st, m) [0..<n (map mw xs)]) X E A mw
    (calls (Repeat xs n body) mw) (after (Repeat xs n body) mw) E (A \<union> serialized (Repeat xs n body) mw)"
    unfolding calls_Repeat serialized.simps by (rule reads_back_repeat [OF body]) (use settled_Repeat.prems in \<open>simp_all add: calls_Repeat\<close>)
  then show ?case
    unfolding reads_back_def using agree_map [OF _ settled_Repeat.hyps(1), of X] by (metis serialize.simps(5))
next
  case (settled_Demand xs E c reason)
  have eq: "serialize (Demand xs c reason) st mr = Inr (st, mr)" if "agree X E A m0 mw mr" for st :: "'c stream" and m0 mr
    using settled_Demand.prems unfolding serialize.simps agree_map [OF that settled_Demand.hyps] by simp
  have "reads_back (serialize (Demand xs c reason) :: 'c stream \<Rightarrow> _) X E A mw [] mw E A"
    by (rule reads_backI) (simp add: eq advance_def del: serialize.simps)
  then show ?case unfolding calls_simps by (simp only: serialized.simps Un_empty_right)
next
  case (settled_Nested E p E')
  then show ?case unfolding serialize_eqs calls_simps serialized.simps by (intro reads_back_nested) simp
qed

section \<open>Whole packets\<close>

lemma write_object_flat: "write_object p m buf = andThen (write_message buf (calls p m)) (\<lambda>packet. Inr (packet, after p m))"
proof (cases "NewWriteStream buf :: unit write_stream res")
  case (Inr s)
  show ?thesis
    unfolding write_object_def write_message_def Inr
    by (simp add: serialize_flat flat_def calls_def after_def write_fields andThen_assoc WriteStream_SerializeEnd_def)
qed (simp add: write_object_def write_message_def)

lemma measure_object_flat: "measure_object p m = measure_message (calls p m)"
  by (simp add: measure_object_def measure_message_def serialize_flat flat_def calls_def measure_fields andThen_assoc
      MeasureStream_SerializeEnd_def case_prod_unfold)

text \<open>
  C2. One serialize function for all three streams. Take any function whose control flow (branches, counts,
  declarations that depend on earlier values, nested objects) is settled by what it has serialized before,
  a value that conforms in every call and meets its demands, and a buffer of the size the function measures. Then it writes
  without a panic; and run on a reader of that packet, whatever its destinations held and whatever lies past the packet, it
  finds the end where it is and delivers every variable that the writer serialized, in the branches it took and
  in every turn of its loops: the exact ones as they were written, a compressed float as its quantum decodes. Every other
  variable holds what it held.
\<close>

theorem serialize_function_round_trip:
  assumes "settled X {} p E" and exact: "\<forall>x \<in> X. exact (mw x)" and ok: "\<forall>f \<in> set (calls p mw). typed f \<and> ok_field f"
    and demands: "demands p mw" and "measure_object p mw = Inr n" and "length buf mod 8 = 0" and "n \<le> 8 * length buf"
    and shapes: "\<forall>x. shape (mr x) = shape (mw x)"
  shows "\<exists>packet mw'. write_object p mw buf = Inr (packet, mw') \<and> 8 * length packet < n + 8
    \<and> (\<forall>slack. \<exists>mr'. read_object p mr packet slack = Inr (mr', None)
        \<and> (\<forall>x. mr' x = (if x \<notin> serialized p mw then mr x else if x \<in> X then mw' x else recovered (mw' x))))"
proof -
  let ?fs = "calls p mw" and ?w = "wire_fields (calls p mw) 0"
  have n: "length ?w \<le> n"
    using assms(5) measure_message_ok [OF ok] sum_measured_bounds(1) [of ?fs 0] by (simp add: measure_object_flat)
  have written: "write_object p mw buf = Inr (message_bytes ?fs, after p mw)"
    using write_message_ok [OF assms(6), of ?fs] ok assms(7) n by (simp add: write_object_flat)
  have len: "8 * length (message_bytes ?fs) = length ?w + align_len (length ?w)"
    using arg_cong [OF message_bytes_bits [of ?fs], of length] by (simp add: wire_align_def)
  have "\<exists>mr'. read_object p mr (message_bytes ?fs) slack = Inr (mr', None)
      \<and> (\<forall>x. mr' x = (if x \<notin> serialized p mw then mr x else if x \<in> X then after p mw x else recovered (after p mw x)))" for slack
  proof -
    define s :: "unit read_stream" where "s = NewReadStream (message_bytes ?fs) slack"
    have rest: "rs_rest s = ?w @ wire_align (length ?w)" "rs_pos s = 0" and s: "br_inv (rs_reader s)" "rs_err s = None"
      by (simp_all add: s_def message_bytes_bits)
    have "agree X {} {} mr mw mr" using exact shapes by (simp add: agree_def)
    from reads_backD [OF settled_reads_back [OF assms(1) ok demands] this s, of "wire_align (length ?w)"] rest
    obtain mr' where run: "serialize p (Reading s) mr = Inr (Reading (advance (length ?w) s), mr')"
      and a: "agree X E (serialized p mw) mr (after p mw) mr'" by auto
    obtain s2 where "ReadStream_SerializeEnd (advance (length ?w) s) = Inr (s2, None)" "rs_err s2 = None"
      by (rule written_end [of "advance (length ?w) s" ?fs]) (use rest s br_inv_advance_stream [OF s(1), of "length ?w"] in simp_all)
    then have "read_object p mr (message_bytes ?fs) slack = Inr (mr', None)"
      using run by (simp add: read_object_def s_def ReadStream_Err_def)
    then show ?thesis using a by (auto simp: agree_def exact_simps)
  qed
  moreover have "8 * length (message_bytes ?fs) < n + 8" using len n align_len_le7 [of "length ?w"] by linarith
  ultimately show ?thesis using written by blast
qed

section \<open>Hostile packets\<close>

text \<open>Declarations that keep to the values of Go's types.\<close>

primrec go_serializer :: "'x serializer \<Rightarrow> bool" where
  "go_serializer Nothing \<longleftrightarrow> True"
| "go_serializer (Call x xs d) \<longleftrightarrow> (\<forall>vs f. typed f \<longrightarrow> typed (d vs f))"
| "go_serializer (Both p q) \<longleftrightarrow> go_serializer p \<and> go_serializer q"
| "go_serializer (Branch xs c p q) \<longleftrightarrow> go_serializer p \<and> go_serializer q"
| "go_serializer (Repeat xs n body) \<longleftrightarrow> (\<forall>i. go_serializer (body i))"
| "go_serializer (Demand xs c reason) \<longleftrightarrow> True"
| "go_serializer (Nested p) \<longleftrightarrow> go_serializer p"

text \<open>\<open>survives\<close>: a run on a reader returns, with the reader further on in its packet or stopped by an error.\<close>

definition survives :: "('c stream \<Rightarrow> 'x memory \<Rightarrow> ('c stream \<times> 'x memory) res) \<Rightarrow> bool" where
  "survives run \<longleftrightarrow> (\<forall>s m. br_inv (rs_reader s) \<and> (\<forall>x. typed (m x)) \<longrightarrow>
     (\<exists>s' m'. run (Reading s) m = Inr (Reading s', m') \<and> (\<forall>x. typed (m' x)) \<and> evolves (Reading s) (Reading s')))"

lemma survives_both:
  assumes "survives run" and "survives run'"
  shows "survives (\<lambda>st m. andThen (run st m) (\<lambda>(st, m). run' st m))"
proof -
  have "\<exists>s' m'. andThen (run (Reading s) m) (\<lambda>(st, m). run' st m) = Inr (Reading s', m') \<and> (\<forall>x. typed (m' x))
      \<and> evolves (Reading s) (Reading s')" if inv: "br_inv (rs_reader s)" and typed: "\<forall>x. typed (m x)" for s m
  proof -
    obtain s1 m1 where 1: "run (Reading s) m = Inr (Reading s1, m1)" "\<forall>x. typed (m1 x)" "evolves (Reading s) (Reading s1)"
      using assms(1) inv typed unfolding survives_def by blast
    have "br_inv (rs_reader s1)" by (rule evolves_reader(1) [OF inv 1(3)])
    then obtain s2 m2 where 2: "run' (Reading s1) m1 = Inr (Reading s2, m2)" "\<forall>x. typed (m2 x)" "evolves (Reading s1) (Reading s2)"
      using assms(2) 1(2) unfolding survives_def by blast
    show ?thesis using 1(1) 2(1,2) evolves_trans [OF 1(3) 2(3)] by (auto simp del: evolves.simps)
  qed
  then show ?thesis unfolding survives_def by blast
qed

lemma survives_nested:
  assumes "survives (run :: 'c stream \<Rightarrow> 'x memory \<Rightarrow> _)"
  shows "survives (\<lambda>st m. andThen (Stream_SerializeObject st (\<lambda>st m. andThen (run st m) (\<lambda>(st, m). Inr (st, m, Stream_Err st))) m)
       (\<lambda>(st, m, _). Inr (st, m)))"
  unfolding survives_def
proof (intro allI impI)
  fix s :: "'c read_stream" and m :: "'x memory"
  assume s: "br_inv (rs_reader s) \<and> (\<forall>x. typed (m x))"
  then obtain s' m' where "run (Reading s) m = Inr (Reading s', m')" "\<forall>x. typed (m' x)" "evolves (Reading s) (Reading s')"
    using assms unfolding survives_def by blast
  then show "\<exists>s' m'. andThen (Stream_SerializeObject (Reading s) (\<lambda>st m. andThen (run st m) (\<lambda>(st, m). Inr (st, m, Stream_Err st))) m)
       (\<lambda>(st, m, _). Inr (st, m)) = Inr (Reading s', m') \<and> (\<forall>x. typed (m' x)) \<and> evolves (Reading s) (Reading s')"
    using s evolves_refl [of "Reading s"]
    by (cases "rs_err s"; cases "rs_err s'")
      (simp_all add: ReadStream_SerializeObject_def on_reader_def ReadStream_Err_def del: evolves.simps)
qed

lemma serialize_survives: "go_serializer (p :: 'x serializer) \<Longrightarrow> survives (serialize p :: 'c stream \<Rightarrow> _)"
proof (induction p)
  case Nothing
  then show ?case using evolves_refl by (auto simp: survives_def simp del: evolves.simps)
next
  case (Call x xs d)
  show ?case
    unfolding survives_def
  proof (intro allI impI)
    fix s :: "'c read_stream" and m :: "'x memory"
    assume s: "br_inv (rs_reader s) \<and> (\<forall>x. typed (m x))"
    then have t: "typed (d (map m xs) (m x))" using Call by simp
    obtain s' f' err where r: "read_field s (d (map m xs) (m x)) = Inr (s', f', err)" "typed f'"
      using read_field_total [OF t] s by blast
    then have "evolves (Reading s) (Reading s')" using field_evolves [OF t, of "Reading s"] by simp
    then show "\<exists>s' m'. serialize (Call x xs d) (Reading s) m = Inr (Reading s', m') \<and> (\<forall>x. typed (m' x)) \<and> evolves (Reading s) (Reading s')"
      using r s by (auto simp del: evolves.simps)
  qed
next
  case (Both p q)
  then show ?case unfolding serialize_eqs by (intro survives_both) simp_all
next
  case (Branch xs c p q)
  then show ?case by (auto simp: survives_def simp del: evolves.simps)
next
  case (Repeat xs n body)
  have "survives (\<lambda>st :: 'c stream. \<lambda>m. foldM (\<lambda>(st, m) i. serialize (body i) st m) (st, m) js)" for js
  proof (induction js)
    case Nil
    then show ?case using evolves_refl by (auto simp: survives_def simp del: evolves.simps)
  next
    case (Cons i js)
    have "survives (serialize (body i) :: 'c stream \<Rightarrow> _)" using Repeat by simp
    from survives_both [OF this Cons.IH] show ?case by (simp add: case_prod_unfold)
  qed
  then show ?case unfolding survives_def by simp
next
  case (Demand xs c reason)
  show ?case
    unfolding survives_def
  proof (intro allI impI)
    fix s :: "'c read_stream" and m :: "'x memory"
    assume s: "br_inv (rs_reader s) \<and> (\<forall>x. typed (m x))"
    obtain s' err where f: "Fail (Reading s) reason = (Reading s', err)" by (cases "ReadStream_Fail s reason") simp
    then have "evolves (Reading s) (Reading s')" by (rule fail_evolves)
    then show "\<exists>s' m'. serialize (Demand xs c reason) (Reading s) m = Inr (Reading s', m') \<and> (\<forall>x. typed (m' x)) \<and> evolves (Reading s) (Reading s')"
      using s f evolves_refl [of "Reading s"] by (simp del: evolves.simps Fail.simps)
  qed
next
  case (Nested p)
  then show ?case unfolding serialize_eqs by (intro survives_nested) simp
qed

lemma SerializeEnd_returns:
  assumes "br_inv (rs_reader s)"
  shows "\<exists>s' err. ReadStream_SerializeEnd s = Inr (s', err)"
proof (cases "rs_err s")
  case None
  then have "follows s () (no_value ReadStream_SerializeEnd s ()) (dec_end (rs_pos s) (rs_rest s))"
    using reads0D [OF readsD(2) [OF SerializeEnd_reads [where pre = "\<lambda>_ _. True"]] assms] by blast
  then show ?thesis by (cases "ReadStream_SerializeEnd s") (auto simp: follows_def no_value_def split: sum.splits)
qed (simp add: ReadStream_SerializeEnd_def)

text \<open>
  C5. Any packet, any function. Run on any bytes, a serialize function over Go's values returns, however its
  control flow depends on what it reads: it does not panic, its destinations keep to their types, the reader is inside the packet, and
  what \<open>SerializeEnd\<close> then leaves is no error or one with a name in the closed list.
\<close>

theorem serialize_function_total:
  assumes "go_serializer p" and "\<forall>x. typed (m x)"
  shows "\<exists>m' err. read_object p m packet slack = Inr (m', err) \<and> (\<forall>x. typed (m' x))
    \<and> (case err of None \<Rightarrow> True | Some e \<Rightarrow> RefusalName (Some e) \<in> set (tl refusalNames))"
proof -
  define s :: "unit read_stream" where "s = NewReadStream packet slack"
  have inv: "br_inv (rs_reader s)" "rs_err s = None" by (simp_all add: s_def)
  obtain s1 m1 where run: "serialize p (Reading s) m = Inr (Reading s1, m1)" "\<forall>x. typed (m1 x)" "evolves (Reading s) (Reading s1)"
    using serialize_survives [OF assms(1)] inv(1) assms(2) unfolding survives_def by blast
  have i1: "br_inv (rs_reader s1)" by (rule evolves_reader(1) [OF inv(1) run(3)])
  obtain s2 err where e: "ReadStream_SerializeEnd s1 = Inr (s2, err)" using SerializeEnd_returns [OF i1] by blast
  then have "Stream_SerializeEnd (Reading s1) = Inr (Reading s2, err)" by simp
  from evolves_trans [OF run(3) end_evolves [OF this]] have "evolves (Reading s) (Reading s2)" .
  then have "latchable e" if "rs_err s2 = Some e" for e using that inv by simp
  then show ?thesis
    using run(1,2) e RefusalName_latchable
    by (auto simp: read_object_def s_def [symmetric] ReadStream_Err_def split: option.splits simp del: evolves.simps)
qed

section \<open>Witnesses\<close>

text \<open>
  A function with each kind of control flow: a flag that guards a nested object, a counted list, a value
  the reader refuses, and one declared relative to it.
\<close>

definition keep :: "field list \<Rightarrow> field \<Rightarrow> field" where
  "keep vs f = f"

fun rebase :: "i32 \<Rightarrow> field \<Rightarrow> field" where
  "rebase previous (FIntRelative _ current) = FIntRelative previous current"
| "rebase previous f = f"

definition relative_to :: "field list \<Rightarrow> field \<Rightarrow> field" where
  "relative_to vs f = (case vs of [FUint8 v] \<Rightarrow> rebase (ucast v) f | _ \<Rightarrow> f)"

definition counted :: "field list \<Rightarrow> nat" where
  "counted vs = (case vs of [FInt v _ _] \<Rightarrow> unat v | _ \<Rightarrow> 0)"

definition sample_function :: "nat serializer" where
  "sample_function =
    Both (Call 0 [] keep) (Both (Branch [0] (\<lambda>vs. bool_value (hd vs)) (Nested (Call 1 [] keep)) Nothing)
    (Both (Call 2 [] keep) (Both (Repeat [2] counted (\<lambda>i. Call (10 + i) [] keep))
    (Both (Call 3 [] keep) (Both (Demand [3] (\<lambda>vs. vs \<noteq> [FUint8 0]) ErrRejected) (Call 4 [3] relative_to))))))"

definition sample_memory :: "nat memory" where
  "sample_memory = (\<lambda>_. FUint8 0)(0 := FBool True, 1 := FInt 5 (- 8) 8, 2 := FInt 2 0 3, 10 := FUint8 7, 11 := FUint8 9,
     3 := FUint8 100, 4 := FIntRelative 0 105)"

definition blank_memory :: "nat memory" where
  "blank_memory = (\<lambda>_. FUint8 0)(0 := FBool False, 1 := FInt 0 (- 8) 8, 2 := FInt 0 0 3, 4 := FIntRelative 0 0)"

lemma rebase_simps:
  "shape f = shape g \<Longrightarrow> shape (rebase p f) = shape (rebase p g)" "exact f \<Longrightarrow> exact (rebase p f)" "typed f \<Longrightarrow> typed (rebase p f)"
proof -
  show "shape f = shape g \<Longrightarrow> shape (rebase p f) = shape (rebase p g)" by (cases g) (auto simp: shape_iff)
  show "exact f \<Longrightarrow> exact (rebase p f)" "typed f \<Longrightarrow> typed (rebase p f)" by (cases f; simp)+
qed

lemma relative_cases: "(\<forall>f. relative_to vs f = f) \<or> (\<exists>p. \<forall>f. relative_to vs f = rebase p f)"
proof (cases "\<exists>v. vs = [FUint8 v]")
  case True
  then obtain v where "vs = [FUint8 v]" by blast
  then have "\<forall>f. relative_to vs f = rebase (ucast v) f" by (simp add: relative_to_def)
  then show ?thesis by blast
next
  case False
  then have "\<forall>f. relative_to vs f = f" by (simp add: relative_to_def split: list.split field.split)
  then show ?thesis by blast
qed

lemma declares_sample: "declares keep" "declares relative_to"
proof -
  show "declares keep" by (simp add: declares_def keep_def)
  show "declares relative_to"
    unfolding declares_def
  proof (intro allI impI)
    show "shape (relative_to vs f) = shape (relative_to vs g)" if "shape f = shape g" for vs f g
      using relative_cases [of vs] that rebase_simps(1) by metis
  qed
qed

lemma exact_sample: "exact f \<Longrightarrow> exact (keep vs f)" "exact f \<Longrightarrow> exact (relative_to vs f)"
  using relative_cases [of vs] rebase_simps(2) [of f] by (auto simp: keep_def)

lemma typed_sample: "typed f \<Longrightarrow> typed (keep vs f)" "typed f \<Longrightarrow> typed (relative_to vs f)"
  using relative_cases [of vs] rebase_simps(3) [of f] by (auto simp: keep_def)

lemma settled_sample: "settled UNIV {} sample_function {0, 2, 3, 4}"
proof -
  have call: "settled UNIV E (Call x [] keep) (insert x E)" for E and x :: nat
    by (rule settled_exact) (simp_all add: declares_sample exact_sample)
  have relative: "settled UNIV E (Call 4 [3] relative_to) (insert 4 E)" if "3 \<in> E" for E :: "nat set"
    by (rule settled_exact) (use that in \<open>simp_all add: declares_sample exact_sample\<close>)
  have "settled UNIV {0} (Branch [0] (\<lambda>vs. bool_value (hd vs)) (Nested (Call 1 [] keep)) Nothing) ({1, 0} \<inter> {0 :: nat})"
    by (rule settled_Branch [OF _ settled_Nested [OF call] settled_Nothing]) simp
  then have branch: "settled UNIV {0} (Branch [0] (\<lambda>vs. bool_value (hd vs)) (Nested (Call 1 [] keep)) Nothing) {0 :: nat}" by simp
  have repeat: "settled UNIV {2, 0} (Repeat [2] counted (\<lambda>i. Call (10 + i) [] keep)) {2, 0 :: nat}"
    by (rule settled_Repeat [where B = "\<lambda>i. insert (10 + i) {2, 0}"]) (auto intro: call)
  have "settled UNIV {} sample_function (insert 4 (insert 3 {2, 0}))"
    unfolding sample_function_def
    by (rule settled_Both [OF call settled_Both [OF branch settled_Both [OF call settled_Both [OF repeat
      settled_Both [OF call settled_Both [OF settled_Demand relative]]]]]]) simp_all
  then show ?thesis by (simp add: insert_commute)
qed

lemma sample_calls:
  "calls sample_function sample_memory =
    [FBool True, FInt 5 (- 8) 8, FInt 2 0 3, FUint8 7, FUint8 9, FUint8 100, FIntRelative 100 105]"
  by (simp add: sample_function_def sample_memory_def calls_simps calls_Repeat repeated_simps keep_def relative_to_def counted_def upt_rec
      del: repeated.simps(2))

lemma sample_demands: "demands sample_function sample_memory"
  by (simp add: sample_function_def sample_memory_def calls_simps calls_Repeat repeated_simps keep_def relative_to_def counted_def upt_rec
      del: repeated.simps(2))

lemma sample_serialized: "serialized sample_function sample_memory = {0, 1, 2, 3, 4, 10, 11}"
  by (auto simp: sample_function_def sample_memory_def calls_simps calls_Repeat repeated_simps keep_def relative_to_def counted_def upt_rec
      simp del: repeated.simps(2))

lemma sample_calls_ok: "\<forall>f \<in> set (calls sample_function sample_memory). typed f \<and> ok_field f"
  unfolding sample_calls by (simp add: ok_eval)

theorem serialize_function_round_trip_witness:
  "\<exists>packet mw'. write_object sample_function sample_memory (replicate 16 0) = Inr (packet, mw')
    \<and> (\<exists>mr'. read_object sample_function blank_memory packet [] = Inr (mr', None)
        \<and> (\<forall>x \<in> {0, 1, 2, 3, 4, 10, 11}. mr' x = mw' x) \<and> mr' 5 = blank_memory 5)"
proof -
  obtain n where n: "measure_object sample_function sample_memory = Inr n" "n \<le> 8 * length (replicate 16 (0 :: u8))"
    using measure_message_ok [OF sample_calls_ok] by (simp add: measure_object_flat sample_calls field_eval)
  have "\<forall>x \<in> UNIV. exact (sample_memory x)" and shapes: "\<forall>x. shape (blank_memory x) = shape (sample_memory x)"
    by (simp_all add: sample_memory_def blank_memory_def)
  moreover have "length (replicate 16 (0 :: u8)) mod 8 = 0" by simp
  ultimately have "\<exists>packet mw'. write_object sample_function sample_memory (replicate 16 0) = Inr (packet, mw')
      \<and> 8 * length packet < n + 8 \<and> (\<forall>slack. \<exists>mr'. read_object sample_function blank_memory packet slack = Inr (mr', None)
        \<and> (\<forall>x. mr' x = (if x \<notin> serialized sample_function sample_memory then blank_memory x else if x \<in> UNIV then mw' x else recovered (mw' x))))"
    by (intro serialize_function_round_trip [OF settled_sample _ sample_calls_ok sample_demands n(1) _ n(2) shapes])
  then obtain packet mw' where packet: "write_object sample_function sample_memory (replicate 16 0) = Inr (packet, mw')"
    "\<forall>slack. \<exists>mr'. read_object sample_function blank_memory packet slack = Inr (mr', None)
      \<and> (\<forall>x. mr' x = (if x \<notin> serialized sample_function sample_memory then blank_memory x else mw' x))"
    unfolding if_P [OF UNIV_I] by blast
  then obtain mr' where "read_object sample_function blank_memory packet [] = Inr (mr', None)"
    "\<forall>x. mr' x = (if x \<notin> serialized sample_function sample_memory then blank_memory x else mw' x)" by blast
  then show ?thesis using packet(1) unfolding sample_serialized by simp
qed

theorem serialize_function_total_witness:
  "\<exists>m' err. read_object sample_function blank_memory [255, 254, 253] [] = Inr (m', err)"
proof -
  have "go_serializer sample_function"
    by (simp add: sample_function_def typed_sample)
  moreover have "\<forall>x. typed (blank_memory x)" by (simp add: blank_memory_def)
  ultimately show ?thesis using serialize_function_total [of sample_function blank_memory] by blast
qed

end
