(* ===== verification/Sentinel.thy ===== *)
theory Sentinel
  imports Truncation Stream_Steps
begin

text \<open>
  Loops driven by a sentinel, as the documentation of \<open>Continue\<close> and \<open>Until\<close> (stream.go) writes them. A loop
  that need not end is a partial function: \<open>None\<close> is a run that never returns. The
  body is the caller's; the locale \<open>loop_body\<close> states what it must keep on a read stream, and the loops are
  proved to return under it.
\<close>

section \<open>The loops\<close>

type_synonym ('c, 's) body = "'c stream \<Rightarrow> 's \<Rightarrow> bool \<Rightarrow> ('c stream \<times> 's \<times> bool) res"

text \<open>\<open>for serialize.Continue(stream, &hasNext) { body }\<close>, and its inverse.\<close>

partial_function (option) continue_loop ::
  "('c, 's) body \<Rightarrow> 'c stream \<Rightarrow> 's \<Rightarrow> bool \<Rightarrow> ('c stream \<times> 's \<times> bool) res option" where
  "continue_loop body st x has_next =
    (case Continue st has_next of
       Inl p \<Rightarrow> Some (Inl p)
     | Inr (st, has_next, proceed) \<Rightarrow>
         if \<not> proceed then Some (Inr (st, x, has_next))
         else (case body st x has_next of
             Inl p \<Rightarrow> Some (Inl p)
           | Inr (st, x, has_next) \<Rightarrow> continue_loop body st x has_next))"

partial_function (option) until_loop ::
  "('c, 's) body \<Rightarrow> 'c stream \<Rightarrow> 's \<Rightarrow> bool \<Rightarrow> ('c stream \<times> 's \<times> bool) res option" where
  "until_loop body st x finished =
    (case Until st finished of
       Inl p \<Rightarrow> Some (Inl p)
     | Inr (st, finished, proceed) \<Rightarrow>
         if \<not> proceed then Some (Inr (st, x, finished))
         else (case body st x finished of
             Inl p \<Rightarrow> Some (Inl p)
           | Inr (st, x, finished) \<Rightarrow> until_loop body st x finished))"

text \<open>The loop the documentation warns of: \<open>for hasNext { stream.SerializeBool(&hasNext); body }\<close>.\<close>

partial_function (option) naive_loop ::
  "('c, 's) body \<Rightarrow> 'c stream \<Rightarrow> 's \<Rightarrow> bool \<Rightarrow> ('c stream \<times> 's \<times> bool) res option" where
  "naive_loop body st x has_next =
    (if \<not> has_next then Some (Inr (st, x, has_next))
     else (case serialize_field st (FBool has_next) of
         Inl p \<Rightarrow> Some (Inl p)
       | Inr (st, f, _) \<Rightarrow> (case body st x (bool_value f) of
             Inl p \<Rightarrow> Some (Inl p)
           | Inr (st, x, has_next) \<Rightarrow> naive_loop body st x has_next)))"

section \<open>They return on a read stream\<close>

text \<open>
  A sentinel read from a stream: either the loop stops there, or one bit has been read and it goes on.
\<close>

definition sentinel_reads :: "('c stream \<Rightarrow> bool \<Rightarrow> ('c stream \<times> bool \<times> bool) res) \<Rightarrow> bool" where
  "sentinel_reads sentinel \<longleftrightarrow> (\<forall>s b. br_inv (rs_reader s) \<longrightarrow>
     (\<exists>s' b' proceed. sentinel (Reading s) b = Inr (Reading s', b', proceed) \<and> evolves (Reading s) (Reading s')
        \<and> (proceed \<longrightarrow> length (rs_rest s') < length (rs_rest s))))"

lemma bool_reads:
  assumes inv: "br_inv (rs_reader s)"
  obtains s' f err where "serialize_field (Reading s) (FBool b) = Inr (Reading s', f, err)" "evolves (Reading s) (Reading s')"
    "err = None \<longrightarrow> length (rs_rest s') < length (rs_rest s)"
proof -
    have "\<exists>s' f err. read_field s (FBool b) = Inr (s', f, err) \<and> (err = None \<longrightarrow> length (rs_rest s') < length (rs_rest s))"
    proof (cases "rs_err s")
      case (Some e)
      then show ?thesis using read_field_terminal [of s "FBool b"] by simp
    next
      case None
      have F: "follows s (FBool b) (read_field s (FBool b)) (dec_of (FBool b) (rs_pos s) (rs_rest s))"
        by (rule read_field_follows) (simp_all add: inv None)
      show ?thesis
      proof (cases "dec_of (FBool b) (rs_pos s) (rs_rest s)")
        case (Inl r)
        then show ?thesis using F by (auto simp: follows_def)
      next
        case (Inr xn)
        then have "snd xn = 1" by (auto simp: dec_of_exact dec_map_def dec_bool_def dec_field_def split: if_splits)
        then show ?thesis using F Inr by (cases xn) (auto simp: follows_def)
      qed
    qed
    then obtain s' f err where r: "read_field s (FBool b) = Inr (s', f, err)" "err = None \<longrightarrow> length (rs_rest s') < length (rs_rest s)" by blast
    then have run: "serialize_field (Reading s) (FBool b) = Inr (Reading s', f, err)" by (simp del: read_field.simps)
    from field_evolves [OF _ run] r(2) run that show thesis by simp
qed

lemma Continue_reads: "sentinel_reads (Continue :: 'c stream \<Rightarrow> _)"
  unfolding sentinel_reads_def
proof (intro allI impI)
  fix s :: "'c read_stream" and b
  assume "br_inv (rs_reader s)"
  then obtain s' f err where "serialize_field (Reading s) (FBool b) = Inr (Reading s', f, err)" "evolves (Reading s) (Reading s')"
    "err = None \<longrightarrow> length (rs_rest s') < length (rs_rest s)" by (rule bool_reads)
  then show "\<exists>s' b' proceed. Continue (Reading s) b = Inr (Reading s', b', proceed) \<and> evolves (Reading s) (Reading s')
      \<and> (proceed \<longrightarrow> length (rs_rest s') < length (rs_rest s))"
    by (cases err) (auto simp: Continue_def Let_def simp del: serialize_field.simps evolves.simps)
qed

lemma Until_reads: "sentinel_reads (Until :: 'c stream \<Rightarrow> _)"
  unfolding sentinel_reads_def
proof (intro allI impI)
  fix s :: "'c read_stream" and b
  assume "br_inv (rs_reader s)"
  then obtain s' f err where "serialize_field (Reading s) (FBool b) = Inr (Reading s', f, err)" "evolves (Reading s) (Reading s')"
    "err = None \<longrightarrow> length (rs_rest s') < length (rs_rest s)" by (rule bool_reads)
  then show "\<exists>s' b' proceed. Until (Reading s) b = Inr (Reading s', b', proceed) \<and> evolves (Reading s) (Reading s')
      \<and> (proceed \<longrightarrow> length (rs_rest s') < length (rs_rest s))"
    by (cases err) (auto simp: Until_def Let_def simp del: serialize_field.simps evolves.simps)
qed

text \<open>
  What a loop body promises on a read stream: it returns, through calls on the stream, and it makes at
  most one more element of what the loop collects.
\<close>

locale loop_body =
  fixes body :: "('c, 's) body" and elements :: "'s \<Rightarrow> nat"
  assumes body_returns: "br_inv (rs_reader s) \<Longrightarrow>
    \<exists>s' x' b'. body (Reading s) x b = Inr (Reading s', x', b') \<and> evolves (Reading s) (Reading s') \<and> elements x' \<le> Suc (elements x)"
begin

lemma returns:
  assumes loop: "\<And>st x b. loop st x b =
      (case sentinel st b of
         Inl p \<Rightarrow> Some (Inl p)
       | Inr (st, b, proceed) \<Rightarrow>
           if \<not> proceed then Some (Inr (st, x, b))
           else (case body st x b of Inl p \<Rightarrow> Some (Inl p) | Inr (st, x, b) \<Rightarrow> loop st x b))"
    and sentinel: "sentinel_reads sentinel" and inv: "br_inv (rs_reader s)"
  shows "\<exists>s' x' b'. loop (Reading s) x b = Some (Inr (Reading s', x', b')) \<and> evolves (Reading s) (Reading s')
    \<and> elements x' \<le> elements x + length (rs_rest s)"
  using inv
proof (induction "length (rs_rest s)" arbitrary: s x b rule: less_induct)
  case less
  obtain s1 b1 proceed where S: "sentinel (Reading s) b = Inr (Reading s1, b1, proceed)" "evolves (Reading s) (Reading s1)"
    "proceed \<longrightarrow> length (rs_rest s1) < length (rs_rest s)" using sentinel less.prems unfolding sentinel_reads_def by meson
  show ?case
  proof (cases proceed)
    case False
    then show ?thesis using S by (subst loop) (simp del: evolves.simps)
  next
    case True
    have inv1: "br_inv (rs_reader s1)" by (rule evolves_reader(1) [OF less.prems S(2)])
    obtain s2 x2 b2 where B: "body (Reading s1) x b1 = Inr (Reading s2, x2, b2)" "evolves (Reading s1) (Reading s2)" "elements x2 \<le> Suc (elements x)"
      using body_returns [OF inv1] by blast
    have inv2: "br_inv (rs_reader s2)" by (rule evolves_reader(1) [OF inv1 B(2)])
    have "length (rs_rest s2) \<le> length (rs_rest s1)"
      using evolves_reader [OF inv1 B(2)] rs_rest_length [OF inv1] rs_rest_length [OF inv2] br_invD [OF inv1] br_invD [OF inv2] by simp
    then have shorter: "length (rs_rest s2) < length (rs_rest s)" using S(3) True by simp
    obtain s' x' b' where IH: "loop (Reading s2) x2 b2 = Some (Inr (Reading s', x', b'))" "evolves (Reading s2) (Reading s')"
      "elements x' \<le> elements x2 + length (rs_rest s2)" using less.hyps [OF shorter inv2] by blast
    have "loop (Reading s) x b = Some (Inr (Reading s', x', b'))" using S(1) True B(1) IH(1) by (subst loop) simp
    moreover have "evolves (Reading s) (Reading s')" using evolves_trans S(2) B(2) IH(2) by blast
    ultimately show ?thesis using IH(3) B(3) shorter by (intro exI conjI) (assumption | linarith)+
  qed
qed

lemmas continue_returns = returns [OF continue_loop.simps Continue_reads]

lemmas until_returns = returns [OF until_loop.simps Until_reads]

end

section \<open>A list behind sentinels\<close>

text \<open>
  The loops of the documentation over a list: an element is a list of fields, declared as \<open>ds\<close>; the
  loop state is the elements serialized so far and those still to be written. A writer sets the
  sentinel after each element.
\<close>

definition list_body :: "field list \<Rightarrow> ('c, field list list \<times> field list list) body" where
  "list_body ds st x has_next =
    (let (elements, todo) = x; vs = (if Stream_IsReading st then ds else case todo of [] \<Rightarrow> ds | v # _ \<Rightarrow> v)
     in andThen (serialize_fields st vs) (\<lambda>(st, fs).
          Inr (st, (elements @ [fs], tl todo), if Stream_IsReading st then has_next else tl todo \<noteq> [])))"

definition serialize_list :: "field list \<Rightarrow> 'c stream \<Rightarrow> field list list \<Rightarrow> ('c stream \<times> field list list) res option" where
  "serialize_list ds st elements =
    (case continue_loop (list_body ds) st ([], elements) (elements \<noteq> []) of
       None \<Rightarrow> None | Some (Inl p) \<Rightarrow> Some (Inl p) | Some (Inr (st, (elements, _), _)) \<Rightarrow> Some (Inr (st, elements)))"

lemma read_fields_evolves:
  "\<forall>d \<in> set ds. typed d \<Longrightarrow> br_inv (rs_reader s) \<Longrightarrow>
   \<exists>s' fs. serialize_fields (Reading s) ds = Inr (Reading s', fs) \<and> evolves (Reading s) (Reading s')"
proof (induction ds arbitrary: s)
  case Nil
  then show ?case using evolves_refl [of "Reading s"] by (simp del: evolves.simps)
next
  case (Cons d ds)
  have "stream_ok (Reading s)" using Cons.prems(2) by simp
  obtain s1 f err where r: "read_field s d = Inr (s1, f, err)"
    using read_field_terminal [of s d] read_field_follows [of d s] Cons.prems
    by (cases "rs_err s") (auto simp: follows_def split: sum.splits)
  then have run: "serialize_field (Reading s) d = Inr (Reading s1, f, err)" by (simp del: read_field.simps)
  have E: "evolves (Reading s) (Reading s1)" by (rule field_evolves [OF _ run]) (use Cons.prems(1) in simp)
  obtain s' fs where "serialize_fields (Reading s1) ds = Inr (Reading s', fs)" "evolves (Reading s1) (Reading s')"
    using Cons.IH [of s1] Cons.prems(1) evolves_reader(1) [OF Cons.prems(2) E] by auto
  then show ?case using run evolves_trans [OF E] by (simp del: serialize_field.simps evolves.simps)
qed

text \<open>The fields declared by a Go program are typed; the others are dropped to state the law for any list.\<close>

interpretation list_loop: loop_body "list_body (filter typed ds)" "\<lambda>x. length (fst x)" for ds
proof unfold_locales
  fix s :: "'c read_stream" and x b
  assume "br_inv (rs_reader s)"
  then obtain s' fs where "serialize_fields (Reading s) (filter typed ds) = Inr (Reading s', fs)" "evolves (Reading s) (Reading s')"
    using read_fields_evolves [of "filter typed ds" s] by auto
  then show "\<exists>s' x' b'. list_body (filter typed ds) (Reading s) x b = Inr (Reading s', x', b')
      \<and> evolves (Reading s) (Reading s') \<and> length (fst x') \<le> Suc (length (fst x))"
    by (cases x) (simp add: list_body_def ReadStream_IsReading_def Let_def del: evolves.simps)
qed

text \<open>On a stream that has refused, the loop warned of goes round for ever.\<close>

lemma list_body_terminal:
  assumes "rs_err s \<noteq> None" and "\<forall>d \<in> set ds. typed d"
  shows "list_body ds (Reading s) x b = Inr (Reading s, (fst x @ [ds], tl (snd x)), b)"
  using terminal_fields [OF assms] by (simp add: list_body_def Let_def ReadStream_IsReading_def split: prod.split)

lemma naive_loop_spins:
  assumes "rs_err s \<noteq> None" and typed: "\<forall>d \<in> set ds. typed d"
  shows "naive_loop (list_body ds) (Reading s) x True = None"
proof -
  let ?P = "\<lambda>body st x b (y :: ('a stream \<times> _ \<times> bool) res). \<not> (body = list_body ds \<and> (\<exists>s. st = Reading s \<and> rs_err s \<noteq> None) \<and> b)"
  have "naive_loop body st x b = Some y \<Longrightarrow> ?P body st x b y" for body st x b y
  proof (rule naive_loop.raw_induct [where P = ?P and xa = "(((body, st), x), b)" and y = y, simplified prod.case])
    fix loop body st x b y
    assume IH: "\<And>body st x b y. loop body st x b = Some y \<Longrightarrow> ?P body st x b y"
      and run: "(if \<not> b then Some (Inr (st, x, b))
       else (case serialize_field st (FBool b) of
           Inl p \<Rightarrow> Some (Inl p)
         | Inr (st, f, _) \<Rightarrow> (case body st x (bool_value f) of
               Inl p \<Rightarrow> Some (Inl p)
             | Inr (st, x, b) \<Rightarrow> loop body st x b))) = Some y"
    show "?P body st x b y"
    proof
      assume *: "body = list_body ds \<and> (\<exists>s. st = Reading s \<and> rs_err s \<noteq> None) \<and> b"
      then obtain s where s: "st = Reading s" "rs_err s \<noteq> None" by blast
      have "serialize_field (Reading s) (FBool True) = Inr (Reading s, FBool True, rs_err s)"
        using read_field_terminal [OF s(2), of "FBool True"] by (simp del: read_field.simps)
      then have "loop (list_body ds) (Reading s) (fst x @ [ds], tl (snd x)) True = Some y"
        using run * s list_body_terminal [OF s(2) typed] by (simp del: serialize_field.simps)
      from IH [OF this] show False using s by blast
    qed
  qed
  then show ?thesis using assms(1) by (cases "naive_loop (list_body ds) (Reading s) x True") blast+
qed

text \<open>
  C16. Sentinel loops end. On a read stream, whatever the packet, the loops of \<open>Continue\<close> and \<open>Until\<close> over
  elements of any declaration return: they collect at most one element per bit of the packet, and
  leave the stream inside its data. The loop that reads its sentinel with \<open>SerializeBool\<close> instead, and
  looks at no error, never returns once the stream has refused.
\<close>

theorem sentinel_loops_end:
  assumes "\<forall>d \<in> set ds. typed d"
  shows "(\<exists>s x b. continue_loop (list_body ds) (Reading (NewReadStream packet slack)) ([], []) first = Some (Inr (Reading s :: 'c stream, x, b))
      \<and> length (fst x) \<le> 8 * length packet \<and> rs_pos s \<le> 8 * length packet)
    \<and> (\<exists>s x b. until_loop (list_body ds) (Reading (NewReadStream packet slack)) ([], []) first = Some (Inr (Reading s :: 'd stream, x, b))
      \<and> length (fst x) \<le> 8 * length packet \<and> rs_pos s \<le> 8 * length packet)
    \<and> (rs_err s0 \<noteq> None \<longrightarrow> naive_loop (list_body ds) (Reading s0) ([], []) True = None)"
proof -
  have ds: "filter typed ds = ds" using assms by simp
  let ?s = "NewReadStream packet slack"
  have pos: "rs_pos s \<le> 8 * length packet" if "evolves (Reading ?s) (Reading s)" for s :: "'b read_stream"
    using evolves_reader [OF NewReadStream_simps(1) that] br_invD [of "rs_reader s"]
    by (simp add: NewReadStream_def NewBitReader_simps [unfolded NewBitReader_def])
  note inv = NewReadStream_simps(1) [of packet slack]
  obtain s1 :: "'c read_stream" and x1 b1 where c: "continue_loop (list_body ds) (Reading ?s) ([], []) first = Some (Inr (Reading s1, x1, b1))"
    "evolves (Reading ?s) (Reading s1)" "length (fst x1) \<le> 8 * length packet"
    using list_loop.continue_returns [OF inv, of ds "([], [])" first] unfolding ds by (auto simp del: evolves.simps)
  obtain s2 :: "'d read_stream" and x2 b2 where u: "until_loop (list_body ds) (Reading ?s) ([], []) first = Some (Inr (Reading s2, x2, b2))"
    "evolves (Reading ?s) (Reading s2)" "length (fst x2) \<le> 8 * length packet"
    using list_loop.until_returns [OF inv, of ds "([], [])" first] unfolding ds by (auto simp del: evolves.simps)
  show ?thesis using c u pos [OF c(2)] pos [OF u(2)] naive_loop_spins [OF _ assms] by blast
qed

theorem sentinel_loops_end_witness:
  "\<exists>(s :: unit read_stream) x b. continue_loop (list_body [FUint8 0]) (Reading (NewReadStream [255, 255] [])) ([], []) False = Some (Inr (Reading s, x, b))
    \<and> length (fst x) \<le> 16"
  using sentinel_loops_end [of "[FUint8 0]" "[255, 255]" "[]", where 'a = unit] by fastforce

section \<open>A list written is read back\<close>

text \<open>The loop over a list makes the calls of a message: a true bit before every element, a false one after the last.\<close>

fun sentinel_fields :: "field list list \<Rightarrow> field list" where
  "sentinel_fields [] = [FBool False]"
| "sentinel_fields (e # es) = FBool True # e @ sentinel_fields es"

lemma list_body_write:
  "list_body ds (Writing s) (collected, e # es) b =
    andThen (foldM (\<lambda>s f. write_field f s) s e) (\<lambda>s. Inr (Writing s, (collected @ [e], es), es \<noteq> []))"
  by (simp add: list_body_def Let_def write_fields WriteStream_IsReading_def andThen_assoc)

lemma write_list_fields:
  "continue_loop (list_body ds) (Writing s) (collected, es) (es \<noteq> []) =
    (case serialize_fields (Writing s) (sentinel_fields es) of
       Inl p \<Rightarrow> Some (Inl p) | Inr (st, _) \<Rightarrow> Some (Inr (st, (collected @ es, []), False)))"
proof (induction es arbitrary: s collected)
  case Nil
  show ?case
    by (subst continue_loop.simps, cases "write_field (FBool False) s") (simp_all add: Continue_def Let_def del: write_field.simps)
next
  case (Cons e es)
  show ?case
  proof (cases "write_field (FBool True) s")
    case (Inl p)
    then show ?thesis by (subst continue_loop.simps) (simp add: Continue_def del: write_field.simps)
  next
    case (Inr s1)
    then have step: "continue_loop (list_body ds) (Writing s) (collected, e # es) True =
        (case foldM (\<lambda>s f. write_field f s) s1 e of Inl p \<Rightarrow> Some (Inl p)
         | Inr s2 \<Rightarrow> continue_loop (list_body ds) (Writing s2) (collected @ [e], es) (es \<noteq> []))"
      by (subst continue_loop.simps) (simp add: Continue_def list_body_write andThen_def Let_def del: write_field.simps split: sum.split)
    show ?thesis
    proof (cases "foldM (\<lambda>s f. write_field f s) s1 e")
      case (Inl p)
      then show ?thesis using Inr step by (simp add: write_fields serialize_fields_append del: write_field.simps)
    next
      case (Inr s2)
      then show ?thesis using \<open>write_field (FBool True) s = Inr s1\<close> Cons.IH [of s2 "collected @ [e]"] step
        by (cases "foldM (\<lambda>s f. write_field f s) s2 (sentinel_fields es)")
          (simp_all add: write_fields serialize_fields_append del: write_field.simps)
    qed
  qed
qed

text \<open>Reading fields that are there: each is delivered, and the stream stands right after them.\<close>

lemma read_written:
  assumes "br_inv (rs_reader s)" and "rs_err s = None" and "\<forall>f \<in> set fs. typed f \<and> ok_field f" and "map shape ds = map shape fs"
    and "rs_rest s = wire_fields fs (rs_pos s) @ rest"
  shows "serialize_fields (Reading s) ds = Inr (Reading (advance (length (wire_fields fs (rs_pos s))) s), map recovered fs)"
proof -
  have "\<forall>d \<in> set ds. typed d" using typed_shapes [OF assms(4)] assms(3) by blast
  then obtain s' gs where "serialize_fields (Reading s) ds = Inr (Reading s', gs)" "delivers s ds s' gs"
    using read_fields assms(1,2) by blast
  then show ?thesis using dec_fields_written [OF assms(3,4), of "rs_pos s" rest] assms(5) by (simp add: delivers_def)
qed

lemma read_bit:
  assumes "br_inv (rs_reader s)" and "rs_err s = None" and "rs_rest s = v # rest"
  shows "Continue (Reading s) b = Inr (Reading (advance 1 s), v, v)"
proof -
  have "serialize_fields (Reading s) [FBool b] = Inr (Reading (advance 1 s), [FBool v])"
    using read_written [OF assms(1,2), of "[FBool v]" "[FBool b]" rest] assms(3) by (simp add: wire_field_def recovered_def del: serialize_fields.simps)
  moreover obtain s' f err where r: "read_field s (FBool b) = Inr (s', f, err)"
    using read_field_follows [of "FBool b" s] assms(1,2) by (auto simp: follows_def split: sum.splits)
  ultimately have "s' = advance 1 s" "f = FBool v" by (simp_all del: read_field.simps)
  moreover have "err = None"
  proof -
    have "dec_of (FBool b) (rs_pos s) (v # rest) = Inr (FBool v, 1)"
      using dec_fields_written [of "[FBool v]" "[FBool b]" "rs_pos s" rest]
      by (auto simp: wire_field_def recovered_def dec_bind_def dec_return_def split: sum.splits)
    then show ?thesis using read_field_follows [of "FBool b" s] assms r by (simp add: follows_def)
  qed
  ultimately show ?thesis using r by (simp add: Continue_def Let_def del: read_field.simps)
qed

lemma read_list_fields:
  assumes "br_inv (rs_reader s)" and "rs_err s = None"
    and "\<forall>e \<in> set es. map shape ds = map shape e \<and> (\<forall>f \<in> set e. typed f \<and> ok_field f)"
    and "rs_rest s = wire_fields (sentinel_fields es) (rs_pos s) @ rest"
  shows "continue_loop (list_body ds) (Reading s) (collected, []) b =
    Some (Inr (Reading (advance (length (wire_fields (sentinel_fields es) (rs_pos s))) s), (collected @ map (map recovered) es, []), False))"
  using assms
proof (induction es arbitrary: s collected b)
  case Nil
  have "rs_rest s = False # rest" using Nil.prems(4) by (simp add: wire_field_def)
  from read_bit [OF Nil.prems(1,2) this, of b] show ?case by (subst continue_loop.simps) (simp add: wire_field_def)
next
  case (Cons e es)
  let ?p = "rs_pos s"
  let ?n = "length (wire_fields e (Suc ?p))"
  have rest: "rs_rest s = True # wire_fields e (Suc ?p) @ wire_fields (sentinel_fields es) (Suc ?p + ?n) @ rest"
    using Cons.prems(4) by (simp add: wire_field_def wire_fields_append)
  have inv1: "br_inv (rs_reader (advance 1 s))" using br_inv_advance_stream [OF Cons.prems(1), of 1] rest by simp
  have rest1: "rs_rest (advance 1 s) = wire_fields e (Suc ?p) @ wire_fields (sentinel_fields es) (Suc ?p + ?n) @ rest"
    using rest by simp
  have run: "serialize_fields (Reading (advance 1 s)) ds = Inr (Reading (advance ?n (advance 1 s)), map recovered e)"
    using read_written [OF inv1, of e ds] rest1 Cons.prems(2,3) by simp
  have inv2: "br_inv (rs_reader (advance ?n (advance 1 s)))" by (rule br_inv_advance_stream [OF inv1]) (simp add: rest)
  have rest2: "rs_rest (advance ?n (advance 1 s)) = wire_fields (sentinel_fields es) (rs_pos (advance ?n (advance 1 s))) @ rest"
    by (simp add: rest)
  note IH = Cons.IH [OF inv2 _ _ rest2, of "collected @ [map recovered e]" True]
  have "continue_loop (list_body ds) (Reading s) (collected, []) b
      = continue_loop (list_body ds) (Reading (advance ?n (advance 1 s))) (collected @ [map recovered e], []) True"
    using read_bit [OF Cons.prems(1,2) rest, of b] run
    by (subst continue_loop.simps) (simp add: list_body_def Let_def ReadStream_IsReading_def)
  then show ?case using IH Cons.prems(2,3) by (simp add: wire_field_def wire_fields_append advance_def add.assoc)
qed

text \<open>A whole message that is one list.\<close>

definition write_list :: "u8 list \<Rightarrow> field list \<Rightarrow> field list list \<Rightarrow> u8 list res option" where
  "write_list buf ds elements =
    (case NewWriteStream buf of
       Inl p \<Rightarrow> Some (Inl p)
     | Inr s \<Rightarrow> (case serialize_list ds (Writing (s :: unit write_stream)) elements of
         None \<Rightarrow> None
       | Some (Inl p) \<Rightarrow> Some (Inl p)
       | Some (Inr (st, _)) \<Rightarrow> Some (andThen (Stream_SerializeEnd st) (\<lambda>(st, _).
           case st of Writing s \<Rightarrow> andThen (WriteStream_Flush s) WriteStream_Data | _ \<Rightarrow> Inr []))))"

definition read_list :: "u8 list \<Rightarrow> u8 list \<Rightarrow> field list \<Rightarrow> (field list list \<times> go_error option) res option" where
  "read_list packet slack ds =
    (case serialize_list ds (Reading (NewReadStream packet slack :: unit read_stream)) [] of
       None \<Rightarrow> None
     | Some (Inl p) \<Rightarrow> Some (Inl p)
     | Some (Inr (st, elements)) \<Rightarrow> Some (andThen (Stream_SerializeEnd st) (\<lambda>(st, _). Inr (elements, Stream_Err st))))"

lemma write_list_message: "write_list buf ds es = Some (write_message buf (sentinel_fields es))"
proof (cases "NewWriteStream buf :: unit write_stream res")
  case (Inl p)
  then show ?thesis by (simp add: write_list_def write_message_def)
next
  case (Inr s)
  then show ?thesis using write_list_fields [of ds s "[]" es]
    by (cases "foldM (\<lambda>s f. write_field f s) s (sentinel_fields es)")
      (simp_all add: write_list_def write_message_def serialize_list_def write_fields del: write_field.simps)
qed

text \<open>
  C17. A list behind sentinels goes through. Written by the loop of \<open>Continue\<close>, any list of conforming
  elements of one declaration that fits the buffer is read back by the same loop: the reader
  knows no length, stops after the last element, and finds the end of the packet there.
\<close>

theorem sentinel_list_round_trip:
  assumes "length buf mod 8 = 0" and "length (wire_fields (sentinel_fields es) 0) \<le> 8 * length buf"
    and "\<forall>e \<in> set es. map shape ds = map shape e \<and> (\<forall>f \<in> set e. typed f \<and> ok_field f)"
  shows "\<exists>packet. write_list buf ds es = Some (Inr packet)
    \<and> (\<forall>slack. read_list packet slack ds = Some (Inr (map (map recovered) es, None)))"
proof -
  let ?fs = "sentinel_fields es"
  have fs: "\<forall>f \<in> set ?fs. typed f \<and> ok_field f" using assms(3) by (induction es) auto
  then have "write_message buf ?fs = Inr (message_bytes ?fs)" by (intro write_message_ok [OF assms(1) _ assms(2)]) blast
  moreover have "read_list (message_bytes ?fs) slack ds = Some (Inr (map (map recovered) es, None))" for slack
  proof -
    define s :: "unit read_stream" where "s = NewReadStream (message_bytes ?fs) slack"
    let ?rest = "wire_align (length (wire_fields ?fs 0))"
    have s: "br_inv (rs_reader s)" "rs_err s = None" "rs_rest s = wire_fields ?fs (rs_pos s) @ ?rest"
      by (simp_all add: s_def message_bytes_bits)
    let ?s1 = "advance (length (wire_fields ?fs (rs_pos s))) s"
    have loop: "continue_loop (list_body ds) (Reading s) ([], []) False = Some (Inr (Reading ?s1, (map (map recovered) es, []), False))"
      using read_list_fields [OF s(1,2) assms(3) s(3), of "[]" False] by simp
    obtain s1 s2 :: "unit read_stream" where run: "serialize_fields (Reading s) ?fs = Inr (Reading s1, map recovered ?fs)"
      "ReadStream_SerializeEnd s1 = Inr (s2, None)" "rs_err s2 = None" using written_run [OF fs, of ?fs slack] unfolding s_def by blast
    moreover have "s1 = ?s1" using read_written [OF s(1,2) fs, of ?fs] s(3) run(1) by simp
    ultimately show ?thesis using loop by (simp add: read_list_def serialize_list_def s_def [symmetric] ReadStream_Err_def)
  qed
  ultimately show ?thesis unfolding write_list_message by blast
qed

theorem sentinel_list_round_trip_witness:
  "\<exists>packet. write_list (replicate 8 0) [FUint8 0] [[FUint8 7], [FUint8 9]] = Some (Inr packet)
    \<and> read_list packet [] [FUint8 0] = Some (Inr ([[FUint8 7], [FUint8 9]], None))"
  using sentinel_list_round_trip [of "replicate 8 0" "[[FUint8 7], [FUint8 9]]" "[FUint8 0]"]
  by (auto simp: wire_field_def recovered_def)

end
