(* ===== verification/Spec2Isabelle.thy ===== *)
theory Spec2Isabelle
  imports Prelude Packing Bit_Writer Bit_Reader Bitpacker Go_Text Wide_Int Serialize_Core Stream_Params Float32
    Wire_Format Write_Stream Write_Ops Partial_Writes Writers Read_Stream Decoders Read_Ops Measure_Stream Compressed_Float Compressed_Ops
    Compressed_Props Field_Ops Streams Field_Eval Golden Truncation Compat Compat_Eval Compat_Props Compat_Main
    Stream_Steps Serialize_Functions Sentinel
begin

text \<open>
  A verification development of serialize.go, a library of bit packed serialization for network
  packets: one serialize function per message, run on a write, a read or a measure stream.

  \<^bold>\<open>The program and its theories.\<close>

  \<^item> bitpacker.go packs fields of 1 to 32 bits, least significant first, into little endian qwords.
    Bit_Writer models \<open>BitWriter\<close> (the record \<open>bit_writer\<close> has the fields of the struct, one definition
    per method), Bit_Reader models \<open>BitReader\<close> with its window loads and its copied tail.
  \<^item> int128.go: Wide_Int models \<open>Uint128\<close> and \<open>Int128\<close>, pairs of 64 bit lanes, every method.
  \<^item> serialize.go: Serialize_Core models the refusals and their names, the errors a stream latches and
    the \<open>errors.Is\<close> and \<open>errors.As\<close> of Go on them, \<open>CopyString\<close>, the bit counts of a range, zig-zag.
    Go_Text holds what the library uses of Go's standard library on text.
  \<^item> stream.go: Stream_Params models the declaration checks the streams share, Field_Ops and
    Streams the \<open>Stream\<close> interface (\<open>field\<close> is one call of a serialize method, a declaration and the
    value of its destination; \<open>stream\<close> is one of the three implementations; \<open>serialize_field\<close> dispatches),
    Stream_Steps \<open>SerializeObject\<close>, Serialize_Functions what a caller's \<open>Serialize\<close> may do with them, Sentinel
    the loops driven by \<open>Continue\<close> and \<open>Until\<close>.
  \<^item> write_stream.go, read_stream.go, measure_stream.go: Write_Stream, Read_Stream, Measure_Stream, one
    record and one definition per method each. A read operation is given the value its destination
    pointer holds and returns the one it holds afterwards, so that "left unmodified" can be said.
  \<^item> The compressed floats of these four files: Float32 is Go's float32 on bit patterns, every rounding
    written out; Compressed_Float the derivation of the wire constants and the quantization;
    Compressed_Ops the two entry points of each stream.
  \<^item> compat/main.go, the conformance harness: Compat models its data, the serialize function of 45
    calls, the writer and the reader with its truncation sweep and negative controls; Compat_Main the
    files and the command line.

  Every operation that panics in Go has a result of type \<open>'a res\<close>, \<open>Inl\<close> a constructor of \<open>panic\<close>
  (Prelude), one per message of the library and one per runtime panic of a slice expression. An
  \<open>error\<close> is a \<open>go_error option\<close>. Machine integers are words of their width; a float is its bit
  pattern, a string its bytes, a slice that is read its bytes and the slack of its backing array.

  \<^bold>\<open>The specification and the refinement.\<close>

  \<^item> A writer is abstracted to the list of the bits written (\<open>bw_bits\<close>, \<open>ws_bits\<close>), a reader to the
    bits not yet read (\<open>br_rest\<close>); \<open>bw_inv\<close>, \<open>br_inv\<close>, \<open>ws_inv\<close> are the invariants. Wire_Format
    gives each operation the values it accepts and the bits it puts on the wire, Decoders a
    decoder on bit strings, proved to invert the encoding (complete) and to accept nothing else (sound).
  \<^item> Write_Ops: \<open>emits\<close> is the contract of a write operation (it appends exactly its encoding, or
    panics for want of room), Read_Ops: \<open>reads\<close> that of a read operation (it follows its decoder, or
    latches the decoder's refusal and leaves the destination alone), Measure_Stream: \<open>checked\<close> that of a
    measure operation against its write operation. Every method meets its contract; Field_Ops and
    Streams compose them into runs and whole messages, which the properties below are about.
  \<^item> Partial_Writes: \<open>SerializeIntRelative\<close> once more, with the stream that a panic leaves; \<open>outcome\<close> forgets it and gives the
    operation of Write_Stream. Writers: \<open>bw_of\<close> is a functional refinement from \<open>WriteStream\<close> to \<open>BitWriter\<close>. Truncation: decoders
    are stable under more bits, hence what becomes of a packet that is cut or extended. Stream_Steps:
    the step relation \<open>stream_step\<close> of everything a caller can do through the \<open>Stream\<close> interface, and what every stream
    reached keeps. Serialize_Functions: programs of serialize calls with branches, counted loops, nested
    objects, refusals of the caller and declarations that depend on earlier values; on a writer or a measure such a program
    is the list of its calls, and under the definite assignment analysis \<open>settled\<close> a reader makes the
    same calls and recovers what the run \<open>serialized\<close>. Field_Eval, Golden and Compat_Eval evaluate literal messages: the 106 bytes of
    STANDARD.md, the 199 of the harness.
  \<^item> Locales are the interfaces: \<open>bit_sink\<close> (Packing; interpreted by both writers) carries the byte loops,
    \<open>bit_source\<close> (Packing; by the reader at 32 and 64 bits) the reading of fields, \<open>field_source\<close> (Read_Ops;
    by the three group sizes a read stream loads) the bounded integers, \<open>loop_body\<close> (Sentinel; by the
    body of a list) the loops of a caller.

  \<^bold>\<open>Termination and bounds.\<close> No definition takes fuel. Every operation is total; the division loop of
  \<open>Uint128.DivMod\<close> runs over the bits of its dividend, highest first, \<open>utf8_valid\<close> decreases the length of its argument. The
  loops of \<open>Continue\<close> and \<open>Until\<close> are a caller's and need not end, so they are partial functions where \<open>None\<close> is
  a run that never returns; that they return on every packet, after at most one element per bit,
  is a theorem, as is that the loop the documentation warns of does not. Bit counters are natural
  numbers: they are at most eight times the length of a slice in memory, which is below the range of
  Go's \<open>int64\<close>. A measure has no such slice: its counter is Go's below \<open>2 ^ 63\<close> measured bits, and wraps there past
  them. Where a caller's argument enters such a sum (\<open>WouldReadPastEnd\<close>, the widths of a fixed point format)
  the sum wraps at 64 bits in the model too, and the theorems say what follows.

  \<^bold>\<open>Not modelled.\<close> The stream that a panic leaves, except in Partial_Writes (the other methods of \<open>WriteStream\<close> that
  pack a value check it and their room before they store); the payload of a NaN, which the code only tests for and refuses; an error type of the
  caller with an \<open>Is\<close> or \<open>As\<close> method of its own; the aliasing of a writer's buffer with a slice the caller keeps
  (a buffer is the writer's byte list); the text of the messages the harness prints (the constructor of
  an error stands for it). The programs of Serialize_Functions do not return early on an error
  (on a reader that has refused every later call is a no-op; an object that does is a step of
  Stream_Steps). The tests, the tools and the conformance files are outside the model; vectors they
  pin are evaluated in Golden, Compat_Eval and Compressed_Props.
\<close>

section \<open>Properties of whole messages\<close>

text \<open>
  \<open>comes_back f g\<close>: \<open>g\<close> is what a reader makes of \<open>f\<close>. A compressed float comes back as the float that its
  quantum decodes to, every other field as it was written.
\<close>

fun comes_back :: "field \<Rightarrow> field \<Rightarrow> bool" where
  "comes_back (FCompressedFloat32 v mn mx resolution) g \<longleftrightarrow>
     (case compressedFloatParams mn mx resolution of (maxIntegerValue, bits, delta) \<Rightarrow>
       g = FCompressedFloat32 (dequantize_float32 (quantize_float32 v maxIntegerValue delta mn) maxIntegerValue delta mn) mn mx resolution)"
| "comes_back (FCompressedFloat32Precomputed v maxIntegerValue bits delta mn) g \<longleftrightarrow>
     g = FCompressedFloat32Precomputed (dequantize_float32 (quantize_float32 v maxIntegerValue delta mn) maxIntegerValue delta mn)
       maxIntegerValue bits delta mn"
| "comes_back f g \<longleftrightarrow> g = f"

lemma comes_back_recovered: "comes_back f (recovered f)"
  by (cases f) (simp_all add: recovered_def split: prod.split)

lemma comes_back_exact: "exact f \<Longrightarrow> comes_back f g \<longleftrightarrow> g = f"
  by (cases f) simp_all

text \<open>
  C1. The round trip. Any list of conforming fields that fits the buffer is written without a
  panic, and a reader that declares the same fields gets every one back, whatever its
  destinations held and whatever lies past the packet in memory, and finds the end where it is.
  A compressed float comes back as the float that its quantum decodes to, every other field as it was written.
\<close>

theorem message_round_trip:
  assumes "length buf mod 8 = 0" and "\<forall>f \<in> set fs. typed f \<and> ok_field f"
    and "length (wire_fields fs 0) \<le> 8 * length buf" and "map shape ds = map shape fs"
  shows "\<exists>packet. write_message buf fs = Inr packet \<and> length packet = (length (wire_fields fs 0) + 7) div 8
    \<and> (\<forall>slack. \<exists>gs. read_message packet slack ds = Inr (gs, None) \<and> list_all2 comes_back fs gs)"
proof -
  have "list_all2 comes_back fs (map recovered fs)" by (simp add: list_all2_map2 list_all2_same comes_back_recovered)
  then show ?thesis using written_is_read [OF assms(1-3)] assms(4) by blast
qed

text \<open>
  C3. One encoding per message. If a reader whose declarations are exact (no compressed floats)
  accepts a packet, then what it delivered conforms to its declarations, and writing those values
  again gives that packet, byte for byte.
\<close>

theorem accepted_packet_is_canonical:
  assumes "\<forall>d \<in> set ds. typed d \<and> exact d" and "read_message packet slack ds = Inr (fs, None)"
  shows "(\<forall>f \<in> set fs. ok_field f) \<and> map shape fs = map shape ds
    \<and> (\<forall>buf. length buf mod 8 = 0 \<and> length packet \<le> length buf \<longrightarrow> write_message buf fs = Inr packet)"
proof -
  have typed: "\<forall>d \<in> set ds. typed d" using assms(1) by blast
  obtain n where "dec_bind (dec_fields ds) (\<lambda>xs. dec_bind dec_end (\<lambda>_. dec_return xs)) 0 (bytes_bits packet) = Inr (fs, n)"
    using read_message_eq [OF typed, of packet slack] assms(2) by (auto split: sum.splits)
  from decode_to_end [OF typed, THEN iffD1, OF this] obtain rs where D: "fs = map deliver rs" "\<forall>r \<in> set rs. ok_code r"
    "map shape rs = map shape ds" "packet = code_bytes rs" by blast
  have "\<forall>r \<in> set rs. \<exists>d \<in> set ds. shape r = shape d" using D(3) by (metis image_iff set_map)
  then have exact: "\<forall>r \<in> set rs. exact r" using assms(1) shape_exact by metis
  then have fs: "fs = rs" "map code fs = rs" using D(1) by (simp_all add: exact_simps map_idI)
  have ok: "\<forall>f \<in> set fs. ok_field f" using D(2) exact unfolding fs(1) by (simp add: exact_simps)
  have packet: "packet = message_bytes fs" unfolding message_bytes_def fs(2) by (rule D(4))
  have "write_message buf fs = Inr packet" if "length buf mod 8 = 0" "length packet \<le> length buf" for buf
  proof -
    have "length (wire_fields fs 0) \<le> 8 * length packet"
      using arg_cong [OF message_bytes_bits [of fs], of length] packet by simp
    then show ?thesis using write_message_ok [OF that(1) ok] packet that by simp
  qed
  with ok D(3) fs(1) show ?thesis by (intro conjI allI impI) simp_all
qed

text \<open>
  C4. Reading is total. Whatever bytes arrive, a reader of any declarations returns: no load, slice
  or conversion panics. It gives every destination back with its declaration, and any error is
  one of the nine refusals of the closed list.
\<close>

theorem read_message_total:
  assumes "\<forall>d \<in> set ds. typed d"
  shows "\<exists>fs err. read_message packet slack ds = Inr (fs, err) \<and> map shape fs = map shape ds
    \<and> (case err of None \<Rightarrow> True | Some e \<Rightarrow> \<exists>r. e = ErrRefusal r \<and> in_closed_list r)"
  using read_message_eq [OF assms, of packet slack] by (fastforce split: sum.splits)

text \<open>
  C6. A refusal is terminal and leaves no trace in later fields. From any stream that has not
  refused, a run over the destinations \<open>ds\<close> either delivers them all, at a position inside the
  data, or latches one refusal of the closed list at some field \<open>i\<close>: fields before it hold what
  was decoded, field \<open>i\<close> and every later one hold what they held, and any further run over any
  destinations then does nothing and returns.
\<close>

theorem refusal_is_terminal:
  assumes "br_inv (rs_reader s)" and "rs_err s = None" and "\<forall>d \<in> set ds. typed d"
  shows "\<exists>s' fs. serialize_fields (Reading s) ds = Inr (Reading s', fs)
    \<and> rs_pos s \<le> rs_pos s' \<and> rs_pos s' \<le> br_numBits (rs_reader s') \<and> br_inv (rs_reader s')
    \<and> (case rs_err s' of
         None \<Rightarrow> (\<forall>f \<in> set fs. ok_delivered f)
       | Some e \<Rightarrow> (\<exists>r. e = ErrRefusal r \<and> in_closed_list r)
           \<and> (\<exists>i < length ds. drop i fs = drop i ds \<and> (\<forall>f \<in> set (take i fs). ok_delivered f))
           \<and> (\<forall>ds'. (\<forall>d \<in> set ds'. typed d) \<longrightarrow> serialize_fields (Reading s') ds' = Inr (Reading s', ds')))"
proof -
  obtain s' fs where run: "serialize_fields (Reading s) ds = Inr (Reading s', fs)" and D: "delivers s ds s' fs"
    using read_fields [OF assms(3,1,2)] by blast
  have inv: "br_inv (rs_reader (latch r (advance k s)))" "rs_pos (latch r (advance k s)) \<le> br_numBits (rs_reader (latch r (advance k s)))"
    "br_inv (rs_reader (advance k s))" "rs_pos (advance k s) \<le> br_numBits (rs_reader (advance k s))" if "k \<le> length (rs_rest s)" for k r
    using br_inv_advance_stream [OF assms(1) that] br_invD(5) [of "rs_reader (advance k s)"] by simp_all
  have ok: "\<forall>f \<in> set xs. ok_delivered f" if "dec_fields ds' p bs = Inr (xs, n)" "\<forall>d \<in> set ds'. typed d" for ds' p bs xs n
    using delivered_fields(2) [OF that(2,1)] .
  show ?thesis
  proof (cases "dec_fields ds (rs_pos s) (rs_rest s)")
    case (Inr xn)
    then show ?thesis using run D inv ok [OF _ assms(3)] assms(2)
      by (intro exI [of _ s'] exI [of _ fs]) (auto simp: delivers_def split: prod.splits)
  next
    case (Inl r)
    then obtain k i xs n where K: "in_closed_list r" "k \<le> length (rs_rest s)" "s' = latch r (advance k s)"
      "i < length ds" "dec_fields (take i ds) (rs_pos s) (rs_rest s) = Inr (xs, n)" "fs = xs @ drop i ds"
      using D by (auto simp: delivers_def)
    have ti: "\<forall>d \<in> set (take i ds). typed d" using assms(3) by (auto dest: in_set_takeD)
    have "map shape xs = map shape (take i ds)"
      by (rule delivered_fields(1) [OF ti K(5)])
    then have "length xs = i" using K(4) by (metis length_map length_take min.absorb2 less_imp_le)
    then have fields: "drop i fs = drop i ds" "take i fs = xs" unfolding K(6) by simp_all
    have "serialize_fields (Reading s') ds' = Inr (Reading s', ds')" if "\<forall>d \<in> set ds'. typed d" for ds'
      by (rule terminal_fields) (use that in \<open>simp_all add: K(3)\<close>)
    then show ?thesis
      using run inv [OF K(2)] ok [OF K(5) ti] fields K(1,4) unfolding K(3)
      by (intro exI [of _ s'] exI [of _ fs]) (auto simp: K(3))
  qed
qed

text \<open>
  C7. Measuring is conservative, and checks what the writer checks. A measured message fits any
  buffer of that many bits, takes at most the bits measured, and at most seven fewer for each
  aligning field. A message that does not conform panics on the measure with the panic it gives
  on the writer (unless the writer has run out of room before it).
\<close>

theorem measure_is_conservative:
  assumes "\<forall>f \<in> set fs. typed f"
  shows "case measure_message fs of
      Inr n \<Rightarrow> length (wire_fields fs 0) \<le> n \<and> n \<le> length (wire_fields fs 0) + 7 * length (filter aligns fs)
        \<and> (\<forall>buf. length buf mod 8 = 0 \<and> n \<le> 8 * length buf \<longrightarrow> (\<exists>packet. write_message buf fs = Inr packet))
    | Inl p \<Rightarrow> p \<noteq> PanicWriteOverflow \<and> \<not> (\<forall>f \<in> set fs. ok_field f)
        \<and> (\<forall>buf. length buf mod 8 = 0 \<longrightarrow> write_message buf fs \<in> {Inl p, Inl PanicWriteOverflow})"
proof (cases "\<forall>f \<in> set fs. ok_field f")
  case True
  have "\<exists>packet. write_message buf fs = Inr packet" if "length buf mod 8 = 0" "sum_list (map measured fs) \<le> 8 * length buf" for buf
    using write_message_ok [OF that(1) True] sum_measured_bounds(1) [of fs 0] that(2) by auto
  then show ?thesis
    using measure_message_ok [of fs] assms True sum_measured_bounds [of fs 0] by simp
next
  case False
  then show ?thesis using misused_message [OF assms False] by auto
qed

text \<open>
  C8. A writer accepts exactly the conforming messages that fit: it returns the bytes of the
  standard's encoding, zero padded to a byte, when every field conforms and the bits fit the
  buffer, and panics in every other case.
\<close>

theorem write_message_accepts:
  assumes "length buf mod 8 = 0" and "\<forall>f \<in> set fs. typed f"
  shows "case write_message buf fs of
      Inr packet \<Rightarrow> (\<forall>f \<in> set fs. ok_field f) \<and> length (wire_fields fs 0) \<le> 8 * length buf
        \<and> bytes_bits packet = wire_fields fs 0 @ wire_align (length (wire_fields fs 0))
    | Inl p \<Rightarrow> \<not> ((\<forall>f \<in> set fs. ok_field f) \<and> length (wire_fields fs 0) \<le> 8 * length buf)"
proof (cases "\<forall>f \<in> set fs. ok_field f")
  case True
  show ?thesis
  proof (cases "length (wire_fields fs 0) \<le> 8 * length buf")
    case fits: True
    then show ?thesis using write_message_ok [OF assms(1) True] True message_bytes_bits by simp
  next
    case False
    then show ?thesis using write_message_overflow [OF assms(1) True] by simp
  qed
next
  case False
  then obtain p where "write_message buf fs \<in> {Inl p, Inl PanicWriteOverflow}"
    using misused_message [OF assms(2) False] assms(1) by metis
  then show ?thesis using False by auto
qed

text \<open>
  C18. A compressed float on the wire: a conforming value is written in at most 32 bits and read back
  as a finite float in [min, min + delta], delta being the rounded \<open>max - min\<close> and the sum rounded, the same whatever
  the destination held; a value at or below the minimum comes back as the minimum, and one at or above the
  maximum as the top of that range, which the rounding may put off the maximum.
\<close>

theorem compressed_float_travels:
  assumes "length buf mod 8 = 0" and "4 \<le> length buf" and "ok_compressed mn mx resolution v"
  shows "\<exists>packet w. write_message buf [FCompressedFloat32 v mn mx resolution] = Inr packet \<and> length packet \<le> 4
    \<and> (\<forall>slack old. read_message packet slack [FCompressedFloat32 old mn mx resolution] = Inr ([FCompressedFloat32 w mn mx resolution], None))
    \<and> float32BitsAreFinite w \<and> f32_value mn \<le> f32_value w \<and> f32_value w \<le> f32_value (f32_add mn (f32_sub mx mn))
    \<and> (f32_value v \<le> f32_value mn \<longrightarrow> f32_value w = f32_value mn)
    \<and> (f32_value mx \<le> f32_value v \<longrightarrow> f32_value w = f32_value (f32_add mn (f32_sub mx mn)))"
proof -
  obtain m n d where p: "compressedFloatParams mn mx resolution = (m, n, d)" by (metis prod_cases3)
  note C = ok_compressed_constants [OF assms(3) p]
  define f where "f = FCompressedFloat32 v mn mx resolution"
  define q where "q = quantize_float32 v m d mn"
  define w where "w = dequantize_float32 q m d mn"
  have f: "typed f" "ok_field f" "recovered f = FCompressedFloat32 w mn mx resolution" "length (wire_fields [f] 0) = n"
    using assms(3) by (simp_all add: f_def recovered_def p w_def q_def wire_field_def)
  have fit: "length (wire_fields [f] 0) \<le> 8 * length buf" using f(4) C(3) assms(2) by simp
  have "\<exists>packet. write_message buf [f] = Inr packet \<and> length packet = (n + 7) div 8
    \<and> (\<forall>slack old. read_message packet slack [FCompressedFloat32 old mn mx resolution] = Inr ([FCompressedFloat32 w mn mx resolution], None))"
    using written_is_read [OF assms(1) _ fit] f by (auto simp: f_def)
  moreover have "(n + 7) div 8 \<le> 4" using C(3) by (simp add: div_le_mono [of "n + 7" 39 8, simplified])
  moreover have "q \<le> m" by (simp add: q_def quantize_le)
  note D = dequantize_bounds [OF C(1) this]
  have "q = 0" if "f32_value v \<le> f32_value mn" unfolding q_def by (rule quantize_low [OF C(2,1) that])
  moreover have "q = m" if "f32_value mx \<le> f32_value v"
    unfolding q_def by (rule quantize_high [OF C(2,1) f32_of_step_count [OF p] C(6,5) that])
  ultimately show ?thesis
    using D unfolding f_def C(5) [symmetric] by (auto simp: w_def p float32BitsAreFinite_iff)
qed

section \<open>Witnesses\<close>

definition sample_message :: "field list" where
  "sample_message = [FBits 13 4, FInt (- 37) (- 100) 100, FBool True, FIntRelative 100 2100, FAlign, FBytes [222, 173],
     FString [104, 105] 16, FUint16 4660]"

definition sample_destinations :: "field list" where
  "sample_destinations = [FBits 0 4, FInt 0 (- 100) 100, FBool False, FIntRelative 100 0, FAlign, FBytes [0, 0], FString [] 16, FUint16 0]"

lemma sample_message_ok: "\<forall>f \<in> set sample_message. typed f \<and> ok_field f"
proof -
  have "utf8_valid [104, 105]" by code_simp
  then show ?thesis
    by (simp add: sample_message_def ok_bits_def ok_int_def ok_int_relative_def ok_string_def bufferSizeValid_def)
qed

lemma sample_message_length: "length (wire_fields sample_message 0) \<le> 104"
proof -
  have "sum_list (map measured sample_message) \<le> 104"
    by (simp add: sample_message_def wire_field_def wire_int_def Len_def nat_len.simps wire_int_relative_def)
  then show ?thesis using sum_measured_bounds(1) [of sample_message 0] by linarith
qed

lemma sample_shapes: "map shape sample_destinations = map shape sample_message"
  by (simp add: sample_message_def sample_destinations_def)

theorem message_round_trip_witness:
  "\<exists>packet. write_message (replicate 16 0) sample_message = Inr packet
    \<and> read_message packet [1, 2, 3] sample_destinations = Inr (sample_message, None)"
proof -
  have fit: "length (wire_fields sample_message 0) \<le> 8 * length (replicate 16 (0 :: u8))" using sample_message_length by simp
  have "length (replicate 16 (0 :: u8)) mod 8 = 0" by simp
  from message_round_trip [OF this sample_message_ok fit sample_shapes]
  obtain packet gs where P: "write_message (replicate 16 0) sample_message = Inr packet"
    "read_message packet [1, 2, 3] sample_destinations = Inr (gs, None)" "list_all2 comes_back sample_message gs" by blast
  have "\<forall>f \<in> set sample_message. exact f" by (simp add: sample_message_def)
  then have "gs = sample_message"
    using P(3) by (auto simp: list_all2_conv_all_nth comes_back_exact intro: nth_equalityI)
  then show ?thesis using P(1,2) by blast
qed

lemma sample_read: "read_message [13] [7] [FBits 0 4] = Inr ([FBits 13 4], None)"
  by code_simp

theorem accepted_packet_is_canonical_witness:
  "ok_field (FBits 13 4) \<and> write_message (replicate 8 0) [FBits 13 4] = Inr [13]"
  using accepted_packet_is_canonical [OF _ sample_read] by simp

theorem read_message_total_witness:
  "\<exists>fs err. read_message [255, 3] [] sample_destinations = Inr (fs, err) \<and> map shape fs = map shape sample_destinations"
proof -
  have "\<forall>d \<in> set sample_destinations. typed d" by (simp add: sample_destinations_def)
  from read_message_total [OF this, of "[255, 3]" "[]"] show ?thesis by blast
qed

theorem refusal_is_terminal_witness:
  "\<exists>s' fs. serialize_fields (Reading (NewReadStream [13] [] :: unit read_stream)) [FBits 0 4, FUint8 9] = Inr (Reading s', fs)
    \<and> rs_pos s' \<le> br_numBits (rs_reader s')"
proof -
  have typed: "\<forall>d \<in> set [FBits 0 4, FUint8 9]. typed d" by simp
  show ?thesis
    using refusal_is_terminal [OF NewReadStream_simps(1,2) typed, of "[13]" "[]", where 'a = unit] by blast
qed

theorem measure_is_conservative_witness:
  "\<exists>n. measure_message sample_message = Inr n \<and> length (wire_fields sample_message 0) \<le> n"
proof -
  have typed: "\<forall>f \<in> set sample_message. typed f" using sample_message_ok by blast
  show ?thesis using measure_is_conservative [OF typed] sample_message_ok by (auto split: sum.splits)
qed

theorem write_message_accepts_witness:
  "\<exists>p. write_message (replicate 8 0) [FInt 5 0 4] = Inl p"
  using write_message_accepts [of "replicate 8 0" "[FInt 5 0 4]"]
  by (auto simp: ok_int_def split: sum.splits)

theorem compressed_float_travels_witness:
  "\<exists>packet. write_message (replicate 8 0) [FCompressedFloat32 0x40A00000 0 0x41200000 0x3C23D70A] = Inr packet \<and> length packet \<le> 4"
  using compressed_float_travels [of "replicate 8 0" 0 "0x41200000" "0x3C23D70A" "0x40A00000"]
  by (auto simp: compat_declarations float32BitsAreFinite_def)

end
